(* ===== verification/Prelude.thy ===== *)
theory Prelude
  imports Main "HOL-Library.Word"
begin

text \<open>
  Shared vocabulary of the development: the machine-integer conventions, the saturating
  and checked arithmetic of the Rust standard library, and the generic lemmas on lists
  and rings that the components use.

  Conventions. A Rust \<open>usize\<close> or an unsigned counter that the code only adds to with a
  saturating or checked operation is a \<open>nat\<close>, with the bound written out; a value whose
  wrap-around the code relies on is a word. A frame number (\<open>i32\<close>) is an \<open>int\<close>; the
  lemmas \<open>*_i32\<close> state where it stays inside the 32-bit range.
\<close>

named_theorems ring_simps "facts about positions of a ring buffer"
named_theorems frame_simps "facts about frames and the null frame"

subsection \<open>Fixed-width arithmetic\<close>

definition u32_max :: nat where "u32_max = 4294967295"
definition u64_max :: nat where "u64_max = 18446744073709551615"
definition i32_min :: int where "i32_min = - 2147483648"
definition i32_max :: int where "i32_max = 2147483647"

definition in_i32 :: "int \<Rightarrow> bool" where
  "in_i32 x \<longleftrightarrow> i32_min \<le> x \<and> x \<le> i32_max"

text \<open>\<open>u32::saturating_add\<close>, \<open>u64::saturating_add\<close> and \<open>saturating_sub\<close> (on \<open>nat\<close>,
  subtraction already stops at zero).\<close>

definition sat_add32 :: "nat \<Rightarrow> nat \<Rightarrow> nat" where
  "sat_add32 a b = min u32_max (a + b)"

definition sat_add64 :: "nat \<Rightarrow> nat \<Rightarrow> nat" where
  "sat_add64 a b = min u64_max (a + b)"

definition div_ceil :: "nat \<Rightarrow> nat \<Rightarrow> nat" where
  "div_ceil a b = (if a mod b = 0 then a div b else a div b + 1)"

text \<open>For evaluation the bound is compared as an integer, not in unary.\<close>

lemma sat_add32_code [code]:
  "sat_add32 a b = (if int a + int b \<le> 4294967295 then a + b else nat 4294967295)"
  by (simp add: sat_add32_def u32_max_def min_def)

lemma sat_add64_code [code]:
  "sat_add64 a b = (if int a + int b \<le> 18446744073709551615 then a + b
     else nat 18446744073709551615)"
  by (simp add: sat_add64_def u64_max_def min_def)

lemma sat_add32_le [simp]: "sat_add32 a b \<le> u32_max"
  by (simp add: sat_add32_def)

lemma sat_add64_le [simp]: "sat_add64 a b \<le> u64_max"
  by (simp add: sat_add64_def)

lemma sat_add32_mono: "a \<le> a' \<Longrightarrow> b \<le> b' \<Longrightarrow> sat_add32 a b \<le> sat_add32 a' b'"
  by (auto simp: sat_add32_def)

lemma div_ceil_le_iff:
  assumes "0 < b" shows "div_ceil a b \<le> n \<longleftrightarrow> a \<le> n * b"
proof -
  have split: "a div b * b + a mod b = a" by simp
  show ?thesis
  proof (cases "a mod b = 0")
    case True
    then have "a = a div b * b" using split by simp
    then show ?thesis using True assms
      by (metis div_ceil_def mult_le_cancel2 mult.commute)
  next
    case False
    have "a div b + 1 \<le> n \<longleftrightarrow> a div b < n" by auto
    also have "\<dots> \<longleftrightarrow> a < n * b" using assms by (simp add: div_less_iff_less_mult)
    also have "\<dots> \<longleftrightarrow> a \<le> n * b"
      using False by (metis le_neq_implies_less less_imp_le mod_mult_self2_is_0)
    finally show ?thesis using False by (simp add: div_ceil_def)
  qed
qed

lemma less_div_ceil_iff: "0 < b \<Longrightarrow> n < div_ceil a b \<longleftrightarrow> n * b < a"
  using div_ceil_le_iff [of b a n] by linarith

subsection \<open>Positions of a ring of size \<open>L\<close>\<close>

lemma mod_window_inj:
  fixes a b :: nat
  assumes "a mod L = b mod L" "a \<le> b" "b < a + L"
  shows "a = b"
proof -
  have "L dvd b - a" using assms(1,2) by (metis mod_eq_dvd_iff_nat)
  moreover have "b - a < L" using assms(2,3) by linarith
  ultimately show ?thesis using assms(2) by (metis dvd_imp_le le_antisym diff_is_0_eq gr0I leD)
qed

lemma ring_prev [ring_simps]:
  fixes n :: nat
  assumes "0 < L" "0 < n"
  shows "(n mod L + L - 1) mod L = (n - 1) mod L"
proof -
  have "(n mod L + L - 1) mod L = (n mod L + (L - 1)) mod L" using assms by simp
  also have "\<dots> = (n + (L - 1)) mod L" by (simp add: mod_add_left_eq)
  also have "n + (L - 1) = (n - 1) + L" using assms by linarith
  finally show ?thesis by simp
qed

lemma ring_Suc [ring_simps]: "Suc (n mod L) mod L = Suc n mod L"
  by (simp add: mod_Suc_eq)

lemma ring_offset [ring_simps]: "((n mod L) + k) mod L = (n + k) mod (L::nat)"
  by (simp add: mod_add_left_eq)

lemma ring_cover:
  fixes k L n :: nat
  assumes "k < L" "k < n"
  shows "\<exists>g < n. n \<le> g + L \<and> g mod L = k"
proof -
  define q where "q = (n - 1 - k) div L"
  have "(n - 1 - k) div L * L + (n - 1 - k) mod L = n - 1 - k" by simp
  moreover have "(n - 1 - k) mod L < L" using assms by simp
  ultimately have "k + q * L < n" "n \<le> k + q * L + L" using assms unfolding q_def by linarith+
  moreover have "(k + q * L) mod L = k" using assms by simp
  ultimately show ?thesis by blast
qed

subsection \<open>Lists\<close>

lemma nth_snoc: "k \<le> length xs \<Longrightarrow> (xs @ [x]) ! k = (if k < length xs then xs ! k else x)"
  by (auto simp: nth_append)

lemma last_append_replicate: "last (h @ replicate n (last h)) = last h"
  by (cases n) auto

text \<open>Index of the first element with a property, \<open>None\<close> when there is none
  (\<open>iter().position\<close>, \<open>iter().find\<close>).\<close>

fun find_idx :: "('a \<Rightarrow> bool) \<Rightarrow> 'a list \<Rightarrow> nat option" where
  "find_idx P [] = None"
| "find_idx P (x # xs) = (if P x then Some 0 else map_option Suc (find_idx P xs))"

lemma find_idx_None: "find_idx P xs = None \<longleftrightarrow> (\<forall>x \<in> set xs. \<not> P x)"
  by (induction xs) auto

lemma find_idx_Some:
  "find_idx P xs = Some k \<longleftrightarrow> k < length xs \<and> P (xs ! k) \<and> (\<forall>j < k. \<not> P (xs ! j))"
proof (induction xs arbitrary: k)
  case (Cons x xs)
  then show ?case by (cases k) (auto simp: All_less_Suc2)
qed simp

lemma find_idx_unique:
  assumes "k < length xs" "P (xs ! k)" "\<And>j. j < length xs \<Longrightarrow> P (xs ! j) \<Longrightarrow> j = k"
  shows "find_idx P xs = Some k"
proof -
  have "\<not> P (xs ! j)" if "j < k" for j
    using assms(1) that assms(3) [of j] by auto
  then show ?thesis by (simp add: find_idx_Some assms(1,2))
qed

text \<open>Column \<open>p\<close> of a list of rows.\<close>

definition column :: "nat \<Rightarrow> 'a list list \<Rightarrow> 'a list" where
  "column p rows = map (\<lambda>r. r ! p) rows"

lemma column_simps [simp]:
  "column p [] = []"
  "column p (rows @ [r]) = column p rows @ [r ! p]"
  "length (column p rows) = length rows"
  "k < length rows \<Longrightarrow> column p rows ! k = rows ! k ! p"
  by (simp_all add: column_def)

lemma column_take: "column p (take k rows) = take k (column p rows)"
  by (simp add: column_def take_map)

subsection \<open>Bytes\<close>

type_synonym byte = "8 word"
type_synonym bytes = "8 word list"

text \<open>\<open>to_le_bytes\<close> of a \<open>k\<close>-byte integer.\<close>

definition le_bytes :: "nat \<Rightarrow> nat \<Rightarrow> bytes" where
  "le_bytes k n = map (\<lambda>i. word_of_nat (n div 256 ^ i)) [0..<k]"

lemma le_bytes_length [simp]: "length (le_bytes k n) = k"
  by (simp add: le_bytes_def)

subsection \<open>Sorted maps, as \<open>BTreeMap\<close>\<close>

fun bt_insert :: "'k::linorder \<Rightarrow> 'v \<Rightarrow> ('k \<times> 'v) list \<Rightarrow> ('k \<times> 'v) list" where
  "bt_insert k v [] = [(k, v)]"
| "bt_insert k v ((k', v') # m) =
     (if k < k' then (k, v) # (k', v') # m
      else if k = k' then (k, v) # m
      else (k', v') # bt_insert k v m)"

lemma bt_insert_keys: "fst ` set (bt_insert k v m) = insert k (fst ` set m)"
  by (induction k v m rule: bt_insert.induct) (simp_all add: insert_commute)

lemma bt_insert_sorted:
  "sorted_wrt (<) (map fst m) \<Longrightarrow> sorted_wrt (<) (map fst (bt_insert k v m))"
proof (induction m)
  case (Cons e m)
  obtain k' v' where e: "e = (k', v')" by (cases e)
  have "fst ` set (bt_insert k v m) = insert k (fst ` set m)" by (rule bt_insert_keys)
  then show ?case using Cons e by auto
qed simp

lemma bt_insert_map_of: "map_of (bt_insert k v m) k' = (if k' = k then Some v else map_of m k')"
  by (induction m) auto

fun le_nat :: "bytes \<Rightarrow> nat" where
  "le_nat [] = 0"
| "le_nat (b # bs) = unat b + 256 * le_nat bs"

lemma le_nat_bytes: "le_nat (le_bytes k n) = n mod 256 ^ k"
proof (induction k arbitrary: n)
  case (Suc k)
  have "le_bytes (Suc k) n = word_of_nat n # le_bytes k (n div 256)"
    by (auto simp: le_bytes_def upt_conv_Cons map_Suc_upt [symmetric] div_mult2_eq
        simp del: upt_Suc)
  then show ?case using Suc
    by (simp add: unat_of_nat mod_mult2_eq take_bit_eq_mod)
qed (simp add: le_bytes_def)

lemma le_bytes_inject: "n < 256 ^ k \<Longrightarrow> m < 256 ^ k \<Longrightarrow> le_bytes k n = le_bytes k m \<Longrightarrow> n = m"
  by (metis le_nat_bytes mod_less)

end
