(* ===== verification/Frames.thy ===== *)
theory Frames
  imports Prelude
begin

text \<open>
  Frame numbers, the status of an input and the session's errors:
  \<open>fofoca-netplay/src/frame.rs\<close> and \<open>error.rs\<close>. Checksums (\<open>u128\<close>) are opaque to the
  crate, which only compares them; they are \<open>nat\<close> here.
\<close>

type_synonym frame = int

definition NULL_FRAME :: frame where "NULL_FRAME = - 1"

datatype input_status = Confirmed | Predicted | Disconnected_input

datatype rollback_error =
    PredictionLimit
  | InvalidPlayer nat
  | MissingLocalInput
  | DesyncError frame nat nat

lemma NULL_FRAME_nat [frame_simps, simp]:
  "int n \<noteq> NULL_FRAME" "NULL_FRAME \<noteq> int n"
  "int n + 1 \<noteq> NULL_FRAME" "NULL_FRAME \<noteq> int n + 1"
  by (simp_all add: NULL_FRAME_def)

lemma NULL_FRAME_less_nat [frame_simps]: "NULL_FRAME < int n"
  by (simp add: NULL_FRAME_def)

text \<open>A log of inputs for consecutive frames, the first one being \<open>delay\<close>.\<close>

definition log_ok :: "nat \<Rightarrow> (frame \<times> 'i) list \<Rightarrow> bool" where
  "log_ok delay xs \<longleftrightarrow> (\<forall>j < length xs. fst (xs ! j) = int (delay + j))"

lemma log_ok_snoc: "log_ok delay xs \<Longrightarrow> t = int (delay + length xs) \<Longrightarrow> log_ok delay (xs @ [(t, i)])"
  by (auto simp: log_ok_def nth_append less_Suc_eq)

lemma log_ok_take: "log_ok delay xs \<Longrightarrow> log_ok delay (take k xs)"
  by (simp add: log_ok_def)

end
