(* ===== verification/PredictedInputs.thy ===== *)
theory PredictedInputs
  imports Frames
begin

text \<open>
  The contract between the rollback engine (\<open>sync.rs\<close>, the client) and one player's input
  queue (\<open>input_queue.rs\<close>, the provider). \<open>h\<close> is the list of real inputs filed so far,
  \<open>u\<close> the inputs handed out for the frames of the current timeline. The client lemmas are
  about one queue per player, asked for the same frame.
\<close>

definition players_all ::
  "('q \<Rightarrow> 'i list \<Rightarrow> 'i list \<Rightarrow> bool) \<Rightarrow> 'q list \<Rightarrow> 'i list list \<Rightarrow> 'i list list \<Rightarrow> bool" where
  "players_all R qs hs tml \<longleftrightarrow>
     length hs = length qs \<and> (\<forall>p < length qs. R (qs ! p) (hs ! p) (column p tml))"

lemma players_allD:
  "players_all R qs hs tml \<Longrightarrow> length hs = length qs"
  "players_all R qs hs tml \<Longrightarrow> p < length qs \<Longrightarrow> R (qs ! p) (hs ! p) (column p tml)"
  by (simp_all add: players_all_def)

lemma players_all_mono:
  "players_all R qs hs tml \<Longrightarrow> (\<And>q h u. R q h u \<Longrightarrow> S q h u) \<Longrightarrow> players_all S qs hs tml"
  by (simp add: players_all_def)

lemma players_all_update:
  "players_all R qs hs tml \<Longrightarrow> R q h (column p tml) \<Longrightarrow> players_all R (qs[p := q]) (hs[p := h]) tml"
  unfolding players_all_def
  by (metis length_list_update nth_list_update_eq nth_list_update_neq)

locale predicted_inputs =
  fixes take_input :: "frame \<Rightarrow> 'q \<Rightarrow> ('i \<times> 's) \<times> 'q"
    and reset :: "'q \<Rightarrow> 'q"
    and first_wrong :: "'q \<Rightarrow> frame"
    and core :: "'q \<Rightarrow> 'i list \<Rightarrow> 'i list \<Rightarrow> bool"
    and inv :: "'q \<Rightarrow> 'i list \<Rightarrow> 'i list \<Rightarrow> bool"
    and value_of :: "'i list \<Rightarrow> nat \<Rightarrow> 'i"
    and status_of :: "'i list \<Rightarrow> nat \<Rightarrow> 's"
    and cap :: nat
  assumes take_value: "core q h u \<Longrightarrow> first_wrong q = NULL_FRAME \<Longrightarrow>
        length h \<le> length u + cap \<Longrightarrow>
        fst (take_input (int (length u)) q) = (value_of h (length u), status_of h (length u))"
    and take_inv: "core q h u \<Longrightarrow> first_wrong q = NULL_FRAME \<Longrightarrow>
        length h \<le> length u + cap \<Longrightarrow>
        inv (snd (take_input (int (length u)) q)) h (u @ [value_of h (length u)])"
    and take_right: "core q h u \<Longrightarrow> first_wrong q = NULL_FRAME \<Longrightarrow>
        length h \<le> length u + cap \<Longrightarrow>
        first_wrong (snd (take_input (int (length u)) q)) = NULL_FRAME"
    and reset_core: "core q h u \<Longrightarrow> n \<le> length u \<Longrightarrow>
        first_wrong q = NULL_FRAME \<or> int n \<le> first_wrong q \<Longrightarrow> core (reset q) h (take n u)"
    and reset_right: "first_wrong (reset q) = NULL_FRAME"
    and inv_core: "inv q h u \<Longrightarrow> core q h u"
    and settled: "core q h u \<Longrightarrow> first_wrong q = NULL_FRAME \<Longrightarrow> f < length u \<Longrightarrow>
        u ! f = value_of h f"
begin

lemma take_all:
  assumes core: "players_all core qs hs tml"
    and right: "\<forall>q \<in> set qs. first_wrong q = NULL_FRAME"
    and age: "\<forall>h \<in> set hs. length h \<le> length tml + cap"
  defines "k \<equiv> length tml"
  defines "qs' \<equiv> map (\<lambda>q. snd (take_input (int k) q)) qs"
  shows "map (\<lambda>q. fst (take_input (int k) q)) qs = map (\<lambda>h. (value_of h k, status_of h k)) hs"
    and "players_all inv qs' hs (tml @ [map (\<lambda>h. value_of h k) hs])"
    and "\<forall>q \<in> set qs'. first_wrong q = NULL_FRAME"
proof -
  have len: "length hs = length qs" using core by (rule players_allD)
  have each: "core (qs ! p) (hs ! p) (column p tml)" "first_wrong (qs ! p) = NULL_FRAME"
    "length (hs ! p) \<le> length (column p tml) + cap" if "p < length qs" for p
    using that core right age len by (auto simp: players_all_def)
  show "map (\<lambda>q. fst (take_input (int k) q)) qs = map (\<lambda>h. (value_of h k, status_of h k)) hs"
    using take_value [OF each] len by (auto simp: k_def intro!: nth_equalityI)
  show "players_all inv qs' hs (tml @ [map (\<lambda>h. value_of h k) hs])"
    using take_inv [OF each] len by (auto simp: players_all_def qs'_def k_def)
  show "\<forall>q \<in> set qs'. first_wrong q = NULL_FRAME"
    using take_right [OF each] by (auto simp: qs'_def k_def in_set_conv_nth)
qed

lemma reset_all:
  assumes "players_all core qs hs tml" "n \<le> length tml"
    and "\<forall>q \<in> set qs. first_wrong q = NULL_FRAME \<or> int n \<le> first_wrong q"
  shows "players_all core (map reset qs) hs (take n tml)"
    and "\<forall>q \<in> set (map reset qs). first_wrong q = NULL_FRAME"
proof -
  show "players_all core (map reset qs) hs (take n tml)"
    using assms by (auto simp: players_all_def column_take intro!: reset_core)
qed (simp add: reset_right)

text \<open>With no guess known to be wrong, the timeline is a function of the filed inputs.\<close>

lemma settled_all:
  assumes core: "players_all core qs hs tml"
    and right: "\<forall>q \<in> set qs. first_wrong q = NULL_FRAME"
    and rows: "\<forall>r \<in> set tml. length r = length qs"
  shows "tml = map (\<lambda>k. map (\<lambda>h. value_of h k) hs) [0..<length tml]"
proof (rule nth_equalityI)
  fix k assume k: "k < length tml"
  have len: "length hs = length qs" using core by (rule players_allD)
  have "tml ! k = map (\<lambda>h. value_of h k) hs"
  proof (rule nth_equalityI)
    show "length (tml ! k) = length (map (\<lambda>h. value_of h k) hs)" using rows k len by simp
    fix p assume "p < length (tml ! k)"
    then have p: "p < length qs" using rows k by simp
    have "column p tml ! k = value_of (hs ! p) k"
      using settled [OF players_allD(2) [OF core p]] right p k by simp
    then show "tml ! k ! p = map (\<lambda>h. value_of h k) hs ! p" using k p len by simp
  qed
  then show "tml ! k = map (\<lambda>k. map (\<lambda>h. value_of h k) hs) [0..<length tml] ! k" using k by simp
qed simp

end

end
