(* ===== verification/InputQueue.thy ===== *)
theory InputQueue
  imports PredictedInputs
begin

text \<open>
  One player's inputs, indexed by frame, with prediction:
  \<open>fofoca-netplay/src/input_queue.rs\<close>.

  The queue is a ring of \<open>QUEUE_LEN\<close> slots. It is abstracted to the list \<open>h\<close> of all the
  inputs ever filed (frame \<open>f\<close> has input \<open>h ! f\<close>), of which the ring holds the newest
  \<open>QUEUE_LEN\<close>. Against a ghost list \<open>u\<close> of the inputs handed to the simulation for the
  frames of the current timeline, \<open>iq_inv\<close> states what the prediction fields promise.
\<close>

subsection \<open>State\<close>

definition QUEUE_LEN :: nat where "QUEUE_LEN = 128"

lemma QUEUE_LEN_pos [simp]: "0 < QUEUE_LEN"
  by (simp add: QUEUE_LEN_def)

record 'i slot =
  slot_frame :: frame
  slot_input :: 'i

definition default_slot :: "'i \<Rightarrow> 'i slot" where
  "default_slot d = \<lparr>slot_frame = NULL_FRAME, slot_input = d\<rparr>"

record 'i input_queue =
  iq_inputs :: "'i slot list"
  iq_head :: nat
  iq_tail :: nat
  iq_length :: nat
  iq_first_frame :: bool
  iq_last_added :: frame
  iq_last_user_added :: frame
  iq_first_incorrect :: frame
  iq_last_requested :: frame
  iq_frame_delay :: nat
  iq_prediction :: "'i slot"

text \<open>The default input \<open>d\<close> is \<open>T::Input::default()\<close>, the game's own.\<close>

definition iq_new :: "'i \<Rightarrow> 'i input_queue" where
  "iq_new d =
     \<lparr>iq_inputs = replicate QUEUE_LEN (default_slot d),
      iq_head = 0, iq_tail = 0, iq_length = 0, iq_first_frame = True,
      iq_last_added = NULL_FRAME, iq_last_user_added = NULL_FRAME,
      iq_first_incorrect = NULL_FRAME, iq_last_requested = NULL_FRAME,
      iq_frame_delay = 0, iq_prediction = default_slot d\<rparr>"

definition iq_set_frame_delay :: "nat \<Rightarrow> 'i input_queue \<Rightarrow> 'i input_queue" where
  "iq_set_frame_delay delay q = q\<lparr>iq_frame_delay := delay\<rparr>"

subsection \<open>Operations\<close>

definition iq_tail_frame :: "'i input_queue \<Rightarrow> frame" where
  "iq_tail_frame q =
     (if iq_length q = 0 then NULL_FRAME else slot_frame (iq_inputs q ! iq_tail q))"

definition iq_reset_prediction :: "'i input_queue \<Rightarrow> 'i input_queue" where
  "iq_reset_prediction q =
     q\<lparr>iq_prediction := (iq_prediction q)\<lparr>slot_frame := NULL_FRAME\<rparr>,
       iq_first_incorrect := NULL_FRAME,
       iq_last_requested := NULL_FRAME\<rparr>"

definition iq_prev_head :: "'i input_queue \<Rightarrow> nat" where
  "iq_prev_head q = (iq_head q + QUEUE_LEN - 1) mod QUEUE_LEN"

definition iq_confirmed :: "'i input_queue \<Rightarrow> frame \<Rightarrow> 'i option" where
  "iq_confirmed q frame =
     (if iq_length q = 0 then None
      else if frame < iq_tail_frame q \<or> frame > iq_last_added q then None
      else if frame - iq_tail_frame q < 0 then None
      else let offset = nat (frame - iq_tail_frame q) in
        if offset \<ge> iq_length q then None
        else Some (slot_input (iq_inputs q ! ((iq_tail q + offset) mod QUEUE_LEN))))"

text \<open>The input for \<open>frame\<close>: the real one if it is held, otherwise a guess.\<close>

definition iq_input :: "'i \<Rightarrow> frame \<Rightarrow> 'i input_queue \<Rightarrow> ('i \<times> input_status) \<times> 'i input_queue" where
  "iq_input d frame q0 =
     (let q = q0\<lparr>iq_last_requested := frame\<rparr> in
      if slot_frame (iq_prediction q) = NULL_FRAME then
        (case iq_confirmed q frame of
           Some i \<Rightarrow> ((i, Confirmed), q)
         | None \<Rightarrow>
             let fills_at = (if iq_last_added q = NULL_FRAME then 0 else iq_last_added q + 1);
                 guess = (if iq_last_added q = NULL_FRAME then d
                          else slot_input (iq_inputs q ! iq_prev_head q));
                 q' = q\<lparr>iq_prediction := \<lparr>slot_frame = fills_at, slot_input = guess\<rparr>\<rparr>
             in ((slot_input (iq_prediction q'), Predicted), q'))
      else ((slot_input (iq_prediction q), Predicted), q))"

definition iq_push :: "'i slot \<Rightarrow> 'i input_queue \<Rightarrow> 'i input_queue" where
  "iq_push s q =
     q\<lparr>iq_inputs := (iq_inputs q)[iq_head q := s],
       iq_head := (iq_head q + 1) mod QUEUE_LEN,
       iq_tail := (if iq_length q = QUEUE_LEN then (iq_tail q + 1) mod QUEUE_LEN
                   else iq_tail q),
       iq_length := (if iq_length q = QUEUE_LEN then iq_length q else iq_length q + 1),
       iq_first_frame := False\<rparr>"

definition iq_add_delayed :: "frame \<Rightarrow> 'i \<Rightarrow> 'i input_queue \<Rightarrow> 'i input_queue" where
  "iq_add_delayed frame i q0 =
     (let q = (iq_push \<lparr>slot_frame = frame, slot_input = i\<rparr> q0)\<lparr>iq_last_added := frame\<rparr> in
      if slot_frame (iq_prediction q) = NULL_FRAME then q
      else
        let q' = (if iq_first_incorrect q = NULL_FRAME \<and> slot_input (iq_prediction q) \<noteq> i
                  then q\<lparr>iq_first_incorrect := frame\<rparr> else q)
        in if slot_frame (iq_prediction q') = iq_last_requested q'
              \<and> iq_first_incorrect q' = NULL_FRAME
           then q'\<lparr>iq_prediction := (iq_prediction q')\<lparr>slot_frame := NULL_FRAME\<rparr>\<rparr>
           else q'\<lparr>iq_prediction :=
                     (iq_prediction q')\<lparr>slot_frame := slot_frame (iq_prediction q') + 1\<rparr>\<rparr>)"

text \<open>The gap-filling loop of \<open>advance_queue_head\<close>.\<close>

function iq_fill :: "frame \<Rightarrow> frame \<Rightarrow> 'i input_queue \<Rightarrow> 'i input_queue" where
  "iq_fill expected delayed q =
     (if expected < delayed
      then iq_fill (expected + 1) delayed
             (iq_add_delayed expected (slot_input (iq_inputs q ! iq_prev_head q)) q)
      else q)"
  by pat_completeness auto
termination
  by (relation "measure (\<lambda>(expected, delayed, q). nat (delayed - expected))") auto

declare iq_fill.simps [simp del]

text \<open>\<open>i32::try_from(frame_delay).unwrap_or(0)\<close>\<close>

definition delay_i32 :: "nat \<Rightarrow> int" where
  "delay_i32 n = (if int n \<le> i32_max then int n else 0)"

definition iq_advance_head :: "frame \<Rightarrow> 'i input_queue \<Rightarrow> frame \<times> 'i input_queue" where
  "iq_advance_head frame q =
     (let expected = (if iq_first_frame q then 0
                      else slot_frame (iq_inputs q ! iq_prev_head q) + 1);
          delayed = frame + delay_i32 (iq_frame_delay q)
      in if expected > delayed then (NULL_FRAME, q)
         else (delayed, iq_fill expected delayed q))"

definition iq_add_input :: "frame \<Rightarrow> 'i \<Rightarrow> 'i input_queue \<Rightarrow> frame \<times> 'i input_queue" where
  "iq_add_input frame i q0 =
     (let q = q0\<lparr>iq_last_user_added := frame\<rparr>;
          (target, q') = iq_advance_head frame q
      in if target = NULL_FRAME then (NULL_FRAME, q')
         else (target, iq_add_delayed target i q'))"

subsection \<open>The ring represents the list of filed inputs\<close>

definition last_or :: "'i \<Rightarrow> 'i list \<Rightarrow> 'i" where
  "last_or d h = (if h = [] then d else last h)"

definition iq_repr :: "'i \<Rightarrow> 'i input_queue \<Rightarrow> 'i list \<Rightarrow> bool" where
  "iq_repr d q h \<longleftrightarrow>
     length (iq_inputs q) = QUEUE_LEN \<and>
     iq_head q = length h mod QUEUE_LEN \<and>
     iq_length q = min QUEUE_LEN (length h) \<and>
     iq_tail q = (length h - iq_length q) mod QUEUE_LEN \<and>
     iq_first_frame q = (h = []) \<and>
     iq_last_added q = int (length h) - 1 \<and>
     (\<forall>f < length h. length h \<le> f + QUEUE_LEN \<longrightarrow>
        iq_inputs q ! (f mod QUEUE_LEN) = \<lparr>slot_frame = int f, slot_input = h ! f\<rparr>) \<and>
     (h = [] \<longrightarrow> (\<forall>k < QUEUE_LEN. iq_inputs q ! k = default_slot d))"

lemma iq_repr_new: "iq_repr d (iq_new d) []"
  by (simp add: iq_repr_def iq_new_def NULL_FRAME_def)

lemma iq_repr_set_frame_delay [simp]: "iq_repr d (iq_set_frame_delay n q) h = iq_repr d q h"
  by (simp add: iq_repr_def iq_set_frame_delay_def)

lemma iq_repr_upd [simp]:
  "iq_repr d (q\<lparr>iq_prediction := p\<rparr>) h = iq_repr d q h"
  "iq_repr d (q\<lparr>iq_first_incorrect := f\<rparr>) h = iq_repr d q h"
  "iq_repr d (q\<lparr>iq_last_requested := f\<rparr>) h = iq_repr d q h"
  "iq_repr d (q\<lparr>iq_last_user_added := f\<rparr>) h = iq_repr d q h"
  by (simp_all add: iq_repr_def)

lemma iq_repr_last_added: "iq_repr d q h \<Longrightarrow> iq_last_added q = int (length h) - 1"
  by (simp add: iq_repr_def)

lemma iq_repr_last_added_null:
  "iq_repr d q h \<Longrightarrow> iq_last_added q = NULL_FRAME \<longleftrightarrow> h = []"
  by (simp add: iq_repr_def NULL_FRAME_def)

lemma iq_repr_prev_head:
  assumes "iq_repr d q h"
  shows "iq_inputs q ! iq_prev_head q =
    (if h = [] then default_slot d
     else \<lparr>slot_frame = int (length h) - 1, slot_input = last h\<rparr>)"
proof (cases "h = []")
  case True
  have "(0 + QUEUE_LEN - 1) mod QUEUE_LEN < QUEUE_LEN" by simp
  with True assms show ?thesis by (simp add: iq_repr_def iq_prev_head_def)
next
  case False
  then have "0 < length h" by simp
  with assms have "iq_prev_head q = (length h - 1) mod QUEUE_LEN"
    by (simp add: iq_prev_head_def iq_repr_def ring_prev [of QUEUE_LEN "length h", simplified])
  moreover have "iq_inputs q ! ((length h - 1) mod QUEUE_LEN) =
      \<lparr>slot_frame = int (length h - 1), slot_input = h ! (length h - 1)\<rparr>"
    using assms False QUEUE_LEN_pos unfolding iq_repr_def
    by (metis (no_types, lifting) \<open>0 < length h\<close> diff_less le_add_diff_inverse2 Suc_leI
        One_nat_def add_left_mono zero_less_one)
  ultimately show ?thesis
    using False \<open>0 < length h\<close> by (simp add: last_conv_nth of_nat_diff)
qed

lemma iq_repr_prev_input:
  "iq_repr d q h \<Longrightarrow> slot_input (iq_inputs q ! iq_prev_head q) = last_or d h"
  by (simp add: iq_repr_prev_head last_or_def default_slot_def)

lemma iq_push_frame [simp]:
  "iq_prediction (iq_push s q) = iq_prediction q"
  "iq_first_incorrect (iq_push s q) = iq_first_incorrect q"
  "iq_last_requested (iq_push s q) = iq_last_requested q"
  "iq_frame_delay (iq_push s q) = iq_frame_delay q"
  "iq_last_user_added (iq_push s q) = iq_last_user_added q"
  by (simp_all add: iq_push_def)

lemma iq_repr_push:
  assumes "iq_repr d q h"
  shows "iq_repr d ((iq_push \<lparr>slot_frame = int (length h), slot_input = i\<rparr> q)
                      \<lparr>iq_last_added := int (length h)\<rparr>) (h @ [i])"
proof -
  let ?n = "length h" and ?L = QUEUE_LEN
  let ?s = "\<lparr>slot_frame = int ?n, slot_input = i\<rparr>"
  have len: "length (iq_inputs q) = ?L" and hd: "iq_head q = ?n mod ?L"
    and ln: "iq_length q = min ?L ?n" and tl: "iq_tail q = (?n - min ?L ?n) mod ?L"
    and slots: "\<And>f. f < ?n \<Longrightarrow> ?n \<le> f + ?L \<Longrightarrow>
      iq_inputs q ! (f mod ?L) = \<lparr>slot_frame = int f, slot_input = h ! f\<rparr>"
    using assms by (auto simp: iq_repr_def)
  have tail: "(if iq_length q = ?L then (iq_tail q + 1) mod ?L else iq_tail q) =
      (Suc ?n - min ?L (Suc ?n)) mod ?L"
    using QUEUE_LEN_pos
    by (auto simp: ln tl min_def mod_Suc_eq Suc_diff_le le_Suc_eq)
  have new: "(iq_inputs q)[?n mod ?L := ?s] ! (f mod ?L) =
      \<lparr>slot_frame = int f, slot_input = (h @ [i]) ! f\<rparr>"
    if "f < Suc ?n" "Suc ?n \<le> f + ?L" for f
  proof (cases "f = ?n")
    case True
    then show ?thesis by (simp add: len)
  next
    case False
    then have "f < ?n" using that by simp
    moreover have "f mod ?L \<noteq> ?n mod ?L"
      using mod_window_inj [of f ?L ?n] that \<open>f < ?n\<close> by auto
    ultimately show ?thesis using that slots [of f] by (simp add: nth_append)
  qed
  have upd: "?n < length (h @ [i])" by simp
  show ?thesis
    unfolding iq_repr_def
    using new tail by (auto simp: iq_push_def len hd mod_Suc_eq ln)
qed


lemma iq_repr_tail_frame:
  assumes "iq_repr d q h" "h \<noteq> []"
  shows "iq_tail_frame q = int (length h - min QUEUE_LEN (length h))"
proof -
  let ?t = "length h - min QUEUE_LEN (length h)"
  have "0 < length h" using assms(2) by simp
  then have "?t < length h" "length h \<le> ?t + QUEUE_LEN" using QUEUE_LEN_pos by auto
  with assms(1) have "iq_inputs q ! (?t mod QUEUE_LEN) = \<lparr>slot_frame = int ?t, slot_input = h ! ?t\<rparr>"
    by (simp add: iq_repr_def)
  with assms \<open>0 < length h\<close> QUEUE_LEN_pos show ?thesis
    by (auto simp: iq_tail_frame_def iq_repr_def)
qed

lemma iq_repr_confirmed:
  assumes "iq_repr d q h" "0 \<le> f"
  shows "iq_confirmed q f =
    (if nat f < length h \<and> length h \<le> nat f + QUEUE_LEN then Some (h ! nat f) else None)"
proof (cases "h = []")
  case True
  with assms show ?thesis by (simp add: iq_confirmed_def iq_repr_def)
next
  case False
  define t where "t = length h - min QUEUE_LEN (length h)"
  have tf: "iq_tail_frame q = int t" unfolding t_def by (rule iq_repr_tail_frame [OF assms(1) False])
  have la: "iq_last_added q = int (length h) - 1" and ln: "iq_length q = min QUEUE_LEN (length h)"
    and tl: "iq_tail q = t mod QUEUE_LEN"
    using assms(1) by (auto simp: iq_repr_def t_def)
  have ln0: "iq_length q \<noteq> 0" using False ln QUEUE_LEN_pos by (simp add: min_def)
  show ?thesis
  proof (cases "nat f < length h \<and> length h \<le> nat f + QUEUE_LEN")
    case True
    then have off: "nat (f - int t) = nat f - t" "t \<le> nat f" using assms(2) by (auto simp: t_def)
    have "iq_inputs q ! (nat f mod QUEUE_LEN) = \<lparr>slot_frame = int (nat f), slot_input = h ! nat f\<rparr>"
      using assms(1) True by (simp add: iq_repr_def)
    moreover have "(iq_tail q + (nat f - t)) mod QUEUE_LEN = nat f mod QUEUE_LEN"
      using off(2) by (simp only: tl ring_offset le_add_diff_inverse)
    moreover have "\<not> (f < int t \<or> f > int (length h) - 1)" "\<not> nat f - t \<ge> iq_length q"
      using True assms(2) off(2) ln by (auto simp: t_def)
    ultimately show ?thesis
      using True ln0 assms(2) by (simp add: iq_confirmed_def tf la off Let_def)
  next
    case False
    then have "f < int t \<or> f > int (length h) - 1" using assms(2) by (auto simp: t_def min_def)
    then show ?thesis using False ln0 by (auto simp: iq_confirmed_def tf la)
  qed
qed

subsection \<open>What the prediction fields promise\<close>

text \<open>
  \<open>u\<close> lists the inputs handed out for frames \<open>0 .. length u - 1\<close> of the current timeline.
  \<open>iq_core\<close>: up to the first incorrect frame every known frame was simulated with its real
  input; frames not known yet were simulated by repeating the last known input; a prediction
  in flight stands on the next frame to fill. \<open>iq_inv\<close> adds that a queue that is not
  predicting has been asked for known frames only, which is what makes it safe to skip the
  comparison in \<open>add_delayed_input\<close>.
\<close>

definition iq_core :: "'i \<Rightarrow> 'i input_queue \<Rightarrow> 'i list \<Rightarrow> 'i list \<Rightarrow> bool" where
  "iq_core d q h u \<longleftrightarrow>
     iq_repr d q h \<and>
     (iq_first_incorrect q \<noteq> NULL_FRAME \<longrightarrow>
        0 \<le> iq_first_incorrect q \<and> nat (iq_first_incorrect q) < length h \<and>
        nat (iq_first_incorrect q) < length u \<and>
        slot_frame (iq_prediction q) \<noteq> NULL_FRAME) \<and>
     (\<forall>f < length u. f < length h \<longrightarrow>
        (iq_first_incorrect q = NULL_FRAME \<or> int f < iq_first_incorrect q) \<longrightarrow> u ! f = h ! f) \<and>
     (iq_first_incorrect q = NULL_FRAME \<longrightarrow>
        (\<forall>f < length u. length h \<le> f \<longrightarrow> u ! f = last_or d h)) \<and>
     (slot_frame (iq_prediction q) \<noteq> NULL_FRAME \<longrightarrow>
        slot_frame (iq_prediction q) = int (length h) \<and>
        iq_last_requested q = int (length u) - 1 \<and>
        (iq_first_incorrect q = NULL_FRAME \<longrightarrow>
           slot_input (iq_prediction q) = last_or d h \<and> length h < length u))"

definition iq_inv :: "'i \<Rightarrow> 'i input_queue \<Rightarrow> 'i list \<Rightarrow> 'i list \<Rightarrow> bool" where
  "iq_inv d q h u \<longleftrightarrow> iq_core d q h u \<and>
     (slot_frame (iq_prediction q) = NULL_FRAME \<longrightarrow> length u \<le> length h)"

lemma iq_inv_core: "iq_inv d q h u \<Longrightarrow> iq_core d q h u"
  by (simp add: iq_inv_def)

lemma iq_core_repr: "iq_core d q h u \<Longrightarrow> iq_repr d q h"
  by (simp add: iq_core_def)

lemma iq_inv_new: "iq_inv d (iq_new d) [] []"
  by (simp add: iq_inv_def iq_core_def iq_repr_new) (simp add: iq_new_def default_slot_def)

lemma iq_inv_set_frame_delay: "iq_inv d (iq_set_frame_delay n q) h u = iq_inv d q h u"
  by (simp add: iq_inv_def iq_core_def) (simp add: iq_set_frame_delay_def)

text \<open>Rolling back to frame \<open>n\<close> forgets the guess; what is before \<open>n\<close> stays settled.\<close>

lemma iq_core_reset:
  assumes "iq_core d q h u" "n \<le> length u"
    and "iq_first_incorrect q = NULL_FRAME \<or> int n \<le> iq_first_incorrect q"
  shows "iq_core d (iq_reset_prediction q) h (take n u)"
    and "iq_first_incorrect (iq_reset_prediction q) = NULL_FRAME"
    and "slot_frame (iq_prediction (iq_reset_prediction q)) = NULL_FRAME"
proof -
  have "u ! f = h ! f" if "f < n" "f < length u" "f < length h" for f
    using assms that by (auto simp: iq_core_def)
  moreover have "u ! f = last_or d h" if "f < n" "f < length u" "length h \<le> f" for f
    using assms that by (auto simp: iq_core_def)
  ultimately show "iq_core d (iq_reset_prediction q) h (take n u)"
    using assms(1,2) by (auto simp: iq_core_def iq_reset_prediction_def)
qed (simp_all add: iq_reset_prediction_def)

text \<open>The value and the status the queue hands out for the next frame.\<close>

definition iq_spec_input :: "'i \<Rightarrow> 'i list \<Rightarrow> nat \<Rightarrow> 'i" where
  "iq_spec_input d h f = (if f < length h then h ! f else last_or d h)"

definition iq_spec_status :: "'i list \<Rightarrow> nat \<Rightarrow> input_status" where
  "iq_spec_status h f = (if f < length h then Confirmed else Predicted)"

lemma iq_input_spec:
  assumes core: "iq_core d q h u" and ok: "iq_first_incorrect q = NULL_FRAME"
    and age: "length h \<le> length u + QUEUE_LEN"
  shows "fst (iq_input d (int (length u)) q) =
           (iq_spec_input d h (length u), iq_spec_status h (length u))" (is "?A")
    and "iq_inv d (snd (iq_input d (int (length u)) q)) h
           (u @ [iq_spec_input d h (length u)])" (is "?B")
    and "iq_first_incorrect (snd (iq_input d (int (length u)) q)) = NULL_FRAME" (is "?C")
proof -
  let ?f = "int (length u)"
  let ?q = "q\<lparr>iq_last_requested := ?f\<rparr>"
  note repr = iq_core_repr [OF core]
  have conf: "iq_confirmed ?q ?f = (if length u < length h then Some (h ! length u) else None)"
    using iq_repr_confirmed [of d ?q h ?f] repr age by simp
  have prev: "slot_input (iq_inputs q ! iq_prev_head ?q) = last_or d h"
    using iq_repr_prev_input [of d ?q h] repr by simp
  have la: "iq_last_added q = int (length h) - 1" by (rule iq_repr_last_added [OF repr])
  have lan: "iq_last_added q = NULL_FRAME \<longleftrightarrow> h = []" by (rule iq_repr_last_added_null [OF repr])
  have known: "\<And>f. f < length u \<Longrightarrow> f < length h \<Longrightarrow> u ! f = h ! f"
    and guess: "\<And>f. f < length u \<Longrightarrow> length h \<le> f \<Longrightarrow> u ! f = last_or d h"
    and pred: "slot_frame (iq_prediction q) \<noteq> NULL_FRAME \<Longrightarrow>
      slot_frame (iq_prediction q) = int (length h) \<and>
      slot_input (iq_prediction q) = last_or d h \<and> length h < length u"
    using core ok by (auto simp: iq_core_def)
  have "?A \<and> ?B \<and> ?C"
  proof (cases "slot_frame (iq_prediction q) = NULL_FRAME")
    case False
    with pred have "length h < length u" by simp
    with False show ?thesis using repr ok known guess pred
      by (auto simp: iq_input_def iq_spec_input_def iq_spec_status_def iq_inv_def iq_core_def
          nth_append)
  next
    case True
    show ?thesis
    proof (cases "length u < length h")
      case known_u: True
      with True conf show ?thesis using repr ok known
        by (auto simp: iq_input_def iq_spec_input_def iq_spec_status_def iq_inv_def iq_core_def
            nth_append less_Suc_eq)
    next
      case False
      have fills: "(if iq_last_added q = NULL_FRAME then 0 else iq_last_added q + 1) = int (length h)"
        using la lan by auto
      have g: "(if iq_last_added q = NULL_FRAME then d
                else slot_input (iq_inputs q ! iq_prev_head ?q)) = last_or d h"
        using lan prev by (simp add: last_or_def)
      have inp: "iq_input d ?f q = ((last_or d h, Predicted),
          ?q\<lparr>iq_prediction := \<lparr>slot_frame = int (length h), slot_input = last_or d h\<rparr>\<rparr>)"
        using True False conf g fills
        by (cases "iq_last_added q = NULL_FRAME") (simp_all add: iq_input_def Let_def)
      show ?thesis using False repr ok known guess
        by (auto simp: inp iq_spec_input_def iq_spec_status_def iq_inv_def iq_core_def nth_append)
    qed
  qed
  then show ?A ?B ?C by blast+
qed

text \<open>Filing the next real input: any guess it contradicts is remembered.\<close>

lemma iq_add_delayed_inv:
  assumes "iq_inv d q h u"
  shows "iq_inv d (iq_add_delayed (int (length h)) i q) (h @ [i]) u"
proof -
  let ?n = "int (length h)"
  let ?q = "(iq_push \<lparr>slot_frame = ?n, slot_input = i\<rparr> q)\<lparr>iq_last_added := ?n\<rparr>"
  have repr: "iq_repr d ?q (h @ [i])"
    using assms by (intro iq_repr_push) (simp add: iq_inv_def iq_core_def)
  have lst: "last_or d (h @ [i]) = i" by (simp add: last_or_def)
  have core: "iq_core d q h u" and
    idle: "slot_frame (iq_prediction q) = NULL_FRAME \<Longrightarrow> length u \<le> length h"
    using assms by (auto simp: iq_inv_def)
  show ?thesis
  proof (cases "slot_frame (iq_prediction q) = NULL_FRAME")
    case True
    with idle core repr show ?thesis
      by (auto simp: iq_add_delayed_def Let_def iq_inv_def iq_core_def nth_append)
  next
    case False
    then have pf: "slot_frame (iq_prediction q) = ?n" "iq_last_requested q = int (length u) - 1"
      using core by (auto simp: iq_core_def)
    show ?thesis
    proof (cases "iq_first_incorrect q = NULL_FRAME")
      case fi: True
      with core False have pi: "slot_input (iq_prediction q) = last_or d h" "length h < length u"
        and known: "\<And>f. f < length u \<Longrightarrow> f < length h \<Longrightarrow> u ! f = h ! f"
        and guess: "\<And>f. f < length u \<Longrightarrow> length h \<le> f \<Longrightarrow> u ! f = last_or d h"
        by (auto simp: iq_core_def)
      show ?thesis
      proof (cases "slot_input (iq_prediction q) = i")
        case True
        then have "last_or d h = i" using pi by simp
        then show ?thesis using False fi pf pi known guess True repr lst
          by (auto simp: iq_add_delayed_def Let_def iq_inv_def iq_core_def nth_append
              less_Suc_eq)
      next
        case wrong: False
        show ?thesis using False fi pf pi known guess wrong repr lst
          by (auto simp: iq_add_delayed_def Let_def iq_inv_def iq_core_def nth_append)
      qed
    next
      case fi: False
      with core show ?thesis using False pf repr
        by (auto simp: iq_add_delayed_def Let_def iq_inv_def iq_core_def nth_append)
    qed
  qed
qed

subsection \<open>Adding an input: delay, gap filling, drop\<close>

text \<open>The list of filed inputs after \<open>add_input\<close> with target frame \<open>t\<close>.\<close>

definition iq_spec_add :: "'i \<Rightarrow> 'i list \<Rightarrow> frame \<Rightarrow> 'i \<Rightarrow> 'i list" where
  "iq_spec_add d h t i =
     (if t < int (length h) then h
      else h @ replicate (nat t - length h) (last_or d h) @ [i])"

lemma last_or_append_replicate [simp]: "last_or d (h @ replicate n (last_or d h)) = last_or d h"
  by (cases n) (auto simp: last_or_def)

lemma iq_fill_step:
  assumes "iq_inv d q h u"
  shows "iq_fill (int (length h)) (int (length h + n)) q =
     (if n = 0 then q
      else iq_fill (int (length (h @ [last_or d h]))) (int (length h + n))
             (iq_add_delayed (int (length h)) (last_or d h) q))"
  using iq_repr_prev_input [OF iq_core_repr [OF iq_inv_core [OF assms]]]
  by (simp add: iq_fill.simps [of "int (length h)"] add.commute)

lemma iq_fill_inv:
  "iq_inv d q h u \<Longrightarrow>
   iq_inv d (iq_fill (int (length h)) (int (length h + n)) q)
     (h @ replicate n (last_or d h)) u"
proof (induction n arbitrary: q h)
  case 0
  then show ?case using iq_fill_step [of d q h u 0] by simp
next
  case (Suc n)
  let ?h = "h @ [last_or d h]"
  have "iq_inv d (iq_add_delayed (int (length h)) (last_or d h) q) ?h u"
    using Suc.prems by (rule iq_add_delayed_inv)
  then have "iq_inv d (iq_fill (int (length ?h)) (int (length ?h + n))
      (iq_add_delayed (int (length h)) (last_or d h) q)) (?h @ replicate n (last_or d ?h)) u"
    by (rule Suc.IH)
  moreover have "last_or d ?h = last_or d h" by (simp add: last_or_def)
  moreover have "int (length ?h + n) = int (length h + Suc n)" by simp
  ultimately show ?case
    using iq_fill_step [OF Suc.prems, of "Suc n"] by (simp add: replicate_append_same [symmetric])
qed

lemma iq_add_delayed_frame_delay [simp]:
  "iq_frame_delay (iq_add_delayed f i q) = iq_frame_delay q"
  by (simp add: iq_add_delayed_def Let_def)

lemma iq_fill_frame_delay [simp]: "iq_frame_delay (iq_fill e t q) = iq_frame_delay q"
  by (induction e t q rule: iq_fill.induct) (simp add: iq_fill.simps)

lemma delay_i32_nonneg [simp]: "0 \<le> delay_i32 n"
  by (simp add: delay_i32_def)

lemma iq_inv_upd_user [simp]: "iq_inv d (q\<lparr>iq_last_user_added := f\<rparr>) h u = iq_inv d q h u"
  by (simp add: iq_inv_def iq_core_def)

lemma iq_add_input_spec:
  fixes f :: frame
  assumes inv: "iq_inv d q h u"
  defines "t \<equiv> f + delay_i32 (iq_frame_delay q)"
  shows "fst (iq_add_input f i q) = (if t < int (length h) then NULL_FRAME else t)"
    and "iq_inv d (snd (iq_add_input f i q)) (iq_spec_add d h t i) u"
    and "iq_frame_delay (snd (iq_add_input f i q)) = iq_frame_delay q"
proof -
  let ?q = "q\<lparr>iq_last_user_added := f\<rparr>"
  have inv': "iq_inv d ?q h u" using inv by simp
  have repr: "iq_repr d ?q h" by (rule iq_core_repr [OF iq_inv_core [OF inv']])
  have expected: "(if iq_first_frame ?q then 0
      else slot_frame (iq_inputs ?q ! iq_prev_head ?q) + 1) = int (length h)"
    using repr iq_repr_prev_head [OF repr] by (auto simp: iq_repr_def)
  have head: "iq_advance_head f ?q =
      (if t < int (length h) then (NULL_FRAME, ?q) else (t, iq_fill (int (length h)) t ?q))"
    unfolding iq_advance_head_def expected Let_def by (auto simp: t_def)
  have "fst (iq_add_input f i q) = (if t < int (length h) then NULL_FRAME else t) \<and>
    iq_inv d (snd (iq_add_input f i q)) (iq_spec_add d h t i) u \<and>
    iq_frame_delay (snd (iq_add_input f i q)) = iq_frame_delay q"
  proof (cases "t < int (length h)")
    case True
    then show ?thesis using inv' by (simp add: iq_add_input_def head iq_spec_add_def)
  next
    case False
    define n where "n = nat t - length h"
    have t: "t = int (length h + n)" "t \<noteq> NULL_FRAME" using False by (auto simp: n_def NULL_FRAME_def)
    let ?h = "h @ replicate n (last_or d h)"
    have "iq_inv d (iq_fill (int (length h)) t ?q) ?h u"
      using iq_fill_inv [OF inv', of n] by (simp add: t)
    then have "iq_inv d (iq_add_delayed (int (length ?h)) i (iq_fill (int (length h)) t ?q))
        (?h @ [i]) u"
      by (rule iq_add_delayed_inv)
    then show ?thesis using False t
      by (simp add: iq_add_input_def head iq_spec_add_def n_def [symmetric] del: of_nat_add)
  qed
  then show "fst (iq_add_input f i q) = (if t < int (length h) then NULL_FRAME else t)"
    "iq_inv d (snd (iq_add_input f i q)) (iq_spec_add d h t i) u"
    "iq_frame_delay (snd (iq_add_input f i q)) = iq_frame_delay q" by blast+
qed

subsection \<open>The queue provides the contract of the rollback engine\<close>

lemma iq_core_settled:
  "iq_core d q h u \<Longrightarrow> iq_first_incorrect q = NULL_FRAME \<Longrightarrow> f < length u \<Longrightarrow>
   u ! f = iq_spec_input d h f"
  by (auto simp: iq_core_def iq_spec_input_def)

interpretation iq: predicted_inputs "iq_input d" iq_reset_prediction iq_first_incorrect
  "iq_core d" "iq_inv d" "iq_spec_input d" iq_spec_status QUEUE_LEN for d
  by unfold_locales
    (auto intro: iq_input_spec iq_core_reset iq_inv_core iq_core_settled
      simp: iq_reset_prediction_def [THEN arg_cong [of _ _ iq_first_incorrect]])

text \<open>Where a new misprediction can be: on a frame that had no real input before.\<close>

lemma iq_add_delayed_first_incorrect:
  "iq_first_incorrect (iq_add_delayed f i q) \<in> {iq_first_incorrect q, f}"
  by (simp add: iq_add_delayed_def Let_def)

lemma iq_fill_first_incorrect:
  "iq_first_incorrect (iq_fill e t q) = iq_first_incorrect q \<or>
   e \<le> iq_first_incorrect (iq_fill e t q)"
proof (induction e t q rule: iq_fill.induct)
  case (1 e t q)
  show ?case
  proof (cases "e < t")
    case True
    let ?q = "iq_add_delayed e (slot_input (iq_inputs q ! iq_prev_head q)) q"
    have "iq_first_incorrect (iq_fill (e + 1) t ?q) = iq_first_incorrect ?q \<or>
        e + 1 \<le> iq_first_incorrect (iq_fill (e + 1) t ?q)"
      using 1 True by blast
    moreover have "iq_first_incorrect ?q \<in> {iq_first_incorrect q, e}"
      by (rule iq_add_delayed_first_incorrect)
    ultimately show ?thesis using True by (auto simp: iq_fill.simps [of e])
  qed (simp add: iq_fill.simps)
qed

lemma iq_add_input_first_incorrect:
  assumes "iq_inv d q h u"
  shows "iq_first_incorrect (snd (iq_add_input f i q)) = iq_first_incorrect q \<or>
    int (length h) \<le> iq_first_incorrect (snd (iq_add_input f i q))"
proof -
  let ?q = "q\<lparr>iq_last_user_added := f\<rparr>" and ?t = "f + delay_i32 (iq_frame_delay q)"
  have repr: "iq_repr d ?q h" using iq_core_repr [OF iq_inv_core [OF assms]] by simp
  have expected: "(if iq_first_frame ?q then 0
      else slot_frame (iq_inputs ?q ! iq_prev_head ?q) + 1) = int (length h)"
    using repr iq_repr_prev_head [OF repr] by (auto simp: iq_repr_def)
  have head: "iq_advance_head f ?q =
      (if ?t < int (length h) then (NULL_FRAME, ?q) else (?t, iq_fill (int (length h)) ?t ?q))"
    unfolding iq_advance_head_def expected Let_def by auto
  show ?thesis
    using iq_fill_first_incorrect [of "int (length h)" ?t ?q]
      iq_add_delayed_first_incorrect [of ?t i "iq_fill (int (length h)) ?t ?q"]
    by (auto simp: iq_add_input_def head)
qed

end
