(* ===== verification/RollbackSync.thy ===== *)
theory RollbackSync
  imports InputQueue
begin

text \<open>
  The rollback engine: the shared state cells and requests (\<open>request.rs\<close>), the window of
  saved states (\<open>saved_states.rs\<close>) and the predict / detect / roll back / re-simulate cycle
  (\<open>sync.rs\<close>), all of \<open>fofoca-netplay/src\<close>.

  A \<open>StateCell\<close> is a handle (\<open>Arc\<close>) to one slot of the window; the game writes through it
  after the engine has handed out the request. The slots are the store \<open>ss_cells\<close> and a
  handle is an index into it. \<open>fulfil\<close> is the game side of the protocol: what
  \<open>StateCell::save\<close> and \<open>StateCell::load\<close> do when a request is fulfilled, over a game given
  by its step function and its checksum.

  Debug assertions are not branches of the model (release builds skip them); the theorems
  prove that they hold.
\<close>

subsection \<open>State cells and requests\<close>

record 's cell_inner =
  ci_frame :: frame
  ci_state :: "'s option"
  ci_checksum :: "nat option"

definition cell_default :: "'s cell_inner" where
  "cell_default = \<lparr>ci_frame = NULL_FRAME, ci_state = None, ci_checksum = None\<rparr>"

definition cell_save :: "frame \<Rightarrow> 's \<Rightarrow> nat option \<Rightarrow> 's cell_inner \<Rightarrow> 's cell_inner" where
  "cell_save f s ck c = c\<lparr>ci_frame := f, ci_state := Some s, ci_checksum := ck\<rparr>"

datatype 'i request =
    SaveState nat frame
  | LoadState nat
  | AdvanceFrame "('i \<times> input_status) list"

text \<open>The game fulfils one request. \<open>None\<close> is the panic of a load from an empty cell.\<close>

fun fulfil :: "('s \<Rightarrow> 'i list \<Rightarrow> 's) \<Rightarrow> ('s \<Rightarrow> nat option) \<Rightarrow> 'i request \<Rightarrow>
    's cell_inner list \<times> 's \<Rightarrow> ('s cell_inner list \<times> 's) option" where
  "fulfil step ck (SaveState c f) (cells, s) =
     Some (cells[c := cell_save f s (ck s) (cells ! c)], s)"
| "fulfil step ck (LoadState c) (cells, s) =
     (case ci_state (cells ! c) of None \<Rightarrow> None | Some s' \<Rightarrow> Some (cells, s'))"
| "fulfil step ck (AdvanceFrame inputs) (cells, s) = Some (cells, step s (map fst inputs))"

fun fulfil_all :: "('s \<Rightarrow> 'i list \<Rightarrow> 's) \<Rightarrow> ('s \<Rightarrow> nat option) \<Rightarrow> 'i request list \<Rightarrow>
    's cell_inner list \<times> 's \<Rightarrow> ('s cell_inner list \<times> 's) option" where
  "fulfil_all step ck [] g = Some g"
| "fulfil_all step ck (r # rs) g =
     (case fulfil step ck r g of None \<Rightarrow> None | Some g' \<Rightarrow> fulfil_all step ck rs g')"

subsection \<open>The window of saved states\<close>

record 's saved_states =
  ss_cells :: "'s cell_inner list"
  ss_head :: nat

definition ss_new :: "nat \<Rightarrow> 's saved_states" where
  "ss_new max_prediction =
     \<lparr>ss_cells = replicate (max_prediction + 2) cell_default, ss_head = 0\<rparr>"

definition ss_by_frame :: "frame \<Rightarrow> 's saved_states \<Rightarrow> nat option" where
  "ss_by_frame frame ss =
     (if frame = NULL_FRAME then None
      else find_idx (\<lambda>c. ci_frame c = frame) (ss_cells ss))"

definition ss_push :: "frame \<Rightarrow> 's saved_states \<Rightarrow> nat \<times> 's saved_states" where
  "ss_push frame ss =
     (case ss_by_frame frame ss of
        Some existing \<Rightarrow> (existing, ss)
      | None \<Rightarrow> (ss_head ss, ss\<lparr>ss_head := (ss_head ss + 1) mod length (ss_cells ss)\<rparr>))"

subsection \<open>The engine\<close>

record ('s, 'i) sync =
  sy_queues :: "'i input_queue list"
  sy_saved :: "'s saved_states"
  sy_max_prediction :: nat
  sy_current :: frame
  sy_confirmed :: frame

definition sync_new :: "'i \<Rightarrow> nat \<Rightarrow> nat \<Rightarrow> nat \<Rightarrow> nat \<Rightarrow> ('s, 'i) sync" where
  "sync_new d num_players max_prediction input_delay local_handle =
     (let qs = replicate num_players (iq_new d) in
      \<lparr>sy_queues = (if local_handle < length qs
                    then qs[local_handle := iq_set_frame_delay input_delay (qs ! local_handle)]
                    else qs),
       sy_saved = ss_new max_prediction,
       sy_max_prediction = max_prediction,
       sy_current = 0,
       sy_confirmed = NULL_FRAME\<rparr>)"

text \<open>\<open>usize::try_from(x).unwrap_or(0)\<close> is \<open>nat x\<close>.\<close>

definition sync_frames_ahead :: "('s, 'i) sync \<Rightarrow> nat" where
  "sync_frames_ahead sy =
     (if sy_confirmed sy = NULL_FRAME then nat (sy_current sy)
      else nat (sy_current sy - sy_confirmed sy))"

definition sync_add_local_input ::
  "nat \<Rightarrow> 'i \<Rightarrow> ('s, 'i) sync \<Rightarrow> rollback_error + frame \<times> ('s, 'i) sync" where
  "sync_add_local_input player i sy =
     (if sync_frames_ahead sy \<ge> sy_max_prediction sy then Inl PredictionLimit
      else if player \<ge> length (sy_queues sy) then Inl (InvalidPlayer player)
      else let (t, q) = iq_add_input (sy_current sy) i (sy_queues sy ! player)
           in Inr (t, sy\<lparr>sy_queues := (sy_queues sy)[player := q]\<rparr>))"

definition sync_add_remote_input ::
  "nat \<Rightarrow> frame \<Rightarrow> 'i \<Rightarrow> ('s, 'i) sync \<Rightarrow> rollback_error + ('s, 'i) sync" where
  "sync_add_remote_input player frame i sy =
     (if player \<ge> length (sy_queues sy) then Inl (InvalidPlayer player)
      else Inr (sy\<lparr>sy_queues :=
             (sy_queues sy)[player := snd (iq_add_input frame i (sy_queues sy ! player))]\<rparr>))"

definition sync_synchronize_inputs ::
  "'i \<Rightarrow> ('s, 'i) sync \<Rightarrow> ('i \<times> input_status) list \<times> ('s, 'i) sync" where
  "sync_synchronize_inputs d sy =
     (let frame = sy_current sy in
      (map (\<lambda>q. fst (iq_input d frame q)) (sy_queues sy),
       sy\<lparr>sy_queues := map (\<lambda>q. snd (iq_input d frame q)) (sy_queues sy)\<rparr>))"

definition sync_save_current :: "('s, 'i) sync \<Rightarrow> 'i request \<times> ('s, 'i) sync" where
  "sync_save_current sy =
     (let (c, ss) = ss_push (sy_current sy) (sy_saved sy)
      in (SaveState c (sy_current sy), sy\<lparr>sy_saved := ss\<rparr>))"

definition sync_advance :: "('s, 'i) sync \<Rightarrow> ('s, 'i) sync" where
  "sync_advance sy = sy\<lparr>sy_current := sy_current sy + 1\<rparr>"

definition sync_confirm_through :: "frame \<Rightarrow> ('s, 'i) sync \<Rightarrow> ('s, 'i) sync" where
  "sync_confirm_through f sy = sy\<lparr>sy_confirmed := max (sy_confirmed sy) f\<rparr>"

text \<open>The earliest frame at which some player's real input contradicted the guess.\<close>

definition sync_first_incorrect :: "('s, 'i) sync \<Rightarrow> frame" where
  "sync_first_incorrect sy =
     (case filter (\<lambda>f. f \<noteq> NULL_FRAME) (map iq_first_incorrect (sy_queues sy)) of
        [] \<Rightarrow> NULL_FRAME
      | f # fs \<Rightarrow> fold min fs f)"

lemma sync_frame_simps [simp]:
  "sy_current (snd (sync_synchronize_inputs d sy)) = sy_current sy"
  "sy_current (snd (sync_save_current sy)) = sy_current sy"
  "sy_current (sync_advance sy) = sy_current sy + 1"
  by (simp_all add: sync_synchronize_inputs_def sync_save_current_def sync_advance_def Let_def
      split: prod.split)

lemma sync_frame_eqs:
  "(a, b) = sync_synchronize_inputs d sy \<Longrightarrow> sy_current b = sy_current sy"
  "(c, b) = sync_save_current sy \<Longrightarrow> sy_current b = sy_current sy"
  using sync_frame_simps by (metis snd_conv)+

text \<open>The re-simulation loop of \<open>adjust_simulation\<close>, with the requests it appends.\<close>

function sync_resim :: "'i \<Rightarrow> frame \<Rightarrow> ('s, 'i) sync \<Rightarrow> 'i request list \<times> ('s, 'i) sync" where
  "sync_resim d resume_at sy =
     (if sy_current sy < resume_at then
        let (inputs, sy1) = sync_synchronize_inputs d sy;
            (save, sy2) = sync_save_current sy1;
            (rs, sy3) = sync_resim d resume_at (sync_advance sy2)
        in (save # AdvanceFrame inputs # rs, sy3)
      else ([], sy))"
  by pat_completeness auto
termination
  by (relation "measure (\<lambda>(d, resume_at, sy). nat (resume_at - sy_current sy))")
    (auto dest!: sync_frame_eqs)

declare sync_resim.simps [simp del]

definition sync_adjust ::
  "'i \<Rightarrow> frame \<Rightarrow> ('s, 'i) sync \<Rightarrow> 'i request list \<times> ('s, 'i) sync" where
  "sync_adjust d seek_to sy =
     (let resume_at = sy_current sy in
      case ss_by_frame seek_to (sy_saved sy) of
        None \<Rightarrow> ([], sy)
      | Some cell \<Rightarrow>
          let (rs, sy') = sync_resim d resume_at
                (sy\<lparr>sy_current := seek_to, sy_queues := map iq_reset_prediction (sy_queues sy)\<rparr>)
          in (LoadState cell # rs, sy'))"

definition sync_check ::
  "'i \<Rightarrow> ('s, 'i) sync \<Rightarrow> 'i request list \<times> ('s, 'i) sync" where
  "sync_check d sy =
     (let seek_to = sync_first_incorrect sy in
      if seek_to = NULL_FRAME then ([], sy) else sync_adjust d seek_to sy)"

definition sync_force_rollback ::
  "'i \<Rightarrow> frame \<Rightarrow> ('s, 'i) sync \<Rightarrow> 'i request list \<times> ('s, 'i) sync" where
  "sync_force_rollback d seek_to sy = sync_adjust d seek_to sy"

definition sync_last_added_frames :: "('s, 'i) sync \<Rightarrow> frame list" where
  "sync_last_added_frames sy = map iq_last_added (sy_queues sy)"

text \<open>The frame step of \<open>P2PSession::advance_frame\<close> once the local input is filed: undo what
  a late input invalidated, save, gather the inputs, advance.\<close>

definition sync_frame :: "'i \<Rightarrow> ('s, 'i) sync \<Rightarrow> 'i request list \<times> ('s, 'i) sync" where
  "sync_frame d sy =
     (let (undo, sy1) = sync_check d sy;
          (save, sy2) = sync_save_current sy1;
          (inputs, sy3) = sync_synchronize_inputs d sy2
      in (undo @ [save, AdvanceFrame inputs], sync_advance sy3))"

end
