(* ===== verification/RollbackSpec.thy ===== *)
theory RollbackSpec
  imports RollbackSync
begin

subsection \<open>The window holds the newest frames\<close>

definition ss_frames :: "nat \<Rightarrow> 's saved_states \<Rightarrow> bool" where
  "ss_frames n ss \<longleftrightarrow>
     0 < length (ss_cells ss) \<and>
     (\<forall>f < n. n \<le> f + length (ss_cells ss) \<longrightarrow>
        ci_frame (ss_cells ss ! (f mod length (ss_cells ss))) = int f) \<and>
     (\<forall>k < length (ss_cells ss). n \<le> k \<longrightarrow> ci_frame (ss_cells ss ! k) = NULL_FRAME)"

lemma ss_frames_cell:
  assumes "ss_frames n ss" "k < length (ss_cells ss)" "ci_frame (ss_cells ss ! k) = int g"
  shows "g < n \<and> n \<le> g + length (ss_cells ss) \<and> k = g mod length (ss_cells ss)"
proof -
  let ?L = "length (ss_cells ss)"
  have "k < n" using assms by (force simp: ss_frames_def)
  then obtain f where f: "f < n" "n \<le> f + ?L" "f mod ?L = k"
    using ring_cover [of k ?L n] assms(2) by blast
  with assms(1) have "ci_frame (ss_cells ss ! k) = int f" by (auto simp: ss_frames_def)
  with assms(3) f show ?thesis by auto
qed

lemma ss_by_frame_window:
  assumes "ss_frames n ss" "f < n" "n \<le> f + length (ss_cells ss)"
  shows "ss_by_frame (int f) ss = Some (f mod length (ss_cells ss))"
proof -
  have "find_idx (\<lambda>c. ci_frame c = int f) (ss_cells ss) = Some (f mod length (ss_cells ss))"
    using assms ss_frames_cell [OF assms(1)]
    by (intro find_idx_unique) (auto simp: ss_frames_def)
  then show ?thesis by (simp add: ss_by_frame_def)
qed

lemma ss_by_frame_fresh:
  assumes "ss_frames n ss" shows "ss_by_frame (int n) ss = None"
proof -
  have "ci_frame c \<noteq> int n" if "c \<in> set (ss_cells ss)" for c
    using that ss_frames_cell [OF assms, of _ n] by (force simp: in_set_conv_nth)
  then show ?thesis by (simp add: ss_by_frame_def find_idx_None)
qed

lemma ss_push_window:
  "ss_frames n ss \<Longrightarrow> f < n \<Longrightarrow> n \<le> f + length (ss_cells ss) \<Longrightarrow>
   ss_push (int f) ss = (f mod length (ss_cells ss), ss)"
  by (simp add: ss_push_def ss_by_frame_window)

lemma ss_push_fresh:
  "ss_frames n ss \<Longrightarrow> ss_push (int n) ss =
     (ss_head ss, ss\<lparr>ss_head := (ss_head ss + 1) mod length (ss_cells ss)\<rparr>)"
  by (simp add: ss_push_def ss_by_frame_fresh)

subsection \<open>Re-simulation\<close>

definition spec_row :: "'i \<Rightarrow> 'i list list \<Rightarrow> nat \<Rightarrow> 'i list" where
  "spec_row d hs f = map (\<lambda>h. iq_spec_input d h f) hs"

definition spec_irow :: "'i \<Rightarrow> 'i list list \<Rightarrow> nat \<Rightarrow> ('i \<times> input_status) list" where
  "spec_irow d hs f = map (\<lambda>h. (iq_spec_input d h f, iq_spec_status h f)) hs"

lemma spec_irow_row [simp]: "map fst (spec_irow d hs f) = spec_row d hs f"
  by (simp add: spec_irow_def spec_row_def)

definition resim_requests :: "'i \<Rightarrow> 'i list list \<Rightarrow> nat \<Rightarrow> nat \<Rightarrow> nat \<Rightarrow> 'i request list" where
  "resim_requests d hs cap k n =
     concat (map (\<lambda>f. [SaveState (f mod cap) (int f), AdvanceFrame (spec_irow d hs f)]) [k..<n])"

lemma resim_requests_step:
  "k < n \<Longrightarrow> resim_requests d hs cap k n =
     SaveState (k mod cap) (int k) # AdvanceFrame (spec_irow d hs k)
     # resim_requests d hs cap (Suc k) n"
  by (simp add: resim_requests_def upt_conv_Cons)

lemma resim_requests_Nil [simp]: "resim_requests d hs cap n n = []"
  by (simp add: resim_requests_def)

text \<open>The queues before a re-simulation (or a gathering of inputs) of frame \<open>k\<close>.\<close>

definition queues_ready :: "'i \<Rightarrow> 'i input_queue list \<Rightarrow> 'i list list \<Rightarrow> 'i list list \<Rightarrow> bool" where
  "queues_ready d qs hs tml \<longleftrightarrow>
     players_all (iq_core d) qs hs tml \<and> (\<forall>q \<in> set qs. iq_first_incorrect q = NULL_FRAME) \<and>
     (\<forall>h \<in> set hs. length h \<le> length tml + QUEUE_LEN)"

lemma queues_ready_take:
  assumes "queues_ready d qs hs tml"
  defines "k \<equiv> length tml"
  defines "qs' \<equiv> map (\<lambda>q. snd (iq_input d (int k) q)) qs"
  shows "map (\<lambda>q. fst (iq_input d (int k) q)) qs = spec_irow d hs k"
    and "players_all (iq_inv d) qs' hs (tml @ [spec_row d hs k])"
    and "queues_ready d qs' hs (tml @ [spec_row d hs k])"
proof -
  note ready = assms(1) [unfolded queues_ready_def]
  note t = iq.take_all [OF conjunct1 [OF ready] conjunct1 [OF conjunct2 [OF ready]]
    conjunct2 [OF conjunct2 [OF ready]]]
  show "map (\<lambda>q. fst (iq_input d (int k) q)) qs = spec_irow d hs k"
    using t(1) by (simp add: k_def spec_irow_def)
  show inv: "players_all (iq_inv d) qs' hs (tml @ [spec_row d hs k])"
    using t(2) by (simp add: k_def qs'_def spec_row_def)
  have "\<forall>h \<in> set hs. length h \<le> length (tml @ [spec_row d hs k]) + QUEUE_LEN"
    using ready by fastforce
  then show "queues_ready d qs' hs (tml @ [spec_row d hs k])"
    using t(3) players_all_mono [OF inv iq_inv_core] by (simp add: queues_ready_def k_def qs'_def)
qed

lemma sync_resim_spec:
  assumes "queues_ready d (sy_queues sy) hs tml" "sy_current sy = int (length tml)"
    and "ss_frames n (sy_saved sy)" "length tml \<le> n"
    and "n \<le> length tml + length (ss_cells (sy_saved sy))"
  shows "\<exists>qs. sync_resim d (int n) sy =
      (resim_requests d hs (length (ss_cells (sy_saved sy))) (length tml) n,
       sy\<lparr>sy_queues := qs, sy_current := int n\<rparr>) \<and>
    queues_ready d qs hs (tml @ map (spec_row d hs) [length tml..<n]) \<and>
    (length tml < n \<longrightarrow>
       players_all (iq_inv d) qs hs (tml @ map (spec_row d hs) [length tml..<n])) \<and>
    length qs = length (sy_queues sy)"
  using assms
proof (induction "n - length tml" arbitrary: sy tml)
  case 0
  then have "length tml = n" by simp
  with 0 have "sync_resim d (int n) sy = ([], sy\<lparr>sy_queues := sy_queues sy, sy_current := int n\<rparr>)"
    by (simp add: sync_resim.simps [of d])
  with 0 \<open>length tml = n\<close> show ?case
    by (intro exI [of _ "sy_queues sy"]) auto
next
  case (Suc m)
  let ?k = "length tml" and ?cap = "length (ss_cells (sy_saved sy))"
  have kn: "?k < n" using Suc.hyps(2) by simp
  define qs where "qs = map (\<lambda>q. snd (iq_input d (int ?k) q)) (sy_queues sy)"
  let ?tml = "tml @ [spec_row d hs ?k]"
  let ?sy = "sy\<lparr>sy_queues := qs, sy_current := int (Suc ?k)\<rparr>"
  note t = queues_ready_take [OF Suc.prems(1), folded qs_def]
  have syn: "sync_synchronize_inputs d sy = (spec_irow d hs ?k, sy\<lparr>sy_queues := qs\<rparr>)"
    using t(1) Suc.prems(2) by (simp add: sync_synchronize_inputs_def qs_def)
  have save: "sync_save_current (sy\<lparr>sy_queues := qs\<rparr>) =
      (SaveState (?k mod ?cap) (int ?k), sy\<lparr>sy_queues := qs\<rparr>)"
    using Suc.prems kn by (simp add: sync_save_current_def ss_push_window)
  have adv: "sync_advance (sy\<lparr>sy_queues := qs\<rparr>) = ?sy"
    using Suc.prems(2) by (simp add: sync_advance_def add.commute)
  have m: "m = n - length ?tml" using Suc.hyps(2) by simp
  obtain qs' where qs': "sync_resim d (int n) ?sy =
      (resim_requests d hs ?cap (Suc ?k) n, ?sy\<lparr>sy_queues := qs', sy_current := int n\<rparr>)"
    "queues_ready d qs' hs (?tml @ map (spec_row d hs) [Suc ?k..<n])"
    "Suc ?k < n \<longrightarrow> players_all (iq_inv d) qs' hs (?tml @ map (spec_row d hs) [Suc ?k..<n])"
    "length qs' = length qs"
    using Suc.hyps(1) [OF m, of ?sy] Suc.prems kn t(3) by auto
  have ext: "?tml @ map (spec_row d hs) [Suc ?k..<n] = tml @ map (spec_row d hs) [?k..<n]"
    using kn by (simp add: upt_conv_Cons)
  have "sync_resim d (int n) sy =
      (SaveState (?k mod ?cap) (int ?k) # AdvanceFrame (spec_irow d hs ?k)
         # resim_requests d hs ?cap (Suc ?k) n,
       sy\<lparr>sy_queues := qs', sy_current := int n\<rparr>)"
    using kn Suc.prems(2) qs'(1) by (simp add: sync_resim.simps [of d _ sy] syn save adv)
  moreover have "players_all (iq_inv d) qs' hs (tml @ map (spec_row d hs) [?k..<n])"
  proof (cases "Suc ?k < n")
    case True
    then show ?thesis using qs'(3) ext by simp
  next
    case False
    then have "n = Suc ?k" using kn by simp
    then have "snd (sync_resim d (int n) ?sy) = ?sy"
      by (subst sync_resim.simps) simp
    then have "sy_queues ?sy = sy_queues (?sy\<lparr>sy_queues := qs', sy_current := int n\<rparr>)"
      using qs'(1) by simp
    then have "qs' = qs" by simp
    then show ?thesis using t(2) \<open>n = Suc ?k\<close> by simp
  qed
  ultimately show ?case
    using qs'(2,4) ext kn by (auto simp: resim_requests_step qs_def)
qed

subsection \<open>The game's side\<close>

text \<open>The game state before frame \<open>f\<close> of a timeline, and the cell that saves it.\<close>

definition state_at :: "('s \<Rightarrow> 'i list \<Rightarrow> 's) \<Rightarrow> 's \<Rightarrow> 'i list list \<Rightarrow> nat \<Rightarrow> 's" where
  "state_at step s0 tml f = foldl step s0 (take f tml)"

definition saved_cell :: "('s \<Rightarrow> 'i list \<Rightarrow> 's) \<Rightarrow> ('s \<Rightarrow> nat option) \<Rightarrow> 's \<Rightarrow> 'i list list \<Rightarrow>
    nat \<Rightarrow> 's cell_inner" where
  "saved_cell step ck s0 tml f =
     \<lparr>ci_frame = int f, ci_state = Some (state_at step s0 tml f),
      ci_checksum = ck (state_at step s0 tml f)\<rparr>"

definition ss_window :: "('s \<Rightarrow> 'i list \<Rightarrow> 's) \<Rightarrow> ('s \<Rightarrow> nat option) \<Rightarrow> 's \<Rightarrow> 'i list list \<Rightarrow>
    's saved_states \<Rightarrow> bool" where
  "ss_window step ck s0 tml ss \<longleftrightarrow>
     0 < length (ss_cells ss) \<and> ss_head ss = length tml mod length (ss_cells ss) \<and>
     (\<forall>f < length tml. length tml \<le> f + length (ss_cells ss) \<longrightarrow>
        ss_cells ss ! (f mod length (ss_cells ss)) = saved_cell step ck s0 tml f) \<and>
     (\<forall>k < length (ss_cells ss). length tml \<le> k \<longrightarrow> ss_cells ss ! k = cell_default)"

lemma state_at_Suc:
  "f < length tml \<Longrightarrow> state_at step s0 tml (Suc f) = step (state_at step s0 tml f) (tml ! f)"
  by (simp add: state_at_def take_Suc_conv_app_nth)

lemma state_at_take: "f \<le> k \<Longrightarrow> state_at step s0 (take k tml @ xs) f = state_at step s0 tml f"
  if "k \<le> length tml"
  using that by (simp add: state_at_def min_def)

lemma state_at_append: "f \<le> length tml \<Longrightarrow> state_at step s0 (tml @ xs) f = state_at step s0 tml f"
  by (simp add: state_at_def)

lemma ss_window_frames: "ss_window step ck s0 tml ss \<Longrightarrow> ss_frames (length tml) ss"
  by (auto simp: ss_window_def ss_frames_def saved_cell_def cell_default_def)

lemma cell_save_saved [simp]:
  "cell_save (int f) (state_at step s0 tml f) (ck (state_at step s0 tml f)) c =
   saved_cell step ck s0 tml f"
  by (simp add: cell_save_def saved_cell_def)

lemma fulfil_all_append:
  "fulfil_all step ck (xs @ ys) g =
     (case fulfil_all step ck xs g of None \<Rightarrow> None | Some g' \<Rightarrow> fulfil_all step ck ys g')"
  by (induction xs arbitrary: g) (auto split: option.splits)

text \<open>Fulfilling the requests of a re-simulation of frames \<open>k .. n - 1\<close>.\<close>

lemma fulfil_resim:
  assumes "k \<le> n" "n \<le> length tml" "\<And>f. k \<le> f \<Longrightarrow> f < n \<Longrightarrow> tml ! f = spec_row d hs f"
    and "0 < length cells"
  shows "\<exists>cells'. fulfil_all step ck (resim_requests d hs (length cells) k n)
      (cells, state_at step s0 tml k) = Some (cells', state_at step s0 tml n) \<and>
    length cells' = length cells \<and>
    (\<forall>f. k \<le> f \<longrightarrow> f < n \<longrightarrow> n \<le> f + length cells \<longrightarrow>
       cells' ! (f mod length cells) = saved_cell step ck s0 tml f) \<and>
    (\<forall>j < length cells. (\<forall>f. k \<le> f \<longrightarrow> f < n \<longrightarrow> f mod length cells \<noteq> j) \<longrightarrow>
       cells' ! j = cells ! j)"
  using assms
proof (induction "n - k" arbitrary: k cells)
  case 0
  then show ?case by auto
next
  case (Suc m)
  let ?L = "length cells"
  let ?cells = "cells[k mod ?L := saved_cell step ck s0 tml k]"
  have kn: "k < n" using Suc.hyps(2) by simp
  have "\<exists>cells'. fulfil_all step ck (resim_requests d hs ?L (Suc k) n)
      (?cells, state_at step s0 tml (Suc k)) = Some (cells', state_at step s0 tml n) \<and>
    length cells' = ?L \<and>
    (\<forall>f. Suc k \<le> f \<longrightarrow> f < n \<longrightarrow> n \<le> f + ?L \<longrightarrow>
       cells' ! (f mod ?L) = saved_cell step ck s0 tml f) \<and>
    (\<forall>j < ?L. (\<forall>f. Suc k \<le> f \<longrightarrow> f < n \<longrightarrow> f mod ?L \<noteq> j) \<longrightarrow> cells' ! j = ?cells ! j)"
    using Suc.hyps(1) [of "Suc k" ?cells] Suc.hyps(2) Suc.prems kn by auto
  then obtain cells' where c: "fulfil_all step ck (resim_requests d hs ?L (Suc k) n)
      (?cells, state_at step s0 tml (Suc k)) = Some (cells', state_at step s0 tml n)"
    "length cells' = ?L"
    "\<And>f. Suc k \<le> f \<Longrightarrow> f < n \<Longrightarrow> n \<le> f + ?L \<Longrightarrow>
       cells' ! (f mod ?L) = saved_cell step ck s0 tml f"
    "\<And>j. j < ?L \<Longrightarrow> (\<And>f. Suc k \<le> f \<Longrightarrow> f < n \<Longrightarrow> f mod ?L \<noteq> j) \<Longrightarrow> cells' ! j = ?cells ! j"
    by blast
  have row: "tml ! k = spec_row d hs k" using Suc.prems(3) kn by simp
  have run: "fulfil_all step ck (resim_requests d hs ?L k n) (cells, state_at step s0 tml k) =
      Some (cells', state_at step s0 tml n)"
    using kn Suc.prems(2) c(1) by (simp add: resim_requests_step state_at_Suc row)
  have here: "cells' ! (f mod ?L) = saved_cell step ck s0 tml f"
    if "k \<le> f" "f < n" "n \<le> f + ?L" for f
  proof (cases "f = k")
    case True
    have "g mod ?L \<noteq> k mod ?L" if "Suc k \<le> g" "g < n" for g
      using mod_window_inj [of k ?L g] that \<open>n \<le> f + ?L\<close> True by auto
    then show ?thesis using c(4) [of "k mod ?L"] Suc.prems(4) True by simp
  qed (use c(3) [of f] that in simp)
  have rest: "cells' ! j = cells ! j"
    if "j < ?L" "\<forall>f. k \<le> f \<longrightarrow> f < n \<longrightarrow> f mod ?L \<noteq> j" for j
    using c(4) [of j] that kn by (auto simp: nth_list_update)
  show ?case using run c(2) here rest by blast
qed

subsection \<open>One frame\<close>

lemma fold_min_eq: "fold min fs (f :: int) = Min (insert f (set fs))"
  by (metis Min.set_eq_fold list.simps(15))

lemma sync_first_incorrect_NULL:
  "sync_first_incorrect sy = NULL_FRAME \<longleftrightarrow>
   (\<forall>q \<in> set (sy_queues sy). iq_first_incorrect q = NULL_FRAME)"
proof (cases "filter (\<lambda>f. f \<noteq> NULL_FRAME) (map iq_first_incorrect (sy_queues sy))")
  case Nil
  then show ?thesis by (auto simp: sync_first_incorrect_def filter_empty_conv)
next
  case (Cons f fs)
  then have mem: "set (f # fs) = {x \<in> iq_first_incorrect ` set (sy_queues sy). x \<noteq> NULL_FRAME}"
    by (metis set_filter set_map)
  have "Min (insert f (set fs)) \<in> set (f # fs)" by (metis Min_in finite_set list.simps(15) insert_not_empty)
  then have "sync_first_incorrect sy \<noteq> NULL_FRAME"
    using mem by (auto simp: sync_first_incorrect_def Cons fold_min_eq)
  moreover have "f \<in> set (f # fs)" by simp
  then have "\<exists>q \<in> set (sy_queues sy). iq_first_incorrect q \<noteq> NULL_FRAME"
    unfolding mem by blast
  ultimately show ?thesis by blast
qed

lemma sync_first_incorrect_Min:
  assumes "sync_first_incorrect sy \<noteq> NULL_FRAME"
  shows "\<exists>q \<in> set (sy_queues sy). iq_first_incorrect q = sync_first_incorrect sy"
    and "\<forall>q \<in> set (sy_queues sy). iq_first_incorrect q = NULL_FRAME \<or>
      sync_first_incorrect sy \<le> iq_first_incorrect q"
proof -
  let ?F = "filter (\<lambda>f. f \<noteq> NULL_FRAME) (map iq_first_incorrect (sy_queues sy))"
  obtain f fs where F: "?F = f # fs"
    using assms by (cases ?F) (auto simp: sync_first_incorrect_def)
  then have sf: "sync_first_incorrect sy = Min (set ?F)"
    by (simp add: sync_first_incorrect_def fold_min_eq)
  have "Min (set ?F) \<in> set ?F" using F by (metis Min_in finite_set list.set_intros(1) empty_iff)
  then show "\<exists>q \<in> set (sy_queues sy). iq_first_incorrect q = sync_first_incorrect sy"
    unfolding sf by auto
  show "\<forall>q \<in> set (sy_queues sy). iq_first_incorrect q = NULL_FRAME \<or>
      sync_first_incorrect sy \<le> iq_first_incorrect q"
    unfolding sf by (auto intro!: Min_le)
qed

text \<open>What a frame step starts from and what it leaves: \<open>tml\<close> is the timeline the game has
  simulated, \<open>hs\<close> the inputs filed.\<close>

definition engine_at :: "'i \<Rightarrow> ('s \<Rightarrow> 'i list \<Rightarrow> 's) \<Rightarrow> ('s \<Rightarrow> nat option) \<Rightarrow> 's \<Rightarrow>
    'i list list \<Rightarrow> 'i list list \<Rightarrow> ('s, 'i) sync \<Rightarrow> 's \<Rightarrow> bool" where
  "engine_at d step ck s0 hs tml sy s \<longleftrightarrow>
     players_all (iq_inv d) (sy_queues sy) hs tml \<and>
     (\<forall>r \<in> set tml. length r = length (sy_queues sy)) \<and>
     sy_current sy = int (length tml) \<and>
     length (ss_cells (sy_saved sy)) = sy_max_prediction sy + 2 \<and>
     ss_window step ck s0 tml (sy_saved sy) \<and>
     s = state_at step s0 tml (length tml)"

lemma ss_window_extend:
  assumes "ss_window step ck s0 tml ss"
  shows "ss_window step ck s0 (tml @ [r])
     (ss\<lparr>ss_head := (ss_head ss + 1) mod length (ss_cells ss),
         ss_cells := (ss_cells ss)[ss_head ss := saved_cell step ck s0 tml (length tml)]\<rparr>)"
proof -
  let ?L = "length (ss_cells ss)" and ?n = "length tml"
  have L: "0 < ?L" and hd: "ss_head ss = ?n mod ?L"
    using assms by (auto simp: ss_window_def)
  have same: "saved_cell step ck s0 (tml @ [r]) f = saved_cell step ck s0 tml f" if "f \<le> ?n" for f
    using that by (simp add: saved_cell_def state_at_append)
  have "(ss_cells ss)[?n mod ?L := saved_cell step ck s0 tml ?n] ! (f mod ?L) =
      saved_cell step ck s0 (tml @ [r]) f" if "f < Suc ?n" "Suc ?n \<le> f + ?L" for f
  proof (cases "f = ?n")
    case True
    then show ?thesis using L same by simp
  next
    case False
    moreover from False have "f mod ?L \<noteq> ?n mod ?L"
      using mod_window_inj [of f ?L ?n] that by auto
    ultimately show ?thesis using assms that same by (auto simp: ss_window_def)
  qed
  moreover have "(ss_cells ss)[?n mod ?L := saved_cell step ck s0 tml ?n] ! k = cell_default"
    if "k < ?L" "Suc ?n \<le> k" for k
    using assms that by (auto simp: ss_window_def)
  ultimately show ?thesis using L by (auto simp: ss_window_def hd mod_Suc_eq)
qed

text \<open>Save, gather, advance, from a state with no known misprediction.\<close>

lemma sync_finish_spec:
  assumes eng: "engine_at d step ck s0 hs tml sy s"
    and ready: "queues_ready d (sy_queues sy) hs tml"
  defines "sy1 \<equiv> snd (sync_save_current sy)"
  defines "sy2 \<equiv> sync_advance (snd (sync_synchronize_inputs d sy1))"
  shows "\<exists>cells s'. fulfil_all step ck
        [fst (sync_save_current sy), AdvanceFrame (fst (sync_synchronize_inputs d sy1))]
        (ss_cells (sy_saved sy), s) = Some (cells, s') \<and>
      engine_at d step ck s0 hs (tml @ [spec_row d hs (length tml)])
        (sy2\<lparr>sy_saved := (sy_saved sy2)\<lparr>ss_cells := cells\<rparr>\<rparr>) s' \<and>
      (\<forall>q \<in> set (sy_queues sy2). iq_first_incorrect q = NULL_FRAME)"
    and "sy_max_prediction sy2 = sy_max_prediction sy" "sy_confirmed sy2 = sy_confirmed sy"
proof -
  let ?n = "length tml" and ?ss = "sy_saved sy"
  define qs where "qs = map (\<lambda>q. snd (iq_input d (int ?n) q)) (sy_queues sy)"
  have win: "ss_window step ck s0 tml ?ss" and cur: "sy_current sy = int ?n"
    and s: "s = state_at step s0 tml ?n" and cap: "length (ss_cells ?ss) = sy_max_prediction sy + 2"
    using eng by (auto simp: engine_at_def)
  let ?ss' = "?ss\<lparr>ss_head := (ss_head ?ss + 1) mod length (ss_cells ?ss)\<rparr>"
  have save: "sync_save_current sy = (SaveState (ss_head ?ss) (int ?n), sy\<lparr>sy_saved := ?ss'\<rparr>)"
    using ss_push_fresh [OF ss_window_frames [OF win]] cur by (simp add: sync_save_current_def)
  note t = queues_ready_take [OF ready, folded qs_def]
  have syn: "sync_synchronize_inputs d sy1 = (spec_irow d hs ?n, sy1\<lparr>sy_queues := qs\<rparr>)"
    using t(1) cur by (simp add: sync_synchronize_inputs_def sy1_def save qs_def)
  have sy2: "sy2 = sy\<lparr>sy_saved := ?ss', sy_queues := qs, sy_current := int ?n + 1\<rparr>"
    unfolding sy2_def syn by (simp add: sync_advance_def sy1_def save cur)
  let ?cells = "(ss_cells ?ss)[ss_head ?ss := saved_cell step ck s0 tml ?n]"
  have run: "fulfil_all step ck
        [fst (sync_save_current sy), AdvanceFrame (fst (sync_synchronize_inputs d sy1))]
        (ss_cells ?ss, s) = Some (?cells, step s (spec_row d hs ?n))"
    by (simp add: save syn s)
  have "engine_at d step ck s0 hs (tml @ [spec_row d hs ?n])
        (sy2\<lparr>sy_saved := (sy_saved sy2)\<lparr>ss_cells := ?cells\<rparr>\<rparr>) (step s (spec_row d hs ?n))"
    using t(2) ss_window_extend [OF win, of "spec_row d hs ?n"] cur cap eng
    by (auto simp: engine_at_def sy2 qs_def s state_at_def spec_row_def dest: players_allD(1))
  moreover have "\<forall>q \<in> set (sy_queues sy2). iq_first_incorrect q = NULL_FRAME"
    using t(3) by (simp add: sy2 queues_ready_def)
  ultimately show "\<exists>cells s'. fulfil_all step ck
        [fst (sync_save_current sy), AdvanceFrame (fst (sync_synchronize_inputs d sy1))]
        (ss_cells (sy_saved sy), s) = Some (cells, s') \<and>
      engine_at d step ck s0 hs (tml @ [spec_row d hs (length tml)])
        (sy2\<lparr>sy_saved := (sy_saved sy2)\<lparr>ss_cells := cells\<rparr>\<rparr>) s' \<and>
      (\<forall>q \<in> set (sy_queues sy2). iq_first_incorrect q = NULL_FRAME)"
    using run by blast
qed (simp_all add: sync_advance_def sync_synchronize_inputs_def sync_save_current_def
      sy1_def sy2_def Let_def split: prod.split)

text \<open>Rolling back: the engine loads the state before the wrong frame and re-simulates with
  what is known now, so that the timeline is the one the filed inputs determine.\<close>

lemma sync_adjust_spec:
  assumes eng: "engine_at d step ck s0 hs tml sy s"
    and k: "k < length tml" "length tml \<le> k + length (ss_cells (sy_saved sy))"
    and wrong: "\<forall>q \<in> set (sy_queues sy). iq_first_incorrect q = NULL_FRAME \<or>
      int k \<le> iq_first_incorrect q"
    and age: "\<forall>h \<in> set hs. length h \<le> k + QUEUE_LEN"
  defines "tml' \<equiv> map (spec_row d hs) [0..<length tml]"
  shows "\<exists>rs qs cells s'. sync_adjust d (int k) sy = (rs, sy\<lparr>sy_queues := qs\<rparr>) \<and>
      fulfil_all step ck rs (ss_cells (sy_saved sy), s) = Some (cells, s') \<and>
      length cells = length (ss_cells (sy_saved sy)) \<and>
      map ci_frame cells = map ci_frame (ss_cells (sy_saved sy)) \<and>
      engine_at d step ck s0 hs tml'
        (sy\<lparr>sy_queues := qs, sy_saved := (sy_saved sy)\<lparr>ss_cells := cells\<rparr>\<rparr>) s' \<and>
      queues_ready d qs hs tml'"
proof -
  let ?n = "length tml" and ?ss = "sy_saved sy" and ?L = "length (ss_cells (sy_saved sy))"
  let ?qs = "map iq_reset_prediction (sy_queues sy)"
  let ?sy = "sy\<lparr>sy_current := int k, sy_queues := ?qs\<rparr>"
  have win: "ss_window step ck s0 tml ?ss" and cur: "sy_current sy = int ?n"
    and inv: "players_all (iq_inv d) (sy_queues sy) hs tml"
    and rows: "\<forall>r \<in> set tml. length r = length (sy_queues sy)"
    and hs: "length hs = length (sy_queues sy)"
    using eng by (auto simp: engine_at_def dest: players_allD)
  note frames = ss_window_frames [OF win]
  have core: "players_all (iq_core d) (sy_queues sy) hs tml"
    using inv by (rule players_all_mono) (rule iq_inv_core)
  have ready: "queues_ready d ?qs hs (take k tml)"
    using iq.reset_all [OF core _ wrong] k(1) age by (simp add: queues_ready_def)
  obtain qs where qs: "sync_resim d (int ?n) ?sy =
      (resim_requests d hs ?L k ?n, ?sy\<lparr>sy_queues := qs, sy_current := int ?n\<rparr>)"
    "queues_ready d qs hs (take k tml @ map (spec_row d hs) [k..<?n])"
    "players_all (iq_inv d) qs hs (take k tml @ map (spec_row d hs) [k..<?n])"
    "length qs = length (sy_queues sy)"
    using sync_resim_spec [of d ?sy hs "take k tml" ?n] ready k frames by auto
  let ?t = "take k tml @ map (spec_row d hs) [k..<?n]"
  have row_eq: "spec_row d hs = (\<lambda>k. map (\<lambda>h. iq_spec_input d h k) hs)"
    by (simp add: fun_eq_iff spec_row_def)
  have "\<forall>r \<in> set ?t. length r = length qs"
    using qs(4) rows hs by (auto simp: spec_row_def dest: in_set_takeD)
  then have "?t = map (spec_row d hs) [0..<length ?t]"
    using iq.settled_all [of d qs hs ?t] qs(2) unfolding queues_ready_def row_eq by blast
  then have tml': "take k tml @ map (spec_row d hs) [k..<?n] = tml'"
    using k(1) by (simp add: tml'_def)
  have load: "ss_cells ?ss ! (k mod ?L) = saved_cell step ck s0 tml k"
    using win k by (auto simp: ss_window_def)
  have before: "state_at step s0 tml' f = state_at step s0 tml f" if "f \<le> k" for f
    using state_at_take [OF less_imp_le [OF k(1)] that] by (simp add: tml' [symmetric])
  have nth: "tml' ! f = spec_row d hs f" if "f < ?n" for f
    using that by (simp add: tml'_def)
  have len': "length tml' = ?n" by (simp add: tml'_def)
  obtain cells where cells: "fulfil_all step ck (resim_requests d hs ?L k ?n)
      (ss_cells ?ss, state_at step s0 tml' k) = Some (cells, state_at step s0 tml' ?n)"
    "length cells = ?L"
    "\<And>f. k \<le> f \<Longrightarrow> f < ?n \<Longrightarrow> ?n \<le> f + ?L \<Longrightarrow> cells ! (f mod ?L) = saved_cell step ck s0 tml' f"
    "\<And>j. j < ?L \<Longrightarrow> (\<And>f. k \<le> f \<Longrightarrow> f < ?n \<Longrightarrow> f mod ?L \<noteq> j) \<Longrightarrow> cells ! j = ss_cells ?ss ! j"
    using fulfil_resim [of k ?n tml' d hs "ss_cells ?ss" step ck s0] k nth len' win
    by (auto simp: ss_window_def)
  have adj: "sync_adjust d (int k) sy =
      (LoadState (k mod ?L) # resim_requests d hs ?L k ?n, sy\<lparr>sy_queues := qs\<rparr>)"
    using ss_by_frame_window [OF frames k] qs(1) cur by (simp add: sync_adjust_def Let_def)
  have run: "fulfil_all step ck (LoadState (k mod ?L) # resim_requests d hs ?L k ?n)
      (ss_cells ?ss, s) = Some (cells, state_at step s0 tml' ?n)"
    using cells(1) by (simp add: load) (simp add: saved_cell_def before)
  have here: "cells ! (f mod ?L) = saved_cell step ck s0 tml' f" if "f < ?n" "?n \<le> f + ?L" for f
  proof (cases "k \<le> f")
    case True
    then show ?thesis using cells(3) that by simp
  next
    case False
    have "g mod ?L \<noteq> f mod ?L" if "k \<le> g" "g < ?n" for g
      using mod_window_inj [of f ?L g] that False \<open>?n \<le> f + ?L\<close> by auto
    then have "cells ! (f mod ?L) = ss_cells ?ss ! (f mod ?L)"
      using cells(4) win by (auto simp: ss_window_def)
    also have "\<dots> = saved_cell step ck s0 tml f" using win that by (auto simp: ss_window_def)
    finally show ?thesis using False before by (simp add: saved_cell_def)
  qed
  have rest: "cells ! j = cell_default" if "j < ?L" "?n \<le> j" for j
  proof -
    have "cells ! j = ss_cells ?ss ! j" using that by (intro cells(4)) auto
    then show ?thesis using win that by (auto simp: ss_window_def)
  qed
  have win': "ss_window step ck s0 tml' (?ss\<lparr>ss_cells := cells\<rparr>)"
    using win here rest cells(2) len' by (auto simp: ss_window_def)
  have "map ci_frame cells = map ci_frame (ss_cells ?ss)"
  proof (rule nth_equalityI)
    fix j assume "j < length (map ci_frame cells)"
    then have j: "j < ?L" using cells(2) by simp
    show "map ci_frame cells ! j = map ci_frame (ss_cells ?ss) ! j"
    proof (cases "j < ?n")
      case True
      then obtain f where f: "f < ?n" "?n \<le> f + ?L" "f mod ?L = j"
        using ring_cover [OF j] by blast
      then show ?thesis using here [of f] win j cells(2) by (auto simp: ss_window_def saved_cell_def)
    next
      case False
      then show ?thesis using rest [of j] win j cells(2) by (auto simp: ss_window_def)
    qed
  qed (simp add: cells(2))
  moreover have "engine_at d step ck s0 hs tml'
      (sy\<lparr>sy_queues := qs, sy_saved := ?ss\<lparr>ss_cells := cells\<rparr>\<rparr>) (state_at step s0 tml' ?n)"
    using qs(3,4) win' eng cells(2) hs by (auto simp: engine_at_def tml' len' tml'_def spec_row_def)
  moreover have "queues_ready d qs hs tml'" using qs(2) by (simp add: tml')
  ultimately show ?thesis using adj run cells(2) by blast
qed

text \<open>The engine looks at the frames of the cells only.\<close>

lemma find_idx_map: "find_idx P (map f xs) = find_idx (\<lambda>x. P (f x)) xs"
  by (induction xs) auto

lemma ss_by_frame_cong:
  "map ci_frame cells = map ci_frame (ss_cells ss) \<Longrightarrow>
   ss_by_frame f (ss\<lparr>ss_cells := cells\<rparr>) = ss_by_frame f ss"
  using find_idx_map [of "\<lambda>x. x = f" ci_frame cells]
    find_idx_map [of "\<lambda>x. x = f" ci_frame "ss_cells ss"]
  by (simp add: ss_by_frame_def)

definition with_cells :: "'s cell_inner list \<Rightarrow> ('s, 'i) sync \<Rightarrow> ('s, 'i) sync" where
  "with_cells cells sy = sy\<lparr>sy_saved := (sy_saved sy)\<lparr>ss_cells := cells\<rparr>\<rparr>"

lemma with_cells_simps [simp]:
  "with_cells c (with_cells c' sy) = with_cells c sy"
  "sy_queues (with_cells c sy) = sy_queues sy"
  "sy_current (with_cells c sy) = sy_current sy"
  "sy_confirmed (with_cells c sy) = sy_confirmed sy"
  "sy_max_prediction (with_cells c sy) = sy_max_prediction sy"
  "ss_cells (sy_saved (with_cells c sy)) = c"
  "ss_head (sy_saved (with_cells c sy)) = ss_head (sy_saved sy)"
  by (simp_all add: with_cells_def)

lemma sync_save_current_with_cells:
  assumes "map ci_frame cells = map ci_frame (ss_cells (sy_saved sy))"
  shows "sync_save_current (with_cells cells sy) =
    (fst (sync_save_current sy), with_cells cells (snd (sync_save_current sy)))"
proof -
  have "length cells = length (ss_cells (sy_saved sy))"
    using assms by (metis length_map)
  then show ?thesis
    by (auto simp: sync_save_current_def ss_push_def with_cells_def ss_by_frame_cong [OF assms]
        split: option.split)
qed

lemma sync_synchronize_with_cells:
  "sync_synchronize_inputs d (with_cells cells sy) =
    (fst (sync_synchronize_inputs d sy), with_cells cells (snd (sync_synchronize_inputs d sy)))"
  by (simp add: sync_synchronize_inputs_def with_cells_def Let_def)

lemma sync_advance_with_cells:
  "sync_advance (with_cells cells sy) = with_cells cells (sync_advance sy)"
  by (simp add: sync_advance_def with_cells_def)

definition all_right :: "('s, 'i) sync \<Rightarrow> bool" where
  "all_right sy \<longleftrightarrow> (\<forall>q \<in> set (sy_queues sy). iq_first_incorrect q = NULL_FRAME)"

lemma sync_finish_cells:
  assumes eng: "engine_at d step ck s0 hs tml (with_cells cells sy1) s1"
    and ready: "queues_ready d (sy_queues sy1) hs tml"
    and frames: "map ci_frame cells = map ci_frame (ss_cells (sy_saved sy1))"
    and run: "fulfil_all step ck rs (c0, s) = Some (cells, s1)"
  defines "sy2 \<equiv> snd (sync_save_current sy1)"
  defines "sy3 \<equiv> sync_advance (snd (sync_synchronize_inputs d sy2))"
  shows "\<exists>cells' s'. fulfil_all step ck (rs @ [fst (sync_save_current sy1),
        AdvanceFrame (fst (sync_synchronize_inputs d sy2))]) (c0, s) = Some (cells', s') \<and>
      engine_at d step ck s0 hs (tml @ [spec_row d hs (length tml)]) (with_cells cells' sy3) s'"
    and "all_right sy3" and "sy_max_prediction sy3 = sy_max_prediction sy1"
    and "sy_confirmed sy3 = sy_confirmed sy1"
proof -
  have ready1: "queues_ready d (sy_queues (with_cells cells sy1)) hs tml" using ready by simp
  note fin = sync_finish_spec [OF eng ready1]
  note shift = sync_save_current_with_cells [OF frames] sync_synchronize_with_cells
    sync_advance_with_cells
  obtain cells' s' where r: "fulfil_all step ck [fst (sync_save_current sy1),
        AdvanceFrame (fst (sync_synchronize_inputs d sy2))] (cells, s1) = Some (cells', s')"
    "engine_at d step ck s0 hs (tml @ [spec_row d hs (length tml)]) (with_cells cells' sy3) s'"
    "all_right sy3"
    using fin(1) unfolding shift sy2_def sy3_def all_right_def
    by (auto simp: shift with_cells_def [symmetric])
  show "\<exists>cells' s'. fulfil_all step ck (rs @ [fst (sync_save_current sy1),
        AdvanceFrame (fst (sync_synchronize_inputs d sy2))]) (c0, s) = Some (cells', s') \<and>
      engine_at d step ck s0 hs (tml @ [spec_row d hs (length tml)]) (with_cells cells' sy3) s'"
    using r run by (auto simp: fulfil_all_append)
  show "all_right sy3" by (rule r(3))
qed (simp_all add: sy2_def sy3_def sync_advance_def sync_synchronize_inputs_def
      sync_save_current_def Let_def split: prod.split)

lemma sync_frame_unfold:
  "sync_frame d sy =
     (let u = sync_check d sy; v = sync_save_current (snd u);
          w = sync_synchronize_inputs d (snd v)
      in (fst u @ [fst v, AdvanceFrame (fst w)], sync_advance (snd w)))"
  by (simp add: sync_frame_def split_beta Let_def)

lemma sync_frame_spec:
  assumes eng: "engine_at d step ck s0 hs tml sy s"
    and near: "\<forall>q \<in> set (sy_queues sy). iq_first_incorrect q = NULL_FRAME \<or>
      int (length tml) \<le> iq_first_incorrect q + int (sy_max_prediction sy)"
    and age: "\<forall>h \<in> set hs. length h + sy_max_prediction sy \<le> length tml + QUEUE_LEN"
  defines "sy' \<equiv> snd (sync_frame d sy)"
  shows "\<exists>cells s'. fulfil_all step ck (fst (sync_frame d sy)) (ss_cells (sy_saved sy), s) =
        Some (cells, s') \<and>
      engine_at d step ck s0 hs (map (spec_row d hs) [0..<Suc (length tml)])
        (with_cells cells sy') s'"
    and "all_right sy'"
    and "sy_max_prediction sy' = sy_max_prediction sy"
    and "sy_confirmed sy' = sy_confirmed sy"
proof -
  let ?n = "length tml"
  let ?tml = "map (spec_row d hs) [0..<?n]"
  have row_eq: "spec_row d hs = (\<lambda>k. map (\<lambda>h. iq_spec_input d h k) hs)"
    by (simp add: fun_eq_iff spec_row_def)
  have inv: "players_all (iq_inv d) (sy_queues sy) hs tml"
    and rows: "\<forall>r \<in> set tml. length r = length (sy_queues sy)"
    and cap: "length (ss_cells (sy_saved sy)) = sy_max_prediction sy + 2"
    using eng by (auto simp: engine_at_def)
  have core: "players_all (iq_core d) (sy_queues sy) hs tml"
    using inv by (rule players_all_mono) (rule iq_inv_core)
  obtain rs qs cells s1 where chk: "sync_check d sy = (rs, sy\<lparr>sy_queues := qs\<rparr>)"
    and run: "fulfil_all step ck rs (ss_cells (sy_saved sy), s) = Some (cells, s1)"
    and frames: "map ci_frame cells = map ci_frame (ss_cells (sy_saved sy))"
    and eng1: "engine_at d step ck s0 hs ?tml (with_cells cells (sy\<lparr>sy_queues := qs\<rparr>)) s1"
    and ready: "queues_ready d qs hs ?tml"
  proof (cases "sync_first_incorrect sy = NULL_FRAME")
    case True
    then have right: "\<forall>q \<in> set (sy_queues sy). iq_first_incorrect q = NULL_FRAME"
      by (simp add: sync_first_incorrect_NULL)
    have tml: "tml = ?tml"
      using iq.settled_all [OF core right rows] by (simp add: row_eq)
    have "queues_ready d (sy_queues sy) hs tml"
      using core right age by (auto simp: queues_ready_def)
    then show thesis
      using that [of "[]" "sy_queues sy" "ss_cells (sy_saved sy)" s] True eng
      by (simp add: sync_check_def with_cells_def tml [symmetric])
  next
    case False
    obtain q where q: "q \<in> set (sy_queues sy)" "iq_first_incorrect q = sync_first_incorrect sy"
      using sync_first_incorrect_Min(1) [OF False] by blast
    obtain p where p: "p < length (sy_queues sy)" "q = sy_queues sy ! p"
      using q(1) by (auto simp: in_set_conv_nth)
    define k where "k = nat (sync_first_incorrect sy)"
    have "iq_core d q (hs ! p) (column p tml)" using players_allD(2) [OF core p(1)] p(2) by simp
    then have k: "sync_first_incorrect sy = int k" "k < ?n"
      using False q(2) by (auto simp: iq_core_def k_def)
    have near': "?n \<le> k + sy_max_prediction sy" using near q False k(1) by force
    have wrong: "\<forall>q \<in> set (sy_queues sy). iq_first_incorrect q = NULL_FRAME \<or>
      int k \<le> iq_first_incorrect q"
      using sync_first_incorrect_Min(2) [OF False] by (simp add: k(1))
    have age': "\<forall>h \<in> set hs. length h \<le> k + QUEUE_LEN" using age near' by fastforce
    show thesis
      using sync_adjust_spec [OF eng k(2) _ wrong age'] near' cap False that
      by (auto simp: sync_check_def k(1) with_cells_def)
  qed
  let ?sy1 = "sy\<lparr>sy_queues := qs\<rparr>"
  let ?sy2 = "snd (sync_save_current ?sy1)"
  let ?sy3 = "snd (sync_synchronize_inputs d ?sy2)"
  have sy': "sync_frame d sy = (rs @ [fst (sync_save_current ?sy1),
      AdvanceFrame (fst (sync_synchronize_inputs d ?sy2))], sync_advance ?sy3)"
    by (simp add: sync_frame_unfold chk Let_def)
  have ready1: "queues_ready d (sy_queues ?sy1) hs ?tml" using ready by simp
  have frames1: "map ci_frame cells = map ci_frame (ss_cells (sy_saved ?sy1))" using frames by simp
  note fin = sync_finish_cells [OF eng1 ready1 frames1 run]
  have row: "?tml @ [spec_row d hs (length ?tml)] = map (spec_row d hs) [0..<Suc ?n]" by simp
  show "\<exists>cells s'. fulfil_all step ck (fst (sync_frame d sy)) (ss_cells (sy_saved sy), s) =
        Some (cells, s') \<and>
      engine_at d step ck s0 hs (map (spec_row d hs) [0..<Suc (length tml)])
        (with_cells cells sy') s'"
    using fin(1) unfolding sy'_def sy' fst_conv snd_conv row .
  show "all_right sy'" "sy_max_prediction sy' = sy_max_prediction sy"
    "sy_confirmed sy' = sy_confirmed sy"
    using fin(2-4) by (simp_all add: sy'_def sy')
qed

end
