(* ===== verification/Rollback.thy ===== *)
theory Rollback
  imports RollbackSpec
begin

text \<open>
  The rollback engine of one peer under everything that can happen to it (\<open>sync.rs\<close> driven
  as \<open>session.rs\<close> drives it): remote inputs, confirmations, frame steps.
\<close>

subsection \<open>A frame step, with the game fulfilling the requests\<close>

text \<open>\<open>None\<close> is the game's panic when a load finds an empty cell; \<open>Inl\<close> is a declined frame.\<close>

definition rb_tick :: "'i \<Rightarrow> ('s \<Rightarrow> 'i list \<Rightarrow> 's) \<Rightarrow> ('s \<Rightarrow> nat option) \<Rightarrow> nat \<Rightarrow> 'i \<Rightarrow>
    ('s, 'i) sync \<times> 's \<Rightarrow> (rollback_error + frame \<times> (('s, 'i) sync \<times> 's)) option" where
  "rb_tick d step ck local i g =
     (case sync_add_local_input local i (fst g) of
        Inl e \<Rightarrow> Some (Inl e)
      | Inr (t, sy) \<Rightarrow>
          (case fulfil_all step ck (fst (sync_frame d sy)) (ss_cells (sy_saved sy), snd g) of
             None \<Rightarrow> None
           | Some (cells, s') \<Rightarrow> Some (Inr (t, (with_cells cells (snd (sync_frame d sy)), s')))))"

subsection \<open>The invariant\<close>

definition rb_inv :: "'i \<Rightarrow> ('s \<Rightarrow> 'i list \<Rightarrow> 's) \<Rightarrow> ('s \<Rightarrow> nat option) \<Rightarrow> 's \<Rightarrow> nat \<Rightarrow> nat \<Rightarrow>
    'i list list \<Rightarrow> 'i list list \<Rightarrow> ('s, 'i) sync \<Rightarrow> 's \<Rightarrow> bool" where
  "rb_inv d step ck s0 local delay hs tml sy s \<longleftrightarrow>
     engine_at d step ck s0 hs tml sy s \<and>
     local < length (sy_queues sy) \<and>
     iq_first_incorrect (sy_queues sy ! local) = NULL_FRAME \<and>
     (\<forall>p < length (sy_queues sy). delay_i32 (iq_frame_delay (sy_queues sy ! p)) =
        (if p = local then int delay else 0)) \<and>
     (\<forall>p < length (sy_queues sy). iq_first_incorrect (sy_queues sy ! p) = NULL_FRAME \<or>
        sy_current sy \<le> iq_first_incorrect (sy_queues sy ! p) + int (sy_max_prediction sy)) \<and>
     (\<forall>p < length (sy_queues sy). p \<noteq> local \<longrightarrow> sy_confirmed sy < int (length (hs ! p))) \<and>
     - 1 \<le> sy_confirmed sy \<and>
     sy_current sy \<le> sy_confirmed sy + 1 + int (sy_max_prediction sy) \<and>
     length (hs ! local) = (if tml = [] then 0 else length tml + delay)"

lemma rb_inv_queue:
  assumes "rb_inv d step ck s0 local delay hs tml sy s" "p < length (sy_queues sy)"
  shows "iq_inv d (sy_queues sy ! p) (hs ! p) (column p tml)"
  using assms by (auto simp: rb_inv_def engine_at_def dest: players_allD)

lemma ss_window_new: "ss_window step ck s0 [] (ss_new m)"
  using nth_replicate [of _ "m + 2" cell_default] by (auto simp: ss_window_def ss_new_def simp del: replicate_Suc)

lemma rb_inv_init:
  assumes "local < n" "int delay \<le> i32_max"
  shows "rb_inv d step ck s0 local delay (replicate n []) [] (sync_new d n maxp delay local) s0"
proof -
  have "players_all (iq_inv d) (sy_queues (sync_new d n maxp delay local)) (replicate n []) []"
    using assms by (auto simp: players_all_def sync_new_def Let_def nth_list_update
        iq_inv_new iq_inv_set_frame_delay column_def)
  moreover have "iq_first_incorrect (iq_new d) = NULL_FRAME" "iq_frame_delay (iq_new d) = 0"
    by (simp_all add: iq_new_def)
  moreover have "length (ss_cells (ss_new maxp)) = maxp + 2" by (simp add: ss_new_def)
  ultimately show ?thesis
    using assms
    by (auto simp: rb_inv_def engine_at_def sync_new_def Let_def nth_list_update
        ss_window_new state_at_def NULL_FRAME_def iq_set_frame_delay_def delay_i32_def i32_max_def)
qed

text \<open>A remote input is filed.\<close>

lemma rb_inv_remote:
  assumes inv: "rb_inv d step ck s0 local delay hs tml sy s"
    and "p \<noteq> local" "sync_add_remote_input p f i sy = Inr sy'"
  shows "rb_inv d step ck s0 local delay (hs[p := iq_spec_add d (hs ! p) f i]) tml sy' s"
    and "p < length (sy_queues sy)"
proof -
  let ?q = "sy_queues sy ! p"
  let ?q' = "snd (iq_add_input f i ?q)"
  show p: "p < length (sy_queues sy)"
    using assms(3) by (auto simp: sync_add_remote_input_def split: if_splits)
  then have sy': "sy' = sy\<lparr>sy_queues := (sy_queues sy)[p := ?q']\<rparr>"
    using assms(3) by (simp add: sync_add_remote_input_def)
  note q = rb_inv_queue [OF inv p]
  have delay: "delay_i32 (iq_frame_delay ?q) = 0" using inv p assms(2) by (auto simp: rb_inv_def)
  have q': "iq_inv d ?q' (iq_spec_add d (hs ! p) f i) (column p tml)"
    and delay': "delay_i32 (iq_frame_delay ?q') = 0"
    using iq_add_input_spec(2,3) [OF q, of f i] delay by simp_all
  have len: "length hs = length (sy_queues sy)" using inv by (auto simp: rb_inv_def engine_at_def dest: players_allD)
  have grow: "length (hs ! p) \<le> length (iq_spec_add d (hs ! p) f i)" by (auto simp: iq_spec_add_def)
  have conf: "sy_confirmed sy < int (length (hs ! p))" using inv p assms(2) by (auto simp: rb_inv_def)
  have near: "iq_first_incorrect ?q' = NULL_FRAME \<or>
      sy_current sy \<le> iq_first_incorrect ?q' + int (sy_max_prediction sy)"
    using iq_add_input_first_incorrect [OF q, of f i] inv p conf
    by (auto simp: rb_inv_def)
  have eng: "engine_at d step ck s0 (hs[p := iq_spec_add d (hs ! p) f i]) tml sy' s"
    using inv q' by (auto simp: rb_inv_def engine_at_def sy' intro: players_all_update)
  show "rb_inv d step ck s0 local delay (hs[p := iq_spec_add d (hs ! p) f i]) tml sy' s"
    using inv assms(2) eng near delay' conf grow len p
    by (auto simp: rb_inv_def sy' nth_list_update)
qed

text \<open>A confirmation raises the measure of the window.\<close>

lemma rb_inv_confirm:
  assumes inv: "rb_inv d step ck s0 local delay hs tml sy s"
    and "\<forall>p < length (sy_queues sy). p \<noteq> local \<longrightarrow> f < int (length (hs ! p))"
  shows "rb_inv d step ck s0 local delay hs tml (sync_confirm_through f sy) s"
  using assms by (auto simp: rb_inv_def sync_confirm_through_def engine_at_def)

text \<open>A frame step: the local input is filed, what a late input invalidated is redone, the
  frame is run. Every request can be fulfilled and the game ends in the state that the filed
  inputs determine.\<close>

lemma players_all_rows: "players_all R qs hs tml \<Longrightarrow> length (spec_row d hs f) = length qs"
  by (simp add: spec_row_def players_all_def)

lemma rb_inv_add_local:
  assumes inv: "rb_inv d step ck s0 local delay hs tml sy s"
    and add: "sync_add_local_input local i sy = Inr (t, sy1)"
  defines "hs' \<equiv> hs[local := iq_spec_add d (hs ! local) (sy_current sy + int delay) i]"
  shows "t = sy_current sy + int delay"
    and "engine_at d step ck s0 hs' tml sy1 s"
    and "sy_saved sy1 = sy_saved sy" "sy_max_prediction sy1 = sy_max_prediction sy"
    and "sy_confirmed sy1 = sy_confirmed sy" "sy_current sy1 = sy_current sy"
    and "length (sy_queues sy1) = length (sy_queues sy)"
    and "iq_first_incorrect (sy_queues sy1 ! local) = NULL_FRAME"
    and "\<forall>p < length (sy_queues sy). iq_frame_delay (sy_queues sy1 ! p) =
      iq_frame_delay (sy_queues sy ! p)"
    and "\<forall>p < length (sy_queues sy). p \<noteq> local \<longrightarrow> sy_queues sy1 ! p = sy_queues sy ! p"
    and "length (hs' ! local) = Suc (length tml) + delay"
    and "sy_current sy < sy_confirmed sy + 1 + int (sy_max_prediction sy)"
proof -
  let ?q = "sy_queues sy ! local"
  have local: "local < length (sy_queues sy)" using inv by (simp add: rb_inv_def)
  have sy1: "t = fst (iq_add_input (sy_current sy) i ?q)"
      "sy1 = sy\<lparr>sy_queues := (sy_queues sy)[local := snd (iq_add_input (sy_current sy) i ?q)]\<rparr>"
    and ahead: "sync_frames_ahead sy < sy_max_prediction sy"
    using add by (auto simp: sync_add_local_input_def split: if_splits prod.splits)
  have eng: "engine_at d step ck s0 hs tml sy s" and cur: "sy_current sy = int (length tml)"
    using inv by (auto simp: rb_inv_def engine_at_def)
  note q = rb_inv_queue [OF inv local]
  have len: "length (hs ! local) = (if tml = [] then 0 else length tml + delay)"
    and hs: "length hs = length (sy_queues sy)"
    using inv eng by (auto simp: rb_inv_def engine_at_def dest: players_allD)
  have delay: "delay_i32 (iq_frame_delay ?q) = int delay" using inv local by (auto simp: rb_inv_def)
  note spec = iq_add_input_spec [OF q, of "sy_current sy" i, unfolded delay]
  show t: "t = sy_current sy + int delay" using spec(1) len cur by (auto simp: sy1)
  show "engine_at d step ck s0 hs' tml sy1 s"
    using eng spec(2) by (auto simp: engine_at_def sy1 hs'_def intro: players_all_update)
  show "length (hs' ! local) = Suc (length tml) + delay"
    using len local hs cur by (auto simp: hs'_def iq_spec_add_def)
  have "iq_core d (snd (iq_add_input (sy_current sy) i ?q))
      (iq_spec_add d (hs ! local) (sy_current sy + int delay) i) (column local tml)"
    using spec(2) by (rule iq_inv_core)
  then have "iq_first_incorrect (snd (iq_add_input (sy_current sy) i ?q)) = NULL_FRAME \<or>
      (0 \<le> iq_first_incorrect (snd (iq_add_input (sy_current sy) i ?q)) \<and>
       iq_first_incorrect (snd (iq_add_input (sy_current sy) i ?q)) < int (length tml))"
    by (auto simp: iq_core_def)
  then show "iq_first_incorrect (sy_queues sy1 ! local) = NULL_FRAME"
    using iq_add_input_first_incorrect [OF q, of "sy_current sy" i] inv local len
    by (auto simp: sy1 rb_inv_def split: if_splits)
  show "sy_current sy < sy_confirmed sy + 1 + int (sy_max_prediction sy)"
    using ahead inv by (auto simp: sync_frames_ahead_def rb_inv_def NULL_FRAME_def split: if_splits)
  show "\<forall>p < length (sy_queues sy). iq_frame_delay (sy_queues sy1 ! p) =
      iq_frame_delay (sy_queues sy ! p)"
    using spec(3) local by (auto simp: sy1 nth_list_update)
qed (use add in \<open>auto simp: sync_add_local_input_def split: if_splits prod.splits\<close>)

lemma engine_at_cells:
  "engine_at d step ck s0 hs tml (with_cells cells sy) s \<Longrightarrow>
   players_all (iq_inv d) (sy_queues sy) hs tml"
  by (simp add: engine_at_def)

text \<open>No operation touches the delays.\<close>

lemma iq_frame_delay_input [simp]: "iq_frame_delay (snd (iq_input d f q)) = iq_frame_delay q"
  by (simp add: iq_input_def Let_def split: option.split)

lemma iq_frame_delay_reset [simp]: "iq_frame_delay (iq_reset_prediction q) = iq_frame_delay q"
  by (simp add: iq_reset_prediction_def)

definition sync_delays :: "('s, 'i) sync \<Rightarrow> nat list" where
  "sync_delays sy = map iq_frame_delay (sy_queues sy)"

lemma sync_delays_ops [simp]:
  "sync_delays (snd (sync_synchronize_inputs d sy)) = sync_delays sy"
  "sync_delays (snd (sync_save_current sy)) = sync_delays sy"
  "sync_delays (sync_advance sy) = sync_delays sy"
  "sync_delays (with_cells cells sy) = sync_delays sy"
  by (simp_all add: sync_delays_def sync_synchronize_inputs_def sync_save_current_def
      sync_advance_def Let_def split: prod.split)

lemma sync_delays_resim: "sync_delays (snd (sync_resim d r sy)) = sync_delays sy"
proof (induction d r sy rule: sync_resim.induct)
  case (1 d r sy)
  then show ?case
    by (subst sync_resim.simps)
      (simp add: split_beta Let_def,
       metis (no_types, lifting) prod.collapse sync_delays_ops)
qed

lemma sync_delays_frame: "sync_delays (snd (sync_frame d sy)) = sync_delays sy"
  by (simp add: sync_frame_unfold Let_def sync_check_def sync_adjust_def split_beta
      sync_delays_resim split: option.split) (simp add: sync_delays_def comp_def)

lemma sync_delays_length: "length (sync_delays sy) = length (sy_queues sy)"
  by (simp add: sync_delays_def)

lemma sync_delays_nth:
  "p < length (sy_queues sy) \<Longrightarrow> iq_frame_delay (sy_queues sy ! p) = sync_delays sy ! p"
  by (simp add: sync_delays_def)

theorem rb_inv_tick:
  assumes inv: "rb_inv d step ck s0 local delay hs tml sy s"
    and add: "sync_add_local_input local i sy = Inr (t, sy1)"
    and age: "\<forall>p < length (sy_queues sy). p \<noteq> local \<longrightarrow>
      length (hs ! p) + sy_max_prediction sy \<le> length tml + QUEUE_LEN"
    and small: "delay + sy_max_prediction sy < QUEUE_LEN"
  defines "hs' \<equiv> hs[local := iq_spec_add d (hs ! local) (sy_current sy + int delay) i]"
  defines "tml' \<equiv> map (spec_row d hs') [0..<Suc (length tml)]"
  shows "\<exists>sy' s'. rb_tick d step ck local i (sy, s) =
        Some (Inr (sy_current sy + int delay, (sy', s'))) \<and>
      rb_inv d step ck s0 local delay hs' tml' sy' s' \<and> all_right sy' \<and>
      sy_current sy' = sy_current sy + 1 \<and> sy_confirmed sy' = sy_confirmed sy \<and>
      sy_max_prediction sy' = sy_max_prediction sy"
proof -
  note l = rb_inv_add_local [OF inv add, folded hs'_def]
  have hs: "length hs = length (sy_queues sy)" and cur: "sy_current sy = int (length tml)"
    and local: "local < length (sy_queues sy)"
    using inv by (auto simp: rb_inv_def engine_at_def dest: players_allD)
  have near: "\<forall>q \<in> set (sy_queues sy1). iq_first_incorrect q = NULL_FRAME \<or>
      int (length tml) \<le> iq_first_incorrect q + int (sy_max_prediction sy1)"
  proof
    fix q assume "q \<in> set (sy_queues sy1)"
    then obtain p where p: "p < length (sy_queues sy)" "q = sy_queues sy1 ! p"
      using l(7) by (auto simp: in_set_conv_nth)
    show "iq_first_incorrect q = NULL_FRAME \<or>
      int (length tml) \<le> iq_first_incorrect q + int (sy_max_prediction sy1)"
      using p l(4,8,10) inv cur by (cases "p = local") (auto simp: rb_inv_def)
  qed
  have age': "\<forall>h \<in> set hs'. length h + sy_max_prediction sy1 \<le> length tml + QUEUE_LEN"
  proof
    fix h assume "h \<in> set hs'"
    then obtain p where p: "p < length (sy_queues sy)" "h = hs' ! p"
      using hs by (auto simp: in_set_conv_nth hs'_def)
    show "length h + sy_max_prediction sy1 \<le> length tml + QUEUE_LEN"
      using p l(4,11) age small hs by (cases "p = local") (auto simp: hs'_def)
  qed
  note fr = sync_frame_spec [OF l(2) near age', folded tml'_def]
  obtain cells s' where run:
      "fulfil_all step ck (fst (sync_frame d sy1)) (ss_cells (sy_saved sy1), s) = Some (cells, s')"
      "engine_at d step ck s0 hs' tml' (with_cells cells (snd (sync_frame d sy1))) s'"
    using fr(1) by blast
  let ?sy = "with_cells cells (snd (sync_frame d sy1))"
  have tick: "rb_tick d step ck local i (sy, s) =
      Some (Inr (sy_current sy + int delay, (?sy, s')))"
    using add run(1) l(1) by (simp add: rb_tick_def)
  have n: "length tml' = Suc (length tml)" "tml' \<noteq> []" by (simp_all add: tml'_def)
  have cur': "sy_current ?sy = sy_current sy + 1" using run(2) n cur by (simp add: engine_at_def)
  have delays: "sync_delays ?sy = sync_delays sy"
    using l(7,9) by (simp add: sync_delays_frame) (simp add: sync_delays_def list_eq_iff_nth_eq)
  then have qlen: "length (sy_queues ?sy) = length (sy_queues sy)"
    by (metis sync_delays_length)
  have right: "iq_first_incorrect (sy_queues ?sy ! p) = NULL_FRAME" if "p < length (sy_queues sy)" for p
    using fr(2) that qlen by (auto simp: all_right_def)
  have dl: "iq_frame_delay (sy_queues ?sy ! p) = iq_frame_delay (sy_queues sy ! p)"
    if "p < length (sy_queues sy)" for p
    using delays that qlen by (metis sync_delays_nth)
  have "rb_inv d step ck s0 local delay hs' tml' ?sy s'"
    unfolding rb_inv_def
    using run(2) qlen right dl local inv l(4,5,11,12) fr(3,4) cur' n hs
    by (auto simp: rb_inv_def hs'_def)
  then show ?thesis using tick fr l(4,5) cur' by (auto simp: all_right_def)
qed

end
