(* ===== verification/RollbackNet.thy ===== *)
theory RollbackNet
  imports Rollback
begin

text \<open>
  A match: \<open>n\<close> peers, each with its own rollback engine and its own copy of the game, and one
  ordered log of sent inputs per player. A peer receives every other player's log in order and
  exactly once, at any speed (what \<open>protocol.rs\<close> provides over a lossy channel), confirms what
  it has received and steps whenever its window allows, in any interleaving.
\<close>

subsection \<open>The system\<close>

record ('s, 'i) net =
  peer :: "nat \<Rightarrow> ('s, 'i) sync \<times> 's"
  sent :: "nat \<Rightarrow> (frame \<times> 'i) list"
  got :: "nat \<Rightarrow> nat \<Rightarrow> nat"

definition net_init :: "'i \<Rightarrow> 's \<Rightarrow> nat \<Rightarrow> nat \<Rightarrow> nat \<Rightarrow> ('s, 'i) net" where
  "net_init d s0 n maxp delay =
     \<lparr>peer = (\<lambda>p. (sync_new d n maxp delay p, s0)), sent = (\<lambda>_. []), got = (\<lambda>_ _. 0)\<rparr>"

text \<open>\<open>PeerProtocol::last_received_frame\<close> for player \<open>q\<close> at peer \<open>p\<close>.\<close>

definition last_received :: "('s, 'i) net \<Rightarrow> nat \<Rightarrow> nat \<Rightarrow> frame" where
  "last_received N p q =
     (if got N p q = 0 then NULL_FRAME else fst (sent N q ! (got N p q - 1)))"

text \<open>The events: player \<open>q\<close>'s next input reaches \<open>p\<close>; \<open>p\<close> raises its confirmed frame to
  one it has everyone's input for; \<open>p\<close> steps with a local input, which goes out if it was
  filed (the step may also be declined).\<close>

inductive net_step :: "'i \<Rightarrow> ('s \<Rightarrow> 'i list \<Rightarrow> 's) \<Rightarrow> ('s \<Rightarrow> nat option) \<Rightarrow> nat \<Rightarrow>
    ('s, 'i) net \<Rightarrow> ('s, 'i) net \<Rightarrow> bool" for d step ck n where
  deliver: "\<lbrakk> p < n; q < n; p \<noteq> q; got N p q < length (sent N q);
      sent N q ! got N p q = (f, i); sync_add_remote_input q f i (fst (peer N p)) = Inr sy' \<rbrakk>
    \<Longrightarrow> net_step d step ck n N
      (N\<lparr>peer := (peer N)(p := (sy', snd (peer N p))),
        got := (got N)(p := (got N p)(q := Suc (got N p q)))\<rparr>)"
| confirm: "\<lbrakk> p < n; \<And>q. q < n \<Longrightarrow> q \<noteq> p \<Longrightarrow> f \<le> last_received N p q \<rbrakk>
    \<Longrightarrow> net_step d step ck n N
      (N\<lparr>peer := (peer N)(p := (sync_confirm_through f (fst (peer N p)), snd (peer N p)))\<rparr>)"
| tick: "\<lbrakk> p < n; rb_tick d step ck p i (peer N p) = Some (Inr (t, g)) \<rbrakk>
    \<Longrightarrow> net_step d step ck n N
      (N\<lparr>peer := (peer N)(p := g),
        sent := (sent N)(p := sent N p @ (if t = NULL_FRAME then [] else [(t, i)]))\<rparr>)"

inductive net_reach :: "'i \<Rightarrow> ('s \<Rightarrow> 'i list \<Rightarrow> 's) \<Rightarrow> ('s \<Rightarrow> nat option) \<Rightarrow> 's \<Rightarrow> nat \<Rightarrow> nat \<Rightarrow>
    nat \<Rightarrow> ('s, 'i) net \<Rightarrow> bool" for d step ck s0 n maxp delay where
  net_reach_init: "net_reach d step ck s0 n maxp delay (net_init d s0 n maxp delay)"
| net_reach_step: "net_reach d step ck s0 n maxp delay N \<Longrightarrow> net_step d step ck n N N' \<Longrightarrow>
    net_reach d step ck s0 n maxp delay N'"

subsection \<open>Histories\<close>

text \<open>The inputs by frame that a log of sends stands for.\<close>

definition hist :: "'i \<Rightarrow> (frame \<times> 'i) list \<Rightarrow> 'i list" where
  "hist d xs = foldl (\<lambda>h (t, i). iq_spec_add d h t i) [] xs"

lemma hist_Nil [simp]: "hist d [] = []"
  by (simp add: hist_def)

lemma hist_snoc [simp]: "hist d (xs @ [(t, i)]) = iq_spec_add d (hist d xs) t i"
  by (simp add: hist_def)

definition filed :: "('s, 'i) net \<Rightarrow> nat \<Rightarrow> nat \<Rightarrow> (frame \<times> 'i) list" where
  "filed N p q = (if p = q then sent N q else take (got N p q) (sent N q))"

definition hists :: "'i \<Rightarrow> nat \<Rightarrow> ('s, 'i) net \<Rightarrow> nat \<Rightarrow> 'i list list" where
  "hists d n N p = map (\<lambda>q. hist d (filed N p q)) [0..<n]"

lemma hist_length:
  "log_ok delay xs \<Longrightarrow> length (hist d xs) = (if xs = [] then 0 else delay + length xs)"
proof (induction xs rule: rev_induct)
  case (snoc x xs)
  obtain t i where x: "x = (t, i)" by (cases x)
  have "log_ok delay xs" using snoc.prems by (auto simp: log_ok_def nth_append) (metis less_Suc_eq)
  then have IH: "length (hist d xs) = (if xs = [] then 0 else delay + length xs)" by (rule snoc.IH)
  have "t = int (delay + length xs)" using snoc.prems x by (force simp: log_ok_def nth_append)
  then show ?case using IH x by (auto simp: iq_spec_add_def)
qed simp

lemma hist_take:
  "\<exists>ys. hist d xs = hist d (take k xs) @ ys"
proof (induction xs rule: rev_induct)
  case (snoc x xs)
  obtain t i where x: "x = (t, i)" by (cases x)
  obtain ys where "hist d xs = hist d (take k xs) @ ys" using snoc.IH by blast
  then show ?case
    by (cases "length xs < k") (auto simp: x iq_spec_add_def)
qed simp

lemma hist_take_nth:
  "f < length (hist d (take k xs)) \<Longrightarrow> hist d (take k xs) ! f = hist d xs ! f"
  by (metis hist_take nth_append)

subsection \<open>The invariant of a match\<close>

definition net_inv :: "'i \<Rightarrow> ('s \<Rightarrow> 'i list \<Rightarrow> 's) \<Rightarrow> ('s \<Rightarrow> nat option) \<Rightarrow> 's \<Rightarrow> nat \<Rightarrow> nat \<Rightarrow>
    nat \<Rightarrow> ('s, 'i) net \<Rightarrow> bool" where
  "net_inv d step ck s0 n maxp delay N \<longleftrightarrow>
     (\<forall>p < n. log_ok delay (sent N p)) \<and>
     (\<forall>p < n. \<forall>q < n. got N p q \<le> length (sent N q)) \<and>
     (\<forall>p < n. int (length (sent N p)) = sy_current (fst (peer N p))) \<and>
     (\<forall>p < n. sy_max_prediction (fst (peer N p)) = maxp) \<and>
     (\<forall>p < n. \<exists>tml. rb_inv d step ck s0 p delay (hists d n N p) tml
        (fst (peer N p)) (snd (peer N p)))"

lemma hists_nth [simp]: "q < n \<Longrightarrow> hists d n N p ! q = hist d (filed N p q)"
  by (simp add: hists_def)

lemma hists_length [simp]: "length (hists d n N p) = n"
  by (simp add: hists_def)

lemma rb_inv_queues: "rb_inv d step ck s0 l delay hs tml sy s \<Longrightarrow> length (sy_queues sy) = length hs"
  by (auto simp: rb_inv_def engine_at_def dest: players_allD)

lemma sync_new_simps [simp]:
  "sy_current (sync_new d n maxp delay p) = 0"
  "sy_max_prediction (sync_new d n maxp delay p) = maxp"
  "sy_confirmed (sync_new d n maxp delay p) = NULL_FRAME"
  by (simp_all add: sync_new_def Let_def)

lemma net_inv_init:
  assumes "2 * (maxp + delay) \<le> QUEUE_LEN"
  shows "net_inv d step ck s0 n maxp delay (net_init d s0 n maxp delay)"
proof -
  have hists: "hists d n (net_init d s0 n maxp delay) p = replicate n []" for p
    by (rule nth_equalityI) (simp_all add: filed_def net_init_def)
  have small: "int delay \<le> i32_max" using assms by (simp add: QUEUE_LEN_def i32_max_def)
  have "\<exists>tml. rb_inv d step ck s0 p delay (replicate n []) tml
      (sync_new d n maxp delay p) s0" if "p < n" for p
    by (intro exI [of _ "[]"] rb_inv_init that small)
  then show ?thesis
    unfolding net_inv_def hists by (simp add: net_init_def log_ok_def)
qed

lemma hists_update_eq:
  assumes "p < n" "\<And>q. q < n \<Longrightarrow> q \<noteq> r \<Longrightarrow> filed N' p q = filed N p q" "r < n"
  shows "hists d n N' p = (hists d n N p)[r := hist d (filed N' p r)]"
proof (rule nth_equalityI)
  fix q assume "q < length (hists d n N' p)"
  then show "hists d n N' p ! q = (hists d n N p)[r := hist d (filed N' p r)] ! q"
    using assms by (cases "q = r") simp_all
qed simp

text \<open>How far a player's log can be ahead of another peer.\<close>

lemma net_age:
  assumes inv: "net_inv d step ck s0 n maxp delay N" and "p < n" "q < n" "p \<noteq> q"
  shows "int (length (hist d (filed N p q))) \<le> sy_current (fst (peer N p)) + int (2 * delay + maxp)"
proof -
  obtain tml where t: "rb_inv d step ck s0 q delay (hists d n N q) tml (fst (peer N q)) (snd (peer N q))"
    using inv assms by (auto simp: net_inv_def)
  have lens: "length (hist d (filed N a b)) \<le> delay + length (sent N b)" if "b < n" for a b
    using hist_length [of delay "filed N a b" d] log_ok_take [of delay "sent N b" "got N a b"]
      inv that by (auto simp: net_inv_def filed_def)
  have "sy_confirmed (fst (peer N q)) < int (length (hist d (filed N q p)))"
    using t assms rb_inv_queues [OF t] by (auto simp: rb_inv_def)
  moreover have "sy_current (fst (peer N q)) \<le> sy_confirmed (fst (peer N q)) + 1 + int maxp"
    using t inv assms by (auto simp: rb_inv_def net_inv_def)
  moreover have "int (length (sent N q)) = sy_current (fst (peer N q))"
    "int (length (sent N p)) = sy_current (fst (peer N p))"
    using inv assms by (auto simp: net_inv_def)
  ultimately show ?thesis using lens [of q p] lens [of p q] assms by simp
qed

lemma net_last_received:
  assumes inv: "net_inv d step ck s0 n maxp delay N" and "p < n" "q < n" "p \<noteq> q"
  shows "last_received N p q = int (length (hist d (filed N p q))) - 1"
proof -
  have ok: "log_ok delay (sent N q)" "got N p q \<le> length (sent N q)"
    using inv assms by (auto simp: net_inv_def)
  then have "fst (sent N q ! (got N p q - 1)) = int (delay + (got N p q - 1))" if "got N p q \<noteq> 0"
    using that by (auto simp: log_ok_def)
  then show ?thesis
    using hist_length [OF log_ok_take [OF ok(1), of "got N p q"], of d] ok(2) assms(4)
    by (auto simp: last_received_def filed_def NULL_FRAME_def)
qed

lemma net_tick:
  assumes inv: "net_inv d step ck s0 n maxp delay N" and p: "p < n"
    and small: "2 * (maxp + delay) \<le> QUEUE_LEN"
    and add: "sync_add_local_input p i (fst (peer N p)) = Inr (t, sy1)"
  defines "hs' \<equiv> (hists d n N p)[p := hist d (sent N p @ [(t, i)])]"
  shows "\<exists>sy' s' tml. rb_tick d step ck p i (peer N p) = Some (Inr (t, (sy', s'))) \<and>
      t = sy_current (fst (peer N p)) + int delay \<and>
      tml = map (spec_row d hs') [0..<Suc (nat (sy_current (fst (peer N p))))] \<and>
      rb_inv d step ck s0 p delay hs' tml sy' s' \<and> all_right sy' \<and>
      sy_current sy' = sy_current (fst (peer N p)) + 1 \<and>
      sy_confirmed sy' = sy_confirmed (fst (peer N p)) \<and>
      sy_max_prediction sy' = maxp"
proof -
  let ?sy = "fst (peer N p)"
  obtain tml where t: "rb_inv d step ck s0 p delay (hists d n N p) tml ?sy (snd (peer N p))"
    using inv p by (auto simp: net_inv_def)
  have n: "length (sy_queues ?sy) = n" using rb_inv_queues [OF t] by simp
  have cur: "sy_current ?sy = int (length tml)" using t by (simp add: rb_inv_def engine_at_def)
  have mp: "sy_max_prediction ?sy = maxp" using inv p by (simp add: net_inv_def)
  have age: "\<forall>q < length (sy_queues ?sy). q \<noteq> p \<longrightarrow>
      length (hists d n N p ! q) + sy_max_prediction ?sy \<le> length tml + QUEUE_LEN"
    using net_age [OF inv p] small cur by (force simp: n mp)
  have t_eq: "t = sy_current ?sy + int delay" using rb_inv_add_local(1) [OF t add] .
  have "delay + sy_max_prediction ?sy < QUEUE_LEN" using small mp by (simp add: QUEUE_LEN_def)
  then obtain sy' s' where "rb_tick d step ck p i (?sy, snd (peer N p)) =
        Some (Inr (sy_current ?sy + int delay, (sy', s')))"
      "rb_inv d step ck s0 p delay hs' (map (spec_row d hs') [0..<Suc (length tml)]) sy' s'"
      "all_right sy'" "sy_current sy' = sy_current ?sy + 1" "sy_confirmed sy' = sy_confirmed ?sy"
      "sy_max_prediction sy' = sy_max_prediction ?sy"
    using rb_inv_tick [OF t add age] p by (auto simp: hs'_def t_eq filed_def)
  then show ?thesis using t_eq cur mp by auto
qed

theorem net_inv_step:
  assumes inv: "net_inv d step ck s0 n maxp delay N" and step: "net_step d step ck n N N'"
    and small: "2 * (maxp + delay) \<le> QUEUE_LEN"
  shows "net_inv d step ck s0 n maxp delay N'"
  using step
proof cases
  case (deliver p q f i sy')
  obtain tml where t: "rb_inv d step ck s0 p delay (hists d n N p) tml
      (fst (peer N p)) (snd (peer N p))"
    using inv deliver by (auto simp: net_inv_def)
  have same: "hists d n N' r = hists d n N r" if "r < n" "r \<noteq> p" for r
    using that by (simp add: hists_def filed_def deliver(1))
  have "filed N' p q = filed N p q @ [(f, i)]"
    using deliver by (simp add: filed_def take_Suc_conv_app_nth)
  then have here: "hists d n N' p = (hists d n N p)[q := iq_spec_add d (hists d n N p ! q) f i]"
    using hists_update_eq [of p n q N' N d] deliver by (simp add: filed_def)
  have "rb_inv d step ck s0 p delay (hists d n N' p) tml sy' (snd (peer N p))"
    using rb_inv_remote(1) [OF t _ deliver(7)] deliver(4) by (simp add: here)
  moreover have "sy_current sy' = sy_current (fst (peer N p))"
    "sy_max_prediction sy' = sy_max_prediction (fst (peer N p))"
    using deliver(7) by (auto simp: sync_add_remote_input_def split: if_splits)
  ultimately show ?thesis
    using inv same deliver by (auto simp: net_inv_def)
next
  case (confirm p f)
  obtain tml where t: "rb_inv d step ck s0 p delay (hists d n N p) tml
      (fst (peer N p)) (snd (peer N p))"
    using inv confirm by (auto simp: net_inv_def)
  have hists: "hists d n N' r = hists d n N r" for r
    by (simp add: hists_def filed_def confirm(1))
  have "\<forall>q < length (sy_queues (fst (peer N p))). q \<noteq> p \<longrightarrow> f < int (length (hists d n N p ! q))"
    using confirm(2,3) net_last_received [OF inv] rb_inv_queues [OF t] by force
  then have "rb_inv d step ck s0 p delay (hists d n N' p) tml
      (sync_confirm_through f (fst (peer N p))) (snd (peer N p))"
    using rb_inv_confirm [OF t] hists by simp
  then show ?thesis
    using inv hists confirm by (auto simp: net_inv_def) (auto simp: sync_confirm_through_def)
next
  case (tick p i t g)
  obtain sy1 where add: "sync_add_local_input p i (fst (peer N p)) = Inr (t, sy1)"
    using tick(3) by (auto simp: rb_tick_def split: sum.splits option.splits prod.splits)
  obtain sy' s' tml where st: "g = (sy', s')" "t = sy_current (fst (peer N p)) + int delay"
      "rb_inv d step ck s0 p delay ((hists d n N p)[p := hist d (sent N p @ [(t, i)])]) tml sy' s'"
      "sy_current sy' = sy_current (fst (peer N p)) + 1" "sy_max_prediction sy' = maxp"
    using net_tick [OF inv tick(2) small add] tick(3) by auto
  have cur: "int (length (sent N p)) = sy_current (fst (peer N p))"
    using inv tick by (simp add: net_inv_def)
  then have tn: "t \<noteq> NULL_FRAME" using st(2) by (simp add: NULL_FRAME_def)
  have same: "hists d n N' r = hists d n N r" if "r < n" "r \<noteq> p" for r
    using that inv tick by (auto simp: hists_def filed_def net_inv_def)
  have here: "hists d n N' p = (hists d n N p)[p := hist d (sent N p @ [(t, i)])]"
    using hists_update_eq [of p n p N' N d] tick tn by (simp add: filed_def)
  have got: "got N r q \<le> length (sent N' q)" if "r < n" "q < n" for r q
  proof -
    have "got N r q \<le> length (sent N q)" using inv that by (simp add: net_inv_def)
    then show ?thesis by (auto simp: tick(1))
  qed
  have "log_ok delay (sent N p @ [(t, i)])"
    using inv tick(2) st(2) cur by (intro log_ok_snoc) (auto simp: net_inv_def)
  then show ?thesis
    using inv same here st tick tn cur got unfolding net_inv_def by auto
qed

theorem net_reach_inv:
  "net_reach d step ck s0 n maxp delay N \<Longrightarrow> 2 * (maxp + delay) \<le> QUEUE_LEN \<Longrightarrow>
   net_inv d step ck s0 n maxp delay N"
  by (induction rule: net_reach.induct) (auto intro: net_inv_init net_inv_step)

subsection \<open>What a match guarantees\<close>

text \<open>The inputs of frame \<open>f\<close> that the players themselves filed.\<close>

definition agreed_row :: "'i \<Rightarrow> nat \<Rightarrow> ('s, 'i) net \<Rightarrow> nat \<Rightarrow> 'i list" where
  "agreed_row d n N f = map (\<lambda>q. hist d (sent N q) ! f) [0..<n]"

lemma spec_row_agreed:
  assumes "\<And>q. q < n \<Longrightarrow> f < length (hist d (filed N p q))"
  shows "spec_row d (hists d n N p) f = agreed_row d n N f"
proof (rule nth_equalityI)
  fix q assume "q < length (spec_row d (hists d n N p) f)"
  then have q: "q < n" by (simp add: spec_row_def)
  have "hist d (filed N p q) ! f = hist d (sent N q) ! f"
    using assms [OF q] hist_take_nth [of f d "got N p q" "sent N q"] by (simp add: filed_def split: if_splits)
  then show "spec_row d (hists d n N p) f ! q = agreed_row d n N f ! q"
    using q assms [OF q] by (simp add: spec_row_def agreed_row_def iq_spec_input_def)
qed (simp add: spec_row_def agreed_row_def)

text \<open>With no misprediction pending, the timeline is the one the filed inputs determine.\<close>

lemma net_settled:
  assumes inv: "net_inv d step ck s0 n maxp delay N" and p: "p < n"
    and right: "all_right (fst (peer N p))"
  shows "engine_at d step ck s0 (hists d n N p)
     (map (spec_row d (hists d n N p)) [0..<nat (sy_current (fst (peer N p)))])
     (fst (peer N p)) (snd (peer N p))"
proof -
  let ?sy = "fst (peer N p)" and ?hs = "hists d n N p"
  obtain tml where t: "rb_inv d step ck s0 p delay ?hs tml ?sy (snd (peer N p))"
    using inv p by (auto simp: net_inv_def)
  then have eng: "engine_at d step ck s0 ?hs tml ?sy (snd (peer N p))" by (simp add: rb_inv_def)
  then have core: "players_all (iq_core d) (sy_queues ?sy) ?hs tml"
    by (auto simp: engine_at_def elim: players_all_mono intro: iq_inv_core)
  have row_eq: "spec_row d ?hs = (\<lambda>k. map (\<lambda>h. iq_spec_input d h k) ?hs)"
    by (simp add: fun_eq_iff spec_row_def)
  have "tml = map (spec_row d ?hs) [0..<length tml]"
    using iq.settled_all [OF core] right eng unfolding row_eq
    by (auto simp: all_right_def engine_at_def)
  moreover have "length tml = nat (sy_current ?sy)" using eng by (simp add: engine_at_def)
  ultimately show ?thesis using eng by metis
qed

lemma net_confirmed_len:
  assumes inv: "net_inv d step ck s0 n maxp delay N" and pq: "p < n" "q < n"
    and f: "int f \<le> sy_confirmed (fst (peer N p))" "int f < sy_current (fst (peer N p))"
  shows "f < length (hist d (filed N p q))"
proof -
  obtain tml where t: "rb_inv d step ck s0 p delay (hists d n N p) tml
      (fst (peer N p)) (snd (peer N p))"
    using inv pq by (auto simp: net_inv_def)
  show ?thesis
  proof (cases "q = p")
    case True
    then show ?thesis using t pq f by (auto simp: rb_inv_def engine_at_def split: if_splits)
  next
    case False
    then have "sy_confirmed (fst (peer N p)) < int (length (hists d n N p ! q))"
      using t pq rb_inv_queues [OF t] by (auto simp: rb_inv_def)
    then show ?thesis using f pq by simp
  qed
qed

lemma ss_by_frame_cell:
  assumes win: "ss_window step ck s0 tml ss" and c: "ss_by_frame (int f) ss = Some c"
  shows "ss_cells ss ! c = saved_cell step ck s0 tml f \<and> f < length tml"
proof -
  have "c < length (ss_cells ss) \<and> ci_frame (ss_cells ss ! c) = int f"
    using c by (auto simp: ss_by_frame_def find_idx_Some split: if_splits)
  then have "f < length tml \<and> length tml \<le> f + length (ss_cells ss) \<and> c = f mod length (ss_cells ss)"
    using ss_frames_cell [OF ss_window_frames [OF win]] by blast
  then show ?thesis using win by (auto simp: ss_window_def)
qed

lemma net_confirmed_cell:
  assumes inv: "net_inv d step ck s0 n maxp delay N" and p: "p < n"
    and right: "all_right (fst (peer N p))"
    and f: "int f \<le> sy_confirmed (fst (peer N p)) + 1"
    and c: "ss_by_frame (int f) (sy_saved (fst (peer N p))) = Some c"
  shows "ss_cells (sy_saved (fst (peer N p))) ! c =
    (let s = foldl step s0 (map (agreed_row d n N) [0..<f])
     in \<lparr>ci_frame = int f, ci_state = Some s, ci_checksum = ck s\<rparr>)"
proof -
  let ?hs = "hists d n N p"
  let ?k = "nat (sy_current (fst (peer N p)))"
  have eng: "engine_at d step ck s0 ?hs (map (spec_row d ?hs) [0..<?k]) (fst (peer N p)) (snd (peer N p))"
    by (rule net_settled [OF inv p right])
  note cell = ss_by_frame_cell [OF _ c, of step ck s0 "map (spec_row d ?hs) [0..<?k]"]
  have cell': "ss_cells (sy_saved (fst (peer N p))) ! c =
      saved_cell step ck s0 (map (spec_row d ?hs) [0..<?k]) f" "f < ?k"
    using cell eng by (auto simp: engine_at_def)
  have "spec_row d ?hs g = agreed_row d n N g" if "g < f" for g
    by (rule spec_row_agreed, rule net_confirmed_len [OF inv p]) (use that f cell'(2) in auto)
  then have "map (spec_row d ?hs) [0..<f] = map (agreed_row d n N) [0..<f]" by (auto intro: map_cong)
  moreover have "take f (map (spec_row d ?hs) [0..<?k]) = map (spec_row d ?hs) [0..<f]"
    using cell'(2) by (simp add: take_map)
  ultimately show ?thesis using cell'(1) by (metis saved_cell_def state_at_def)
qed

lemma net_window:
  assumes inv: "net_inv d step ck s0 n maxp delay N" and p: "p < n"
  shows "sy_current (fst (peer N p)) \<le> sy_confirmed (fst (peer N p)) + 1 + int maxp"
    and "q < n \<Longrightarrow>
      sy_current (fst (peer N p)) \<le> sy_current (fst (peer N q)) + int (maxp + delay)"
proof -
  obtain tml where t: "rb_inv d step ck s0 p delay (hists d n N p) tml
      (fst (peer N p)) (snd (peer N p))"
    using inv p by (auto simp: net_inv_def)
  show *: "sy_current (fst (peer N p)) \<le> sy_confirmed (fst (peer N p)) + 1 + int maxp"
    using t inv p by (auto simp: rb_inv_def net_inv_def)
  assume q: "q < n"
  show "sy_current (fst (peer N p)) \<le> sy_current (fst (peer N q)) + int (maxp + delay)"
  proof (cases "q = p")
    case False
    then have "sy_confirmed (fst (peer N p)) < int (length (hist d (filed N p q)))"
      using t p q rb_inv_queues [OF t] by (auto simp: rb_inv_def)
    moreover have "length (hist d (filed N p q)) \<le> delay + length (sent N q)"
      using hist_length [OF log_ok_take [of delay "sent N q" "got N p q"], of d] inv q False
      by (auto simp: net_inv_def filed_def)
    moreover have "int (length (sent N q)) = sy_current (fst (peer N q))"
      using inv q by (simp add: net_inv_def)
    ultimately show ?thesis using * by simp
  qed simp
qed

lemma net_hist_len:
  assumes "net_inv d step ck s0 n maxp delay N" "p < n" "q < n"
  shows "length (hist d (filed N p q)) =
    (let k = if p = q then length (sent N q) else got N p q in if k = 0 then 0 else delay + k)"
proof -
  have "log_ok delay (sent N q)" "got N p q \<le> length (sent N q)"
    using assms by (simp_all add: net_inv_def)
  then show ?thesis
    using hist_length [of delay "filed N p q" d] log_ok_take [of delay "sent N q" "got N p q"]
    by (auto simp: filed_def Let_def)
qed

lemma net_current_nonneg:
  "net_inv d step ck s0 n maxp delay N \<Longrightarrow> p < n \<Longrightarrow>
   sy_current (fst (peer N p)) = int (length (sent N p))"
  by (simp add: net_inv_def)

lemma net_quiescent_state:
  assumes inv: "net_inv d step ck s0 n maxp delay N" and p: "p < n"
    and right: "all_right (fst (peer N p))"
    and all: "\<And>q. q < n \<Longrightarrow> q \<noteq> p \<Longrightarrow> got N p q = length (sent N q)"
    and cur: "\<And>q. q < n \<Longrightarrow> sy_current (fst (peer N q)) = k"
  shows "snd (peer N p) = foldl step s0 (map (agreed_row d n N) [0..<nat k])"
proof -
  let ?hs = "hists d n N p"
  have "engine_at d step ck s0 ?hs (map (spec_row d ?hs) [0..<nat k]) (fst (peer N p)) (snd (peer N p))"
    using net_settled [OF inv p right] cur [OF p] by simp
  then have "snd (peer N p) = foldl step s0 (map (spec_row d ?hs) [0..<nat k])"
    by (simp add: engine_at_def state_at_def)
  moreover have "map (spec_row d ?hs) [0..<nat k] = map (agreed_row d n N) [0..<nat k]"
  proof (rule map_cong [OF refl], rule spec_row_agreed)
    fix f q assume f: "f \<in> set [0..<nat k]" and q: "q < n"
    have "int (length (sent N q)) = k" using net_current_nonneg [OF inv q] cur [OF q] by simp
    then show "f < length (hist d (filed N p q))"
      using net_hist_len [OF inv p q] all [OF q] f by (auto simp: Let_def)
  qed
  ultimately show ?thesis by simp
qed

lemma net_progress:
  assumes inv: "net_inv d step ck s0 n maxp delay N" and p: "p < n"
    and small: "2 * (maxp + delay) \<le> QUEUE_LEN" and room: "1 \<le> maxp" "2 \<le> maxp + delay"
    and all: "\<And>q. q < n \<Longrightarrow> q \<noteq> p \<Longrightarrow> got N p q = length (sent N q)"
    and least: "\<And>q. q < n \<Longrightarrow> sy_current (fst (peer N p)) \<le> sy_current (fst (peer N q))"
    and conf: "\<And>f. (\<And>q. q < n \<Longrightarrow> q \<noteq> p \<Longrightarrow> f \<le> last_received N p q) \<Longrightarrow>
      f \<le> sy_confirmed (fst (peer N p))"
  shows "\<exists>t g. rb_tick d step ck p i (peer N p) = Some (Inr (t, g))"
proof -
  let ?sy = "fst (peer N p)"
  obtain tml where t: "rb_inv d step ck s0 p delay (hists d n N p) tml ?sy (snd (peer N p))"
    using inv p by (auto simp: net_inv_def)
  have len: "p < length (sy_queues ?sy)" and mp: "sy_max_prediction ?sy = maxp"
    using t inv p by (auto simp: rb_inv_def net_inv_def)
  have "sync_frames_ahead ?sy < maxp"
  proof (cases "sy_current ?sy = 0")
    case True
    then show ?thesis using room t by (auto simp: sync_frames_ahead_def rb_inv_def NULL_FRAME_def)
  next
    case False
    have "sy_current ?sy + int delay - 1 \<le> sy_confirmed ?sy"
    proof (rule conf)
      fix q assume q: "q < n" "q \<noteq> p"
      have "sy_current ?sy \<le> int (length (sent N q))"
        using least [OF q(1)] net_current_nonneg [OF inv q(1)] by simp
      moreover have "0 < length (sent N q)" using False calculation net_current_nonneg [OF inv p] by auto
      ultimately show "sy_current ?sy + int delay - 1 \<le> last_received N p q"
        using net_last_received [OF inv p q(1)] q all [OF q] net_hist_len [OF inv p q(1)]
        by (auto simp: Let_def)
    qed
    moreover have "1 \<le> sy_current ?sy" using False net_current_nonneg [OF inv p] by (simp add: Suc_le_eq)
    ultimately show ?thesis using room by (auto simp: sync_frames_ahead_def NULL_FRAME_def)
  qed
  then have "sync_add_local_input p i ?sy =
      Inr (fst (iq_add_input (sy_current ?sy) i (sy_queues ?sy ! p)),
       ?sy\<lparr>sy_queues := (sy_queues ?sy)[p := snd (iq_add_input (sy_current ?sy) i (sy_queues ?sy ! p))]\<rparr>)"
    using len mp by (simp add: sync_add_local_input_def split_beta)
  then show ?thesis using net_tick [OF inv p small] by blast
qed

lemma net_stall_step:
  assumes inv: "net_inv d step ck s0 n maxp 0 N" and step: "net_step d step ck n N N'"
    and n: "2 \<le> n" and tight: "maxp \<le> 1"
    and low: "\<And>q. q < n \<Longrightarrow> sy_current (fst (peer N q)) \<le> int maxp"
    and p: "q < n"
  shows "sy_current (fst (peer N' q)) \<le> int maxp"
  using step
proof cases
  case (deliver p q' f i sy')
  then show ?thesis using low p by (auto simp: sync_add_remote_input_def split: if_splits)
next
  case (confirm p f)
  then show ?thesis using low p by (auto simp: sync_confirm_through_def)
next
  case (tick p i t g)
  let ?sy = "fst (peer N p)"
  obtain sy1 where add: "sync_add_local_input p i ?sy = Inr (t, sy1)"
    using tick(3) by (auto simp: rb_tick_def split: sum.splits option.splits prod.splits)
  have small: "2 * (maxp + 0) \<le> QUEUE_LEN" using tight by (simp add: QUEUE_LEN_def)
  obtain sy' s' where g: "g = (sy', s')" "sy_current sy' = sy_current ?sy + 1"
    using net_tick [OF inv tick(2) small add] tick(3) by auto
  have ahead: "sync_frames_ahead ?sy < maxp"
    using add inv tick(2) by (auto simp: sync_add_local_input_def net_inv_def split: if_splits)
  obtain r where r: "r < n" "r \<noteq> p"
    using n by (cases "p = 0") (auto intro: that [of 1] that [of 0])
  obtain tml where t: "rb_inv d step ck s0 p 0 (hists d n N p) tml ?sy (snd (peer N p))"
    using inv tick(2) by (auto simp: net_inv_def)
  have "sy_confirmed ?sy < int (length (hist d (filed N p r)))"
    using t r tick(2) rb_inv_queues [OF t] by (auto simp: rb_inv_def)
  moreover have "length (hist d (filed N p r)) \<le> length (sent N r)"
    using net_hist_len [OF inv tick(2) r(1)] inv r tick(2) by (auto simp: Let_def net_inv_def)
  moreover have "int (length (sent N r)) \<le> int maxp"
    using low [OF r(1)] net_current_nonneg [OF inv r(1)] by simp
  ultimately have "sy_confirmed ?sy < int maxp" by simp
  then have "sy_current ?sy < int maxp"
    using ahead tight low [OF tick(2)] by (auto simp: sync_frames_ahead_def NULL_FRAME_def split: if_splits)
  then show ?thesis using low [OF p] g tick(1) by auto
qed

lemma net_stall:
  assumes "net_reach d step ck s0 n maxp 0 N" "2 \<le> n" "maxp \<le> 1"
  shows "\<forall>q < n. sy_current (fst (peer N q)) \<le> int maxp"
  using assms
proof (induction rule: net_reach.induct)
  case net_reach_init
  then show ?case by (simp add: net_init_def)
next
  case (net_reach_step N N')
  have "net_inv d step ck s0 n maxp 0 N"
    using net_reach_step by (intro net_reach_inv) (auto simp: QUEUE_LEN_def)
  note step = net_stall_step [OF this net_reach_step.hyps(2) net_reach_step.prems]
  have "\<forall>q < n. sy_current (fst (peer N q)) \<le> int maxp"
    using net_reach_step.IH net_reach_step.prems by simp
  then show ?case using step by simp
qed

subsection \<open>The system as a function of a list of events\<close>

datatype 'i net_event = Deliver nat nat | Confirm nat frame | Tick nat 'i

definition net_exec :: "'i \<Rightarrow> ('s \<Rightarrow> 'i list \<Rightarrow> 's) \<Rightarrow> ('s \<Rightarrow> nat option) \<Rightarrow> nat \<Rightarrow>
    'i net_event \<Rightarrow> ('s, 'i) net \<Rightarrow> ('s, 'i) net option" where
  "net_exec d step ck n e N =
     (case e of
        Deliver p q \<Rightarrow>
          if p < n \<and> q < n \<and> p \<noteq> q \<and> got N p q < length (sent N q) then
            (case sync_add_remote_input q (fst (sent N q ! got N p q)) (snd (sent N q ! got N p q))
                    (fst (peer N p)) of
               Inl _ \<Rightarrow> None
             | Inr sy' \<Rightarrow> Some (N\<lparr>peer := (peer N)(p := (sy', snd (peer N p))),
                 got := (got N)(p := (got N p)(q := Suc (got N p q)))\<rparr>))
          else None
      | Confirm p f \<Rightarrow>
          if p < n \<and> (\<forall>q \<in> set [0..<n]. q \<noteq> p \<longrightarrow> f \<le> last_received N p q) then
            Some (N\<lparr>peer := (peer N)(p := (sync_confirm_through f (fst (peer N p)), snd (peer N p)))\<rparr>)
          else None
      | Tick p i \<Rightarrow>
          if p < n then
            (case rb_tick d step ck p i (peer N p) of
               Some (Inr (t, g)) \<Rightarrow> Some (N\<lparr>peer := (peer N)(p := g),
                 sent := (sent N)(p := sent N p @ (if t = NULL_FRAME then [] else [(t, i)]))\<rparr>)
             | _ \<Rightarrow> None)
          else None)"

lemma net_exec_step: "net_exec d step ck n e N = Some N' \<Longrightarrow> net_step d step ck n N N'"
proof (cases e)
  case (Deliver p q)
  assume "net_exec d step ck n e N = Some N'"
  then show ?thesis
    using net_step.deliver [of p n q N "fst (sent N q ! got N p q)" "snd (sent N q ! got N p q)"]
    by (auto simp: net_exec_def Deliver split: if_splits sum.splits)
next
  case (Confirm p f)
  assume "net_exec d step ck n e N = Some N'"
  then show ?thesis
    using net_step.confirm [of p n f N] by (auto simp: net_exec_def Confirm split: if_splits)
next
  case (Tick p i)
  assume "net_exec d step ck n e N = Some N'"
  then obtain t g where r: "p < n" "rb_tick d step ck p i (peer N p) = Some (Inr (t, g))"
    "N' = N\<lparr>peer := (peer N)(p := g),
        sent := (sent N)(p := sent N p @ (if t = NULL_FRAME then [] else [(t, i)]))\<rparr>"
    by (auto simp: net_exec_def Tick split: if_splits sum.splits option.splits prod.splits)
  show ?thesis unfolding r(3) using r(1,2) by (rule net_step.tick)
qed

fun net_run :: "'i \<Rightarrow> ('s \<Rightarrow> 'i list \<Rightarrow> 's) \<Rightarrow> ('s \<Rightarrow> nat option) \<Rightarrow> nat \<Rightarrow>
    'i net_event list \<Rightarrow> ('s, 'i) net \<Rightarrow> ('s, 'i) net option" where
  "net_run d step ck n [] N = Some N"
| "net_run d step ck n (e # es) N =
     (case net_exec d step ck n e N of None \<Rightarrow> None | Some N' \<Rightarrow> net_run d step ck n es N')"

lemma net_run_reach:
  "net_reach d step ck s0 n maxp delay N \<Longrightarrow> net_run d step ck n es N = Some N' \<Longrightarrow>
   net_reach d step ck s0 n maxp delay N'"
proof (induction es arbitrary: N)
  case (Cons e es)
  then obtain N1 where "net_exec d step ck n e N = Some N1" "net_run d step ck n es N1 = Some N'"
    by (auto split: option.splits)
  then show ?case using Cons net_reach_step [OF Cons.prems(1) net_exec_step] by blast
qed simp

subsection \<open>A match of two peers\<close>

text \<open>Each guesses the other's first input wrong, rolls back in its second step and guesses
  the second one right.\<close>

definition demo_step :: "int \<Rightarrow> int list \<Rightarrow> int" where
  "demo_step s is = 10 * s + foldr (\<lambda>i a. i + 3 * a) is 0"

definition demo_ck :: "int \<Rightarrow> nat option" where
  "demo_ck s = Some (nat s)"

definition demo_net :: "nat \<Rightarrow> (int, int) net" where
  "demo_net k = the (net_run 0 demo_step demo_ck 2
     (take k [Tick 0 1, Tick 1 2, Deliver 0 1, Deliver 1 0, Tick 0 1, Tick 1 2,
       Deliver 0 1, Deliver 1 0, Confirm 0 1, Confirm 1 1]) (net_init 0 0 2 8 0))"

lemma demo_net_ok:
  "net_run 0 demo_step demo_ck 2 [Tick 0 1, Tick 1 2, Deliver 0 1, Deliver 1 0]
     (net_init 0 0 2 8 0) \<noteq> None"
  "net_run 0 demo_step demo_ck 2 [Tick 0 1, Tick 1 2, Deliver 0 1, Deliver 1 0, Tick 0 1, Tick 1 2,
     Deliver 0 1, Deliver 1 0, Confirm 0 1, Confirm 1 1] (net_init 0 0 2 8 0) \<noteq> None"
  by code_simp+

lemma demo_net_reach:
  "net_reach 0 demo_step demo_ck 0 2 8 0 (demo_net 4)"
  "net_reach 0 demo_step demo_ck 0 2 8 0 (demo_net 10)"
  using demo_net_ok
  by (auto simp: demo_net_def simp del: net_run.simps intro: net_run_reach [OF net_reach_init])

lemma demo_net_values:
  "list_all (\<lambda>p. sy_current (fst (peer (demo_net 10) p)) = 2 \<and>
     sy_confirmed (fst (peer (demo_net 10) p)) = 1 \<and>
     all_right (fst (peer (demo_net 10) p)) \<and>
     length (sent (demo_net 10) p) = 2 \<and>
     ss_by_frame 1 (sy_saved (fst (peer (demo_net 10) p))) = Some 1) [0, 1]"
  "got (demo_net 10) 0 1 = 2" "got (demo_net 10) 1 0 = 2"
  by code_simp+

lemma all_less_2: "(\<forall>p < (2::nat). P p) \<longleftrightarrow> list_all P [0, 1]"
  by (auto simp: less_2_cases_iff)

lemma demo_net_last:
  "last_received (demo_net 10) 0 1 = 1"
  by code_simp

lemma demo_net_converged:
  assumes "p < 2"
  shows "sy_current (fst (peer (demo_net 10) p)) = 2"
    and "sy_confirmed (fst (peer (demo_net 10) p)) = 1"
    and "all_right (fst (peer (demo_net 10) p))"
    and "q < 2 \<Longrightarrow> p \<noteq> q \<Longrightarrow> got (demo_net 10) p q = length (sent (demo_net 10) q)"
    and "ss_by_frame 1 (sy_saved (fst (peer (demo_net 10) p))) = Some 1"
  using demo_net_values [folded all_less_2] assms by (auto simp: less_2_cases_iff)

subsection \<open>Properties\<close>

text \<open>C1: Rollback is correct. In a match of any size, under any interleaving of deliveries,
  confirmations and steps, every frame step of every peer can be carried out by the game (no
  load finds an empty cell) and leaves the game in the state it would have reached by running
  from the start with, for each player and frame, the real input where it has arrived and the
  last known one repeated where it has not. A declined step is a prediction limit.\<close>

theorem rollback_correct:
  assumes "net_reach d step ck s0 n maxp delay N" and "p < n"
    and "2 * (maxp + delay) \<le> QUEUE_LEN"
  shows "case rb_tick d step ck p i (peer N p) of
      None \<Rightarrow> False
    | Some (Inl e) \<Rightarrow> e = PredictionLimit \<and> maxp \<le> sync_frames_ahead (fst (peer N p))
    | Some (Inr (t, (sy', s'))) \<Rightarrow>
        sy_current sy' = sy_current (fst (peer N p)) + 1 \<and>
        s' = foldl step s0 (map (spec_row d ((hists d n N p)[p := hist d (sent N p @ [(t, i)])]))
               [0..<nat (sy_current sy')])"
proof -
  have inv: "net_inv d step ck s0 n maxp delay N" by (rule net_reach_inv [OF assms(1,3)])
  show ?thesis
  proof (cases "sync_add_local_input p i (fst (peer N p))")
    case (Inl e)
    obtain tml where "rb_inv d step ck s0 p delay (hists d n N p) tml
        (fst (peer N p)) (snd (peer N p))"
      using inv assms(2) by (auto simp: net_inv_def)
    then have "p < length (sy_queues (fst (peer N p)))" by (simp add: rb_inv_def)
    then show ?thesis
      using Inl inv assms(2)
      by (auto simp: rb_tick_def sync_add_local_input_def net_inv_def split: if_splits prod.splits)
  next
    case (Inr r)
    then obtain t sy1 where "sync_add_local_input p i (fst (peer N p)) = Inr (t, sy1)"
      by (cases r) auto
    note n = net_tick [OF inv assms(2,3) this]
    then obtain sy' s' tml where r: "rb_tick d step ck p i (peer N p) = Some (Inr (t, (sy', s')))"
      "tml = map (spec_row d ((hists d n N p)[p := hist d (sent N p @ [(t, i)])]))
        [0..<Suc (nat (sy_current (fst (peer N p))))]"
      "rb_inv d step ck s0 p delay ((hists d n N p)[p := hist d (sent N p @ [(t, i)])]) tml sy' s'"
      "sy_current sy' = sy_current (fst (peer N p)) + 1" by blast
    have s': "s' = foldl step s0 tml" "sy_current sy' = int (length tml)"
      using r(3) by (simp_all add: rb_inv_def engine_at_def state_at_def)
    have "length tml = Suc (nat (sy_current (fst (peer N p))))" unfolding r(2) by simp
    then have "nat (sy_current sy') = Suc (nat (sy_current (fst (peer N p))))"
      by (simp only: s'(2) nat_int)
    then show ?thesis using r(1,4) s'(1) by (simp add: r(2) del: upt_Suc)
  qed
qed

theorem rollback_correct_witness:
  "case rb_tick 0 demo_step demo_ck 0 5 (peer (demo_net 4) 0) of
      None \<Rightarrow> False
    | Some (Inl e) \<Rightarrow> e = PredictionLimit \<and> 8 \<le> sync_frames_ahead (fst (peer (demo_net 4) 0))
    | Some (Inr (t, (sy', s'))) \<Rightarrow>
        sy_current sy' = sy_current (fst (peer (demo_net 4) 0)) + 1 \<and>
        s' = foldl demo_step 0 (map (spec_row 0 ((hists 0 2 (demo_net 4) 0)
               [0 := hist 0 (sent (demo_net 4) 0 @ [(t, 5)])])) [0..<nat (sy_current sy')])"
  by (rule rollback_correct [OF demo_net_reach(1)]) (simp_all add: QUEUE_LEN_def)

text \<open>C3: Peers agree on confirmed frames. Two peers with no misprediction pending (the state
  right after a frame step) that both hold the saved state of a frame and have both confirmed
  the frame before it hold the same state and the same checksum for it, so that the exchange of
  checksums reports no divergence.\<close>

theorem confirmed_states_agree:
  assumes "net_reach d step ck s0 n maxp delay N" and "2 * (maxp + delay) \<le> QUEUE_LEN"
    and "p < n" "q < n" "all_right (fst (peer N p))" "all_right (fst (peer N q))"
    and "int f \<le> sy_confirmed (fst (peer N p)) + 1" "int f \<le> sy_confirmed (fst (peer N q)) + 1"
    and "ss_by_frame (int f) (sy_saved (fst (peer N p))) = Some c"
    and "ss_by_frame (int f) (sy_saved (fst (peer N q))) = Some c'"
  shows "ss_cells (sy_saved (fst (peer N p))) ! c = ss_cells (sy_saved (fst (peer N q))) ! c'"
  using net_confirmed_cell [OF net_reach_inv [OF assms(1,2)] assms(3,5,7,9)]
    net_confirmed_cell [OF net_reach_inv [OF assms(1,2)] assms(4,6,8,10)] by simp

theorem confirmed_states_agree_witness:
  "ss_cells (sy_saved (fst (peer (demo_net 10) 0))) ! 1 =
   ss_cells (sy_saved (fst (peer (demo_net 10) 1))) ! 1"
  by (rule confirmed_states_agree [OF demo_net_reach(2), where f = 1])
    (simp_all add: QUEUE_LEN_def demo_net_converged)

text \<open>C18: The prediction window is respected: no peer is ever more than the maximal prediction
  past the first unconfirmed frame, and no two peers are more than that plus the input delay
  apart.\<close>

theorem prediction_window:
  assumes "net_reach d step ck s0 n maxp delay N" and "2 * (maxp + delay) \<le> QUEUE_LEN"
    and "p < n" "q < n"
  shows "sy_current (fst (peer N p)) \<le> sy_confirmed (fst (peer N p)) + 1 + int maxp \<and>
    sy_current (fst (peer N p)) \<le> sy_current (fst (peer N q)) + int (maxp + delay)"
  using net_window [OF net_reach_inv [OF assms(1,2)] assms(3)] assms(4) by blast

theorem prediction_window_witness:
  "sy_current (fst (peer (demo_net 4) 0)) \<le> sy_confirmed (fst (peer (demo_net 4) 0)) + 1 + int 8 \<and>
   sy_current (fst (peer (demo_net 4) 0)) \<le> sy_current (fst (peer (demo_net 4) 1)) + int (8 + 0)"
  by (rule prediction_window [OF demo_net_reach(1)]) (simp_all add: QUEUE_LEN_def)

text \<open>C4: A quiet match has converged. Once every input sent has been delivered, all peers are
  at the same frame and none has a misprediction pending, all games are in the state that the
  inputs the players filed determine.\<close>

theorem match_converges:
  assumes "net_reach d step ck s0 n maxp delay N" and "2 * (maxp + delay) \<le> QUEUE_LEN"
    and "\<And>p q. p < n \<Longrightarrow> q < n \<Longrightarrow> p \<noteq> q \<Longrightarrow> got N p q = length (sent N q)"
    and "\<And>p. p < n \<Longrightarrow> sy_current (fst (peer N p)) = k"
    and "\<And>p. p < n \<Longrightarrow> all_right (fst (peer N p))" and "p < n"
  shows "snd (peer N p) = foldl step s0 (map (agreed_row d n N) [0..<nat k])"
  by (rule net_quiescent_state [OF net_reach_inv [OF assms(1,2)]]) (use assms(3-6) in auto)

theorem match_converges_witness:
  "snd (peer (demo_net 10) 1) = foldl demo_step 0 (map (agreed_row 0 2 (demo_net 10)) [0..<nat 2])"
  by (rule match_converges [OF demo_net_reach(2)]) (simp_all add: QUEUE_LEN_def demo_net_converged)

text \<open>C19: The match does not get stuck. With a window of two frames, or of one and some input
  delay, the peer that is furthest behind can always step once it has received and confirmed
  what was sent to it.\<close>

theorem match_progress:
  assumes "net_reach d step ck s0 n maxp delay N" and "2 * (maxp + delay) \<le> QUEUE_LEN"
    and "1 \<le> maxp" "2 \<le> maxp + delay" and "p < n"
    and "\<And>q. q < n \<Longrightarrow> q \<noteq> p \<Longrightarrow> got N p q = length (sent N q)"
    and "\<And>q. q < n \<Longrightarrow> sy_current (fst (peer N p)) \<le> sy_current (fst (peer N q))"
    and "\<And>f. (\<And>q. q < n \<Longrightarrow> q \<noteq> p \<Longrightarrow> f \<le> last_received N p q) \<Longrightarrow>
      f \<le> sy_confirmed (fst (peer N p))"
  shows "\<exists>t g. rb_tick d step ck p i (peer N p) = Some (Inr (t, g))"
  by (rule net_progress [OF net_reach_inv [OF assms(1,2)] assms(5,2,3,4)]) (use assms(6-8) in auto)

theorem match_progress_witness:
  "\<exists>t g. rb_tick 0 demo_step demo_ck 0 7 (peer (demo_net 10) 0) = Some (Inr (t, g))"
proof (rule match_progress [OF demo_net_reach(2)])
  fix f assume "\<And>q. q < 2 \<Longrightarrow> q \<noteq> 0 \<Longrightarrow> f \<le> last_received (demo_net 10) 0 q"
  from this [of 1] show "f \<le> sy_confirmed (fst (peer (demo_net 10) 0))"
    using demo_net_last by (simp add: demo_net_converged)
qed (simp_all add: QUEUE_LEN_def demo_net_converged)

text \<open>Without that room it does. A window of zero, which the crate's documentation describes
  as the lockstep configuration, never runs a frame, and a window of one without input delay
  never runs a second one, whatever is delivered and confirmed.\<close>

theorem tight_window_stalls:
  assumes "net_reach d step ck s0 n maxp 0 N" and "2 \<le> n" and "maxp \<le> 1" and "p < n"
  shows "sy_current (fst (peer N p)) \<le> int maxp"
  using net_stall [OF assms(1-3)] assms(4) by blast

theorem tight_window_stalls_witness:
  "sy_current (fst (peer (net_init 0 (0::int) 2 1 0 :: (int, int) net) 1)) \<le> int 1"
  by (rule tight_window_stalls [OF net_reach_init [of 0 demo_step demo_ck 0 2 1 0]]) simp_all

end
