(* ===== verification/TimeSync.thy ===== *)
theory TimeSync
  imports Frames
begin

text \<open>
  Keeping two peers at one pace: \<open>fofoca-netplay/src/time_sync.rs\<close>. The window is a ring of
  the last \<open>WINDOW\<close> samples; the sums are \<open>i64\<close> over 40 \<open>i32\<close> values and cannot overflow, so
  they are \<open>int\<close>. The write cursor is a \<open>usize\<close> that wraps.
\<close>

definition WINDOW :: nat where "WINDOW = 40"

definition MIN_ADVANTAGE_TO_CORRECT :: int where "MIN_ADVANTAGE_TO_CORRECT = 2"

definition MAX_SKIP :: nat where "MAX_SKIP = 8"

record time_sync =
  ts_local :: "int list"
  ts_remote :: "int list"
  ts_next :: "64 word"

definition ts_default :: time_sync where
  "ts_default = \<lparr>ts_local = replicate WINDOW 0, ts_remote = replicate WINDOW 0, ts_next = 0\<rparr>"

definition ts_advance :: "int \<Rightarrow> int \<Rightarrow> time_sync \<Rightarrow> time_sync" where
  "ts_advance local_advantage remote_advantage ts =
     (let i = unat (ts_next ts) mod WINDOW in
      ts\<lparr>ts_local := (ts_local ts)[i := local_advantage],
         ts_remote := (ts_remote ts)[i := remote_advantage],
         ts_next := ts_next ts + 1\<rparr>)"

text \<open>Both divisions are of non-negative numbers, where \<open>div\<close> truncates as Rust does.\<close>

definition ts_recommend_skip :: "time_sync \<Rightarrow> nat" where
  "ts_recommend_skip ts =
     (let local = sum_list (ts_local ts); remote = sum_list (ts_remote ts) in
      if remote \<ge> local then 0
      else let lead_scaled = (local - remote) div 2; window = int WINDOW in
        if lead_scaled < MIN_ADVANTAGE_TO_CORRECT * window then 0
        else let whole_frames = lead_scaled div window in
          min (if 0 \<le> whole_frames \<and> whole_frames \<le> int u32_max then nat whole_frames
               else MAX_SKIP) MAX_SKIP)"

definition frame_advantage :: "frame \<Rightarrow> frame \<Rightarrow> int" where
  "frame_advantage current_frame last_received_frame = current_frame - last_received_frame"

subsection \<open>The window holds the last samples\<close>

lemma sum_list_update_int:
  "k < length xs \<Longrightarrow> sum_list (xs[k := x]) = sum_list xs + x - (xs ! k :: int)"
  by (induction xs arbitrary: k) (auto split: nat.split)

text \<open>The sum of the newest \<open>WINDOW\<close> samples, samples before the first being zero.\<close>

definition recent_sum :: "int list \<Rightarrow> int" where
  "recent_sum xs = sum_list (drop (length xs - WINDOW) xs)"

definition ring_of :: "int list \<Rightarrow> int list \<Rightarrow> bool" where
  "ring_of ring xs \<longleftrightarrow> length ring = WINDOW \<and>
     (\<forall>f < length xs. length xs \<le> f + WINDOW \<longrightarrow> ring ! (f mod WINDOW) = xs ! f) \<and>
     (\<forall>k < WINDOW. length xs \<le> k \<longrightarrow> ring ! k = 0)"

lemma WINDOW_pos [simp]: "0 < WINDOW"
  by (simp add: WINDOW_def)

lemma ring_of_advance:
  assumes "ring_of ring xs"
  shows "ring_of (ring[length xs mod WINDOW := x]) (xs @ [x])"
  unfolding ring_of_def
proof (intro conjI allI impI)
  fix f assume f: "f < length (xs @ [x])" "length (xs @ [x]) \<le> f + WINDOW"
  show "ring[length xs mod WINDOW := x] ! (f mod WINDOW) = (xs @ [x]) ! f"
  proof (cases "f = length xs")
    case False
    then have "f mod WINDOW \<noteq> length xs mod WINDOW"
      using mod_window_inj [of f WINDOW "length xs"] f by auto
    then show ?thesis using assms f False by (auto simp: ring_of_def nth_append)
  qed (use assms in \<open>simp add: ring_of_def\<close>)
qed (use assms in \<open>auto simp: ring_of_def\<close>)

lemma recent_sum_snoc:
  "recent_sum (xs @ [x]) = recent_sum xs + x -
     (if length xs < WINDOW then 0 else xs ! (length xs - WINDOW))"
proof (cases "length xs < WINDOW")
  case False
  then have "drop (length xs - WINDOW) xs =
      xs ! (length xs - WINDOW) # drop (Suc (length xs - WINDOW)) xs"
    by (intro Cons_nth_drop_Suc [symmetric]) (simp add: WINDOW_def)
  moreover have "Suc (length xs - WINDOW) = Suc (length xs) - WINDOW" using False by simp
  ultimately show ?thesis using False by (simp add: recent_sum_def WINDOW_def)
qed (simp add: recent_sum_def Suc_diff_le)

lemma ring_of_sum: "ring_of ring xs \<Longrightarrow> sum_list ring = recent_sum xs"
proof (induction xs arbitrary: ring rule: rev_induct)
  case Nil
  then have "ring = replicate WINDOW 0" by (auto simp: ring_of_def list_eq_iff_nth_eq)
  then show ?case by (simp add: recent_sum_def sum_list_replicate)
next
  case (snoc x xs)
  let ?i = "length xs mod WINDOW"
  define old where "old = (if length xs < WINDOW then 0 else xs ! (length xs - WINDOW))"
  have i: "?i < length ring" using snoc.prems by (simp add: ring_of_def)
  have "ring_of (ring[?i := old]) xs"
    unfolding ring_of_def
  proof (intro conjI allI impI)
    fix f assume f: "f < length xs" "length xs \<le> f + WINDOW"
    show "ring[?i := old] ! (f mod WINDOW) = xs ! f"
    proof (cases "length xs = f + WINDOW")
      case True
      then show ?thesis using i by (simp add: old_def)
    next
      case False
      then have "f mod WINDOW \<noteq> ?i" using mod_window_inj [of f WINDOW "length xs"] f by auto
      then show ?thesis using snoc.prems f False by (auto simp: ring_of_def nth_append)
    qed
  next
    fix k assume k: "k < WINDOW" "length xs \<le> k"
    then have "length xs < WINDOW" by simp
    with k show "ring[?i := old] ! k = 0"
      using snoc.prems i by (cases "k = ?i") (auto simp: ring_of_def old_def)
  qed (use snoc.prems in \<open>simp add: ring_of_def\<close>)
  then have IH: "sum_list (ring[?i := old]) = recent_sum xs" by (rule snoc.IH)
  have "\<forall>f < Suc (length xs). Suc (length xs) \<le> f + WINDOW \<longrightarrow> ring ! (f mod WINDOW) = (xs @ [x]) ! f"
    using snoc.prems by (simp add: ring_of_def)
  from this [THEN spec, of "length xs"] have x: "ring ! ?i = x"
    by (simp add: WINDOW_def)
  have "sum_list ((ring[?i := old])[?i := x]) = sum_list (ring[?i := old]) + x - old"
    using i by (simp add: sum_list_update_int)
  moreover have "(ring[?i := old])[?i := x] = ring" by (metis list_update_id list_update_overwrite x)
  ultimately show ?case using IH by (simp add: recent_sum_snoc old_def)
qed

definition ts_after :: "(int \<times> int) list \<Rightarrow> time_sync" where
  "ts_after xs = fold (\<lambda>(l, r). ts_advance l r) xs ts_default"

lemma ts_after_ring:
  "length xs < 2 ^ 64 \<Longrightarrow> ring_of (ts_local (ts_after xs)) (map fst xs) \<and>
     ring_of (ts_remote (ts_after xs)) (map snd xs) \<and>
     ts_next (ts_after xs) = of_nat (length xs)"
proof (induction xs rule: rev_induct)
  case Nil
  then show ?case by (auto simp: ts_after_def ts_default_def ring_of_def)
next
  case (snoc x xs)
  then have IH: "ring_of (ts_local (ts_after xs)) (map fst xs)"
      "ring_of (ts_remote (ts_after xs)) (map snd xs)"
      "ts_next (ts_after xs) = of_nat (length xs)" by simp_all
  have u: "unat (ts_next (ts_after xs)) = length xs"
    using IH(3) snoc.prems by (simp add: unat_of_nat take_bit_eq_mod)
  have "ts_after (xs @ [x]) = ts_advance (fst x) (snd x) (ts_after xs)"
    by (simp add: ts_after_def split_beta)
  then show ?case
    using ring_of_advance [OF IH(1), of "fst x"] ring_of_advance [OF IH(2), of "snd x"]
    by (simp add: ts_advance_def u [unfolded IH(3)] IH(3) Let_def)
qed

subsection \<open>Properties\<close>

text \<open>The skip recommendation is a function of the last 40 samples: with \<open>l\<close> and \<open>r\<close> the
  sums of our own and the peer's reported advantage over them, it is half the averaged lead in
  whole frames, at most 8, and 0 unless that is at least 2.\<close>

theorem recommend_skip_spec:
  assumes "length xs < 2 ^ 64"
  shows "ts_recommend_skip (ts_after xs) =
    (let lead = recent_sum (map fst xs) - recent_sum (map snd xs)
     in if lead < 160 then 0 else nat (min 8 (lead div 80)))"
proof -
  let ?l = "recent_sum (map fst xs)" and ?r = "recent_sum (map snd xs)"
  have sums: "sum_list (ts_local (ts_after xs)) = ?l" "sum_list (ts_remote (ts_after xs)) = ?r"
    using ts_after_ring [OF assms] by (auto intro: ring_of_sum)
  have div: "(?l - ?r) div 2 div 40 = (?l - ?r) div 80" using zdiv_zmult2_eq [of 40 "?l - ?r" 2] by simp
  show ?thesis
    unfolding ts_recommend_skip_def sums Let_def
    by (simp add: WINDOW_def MIN_ADVANTAGE_TO_CORRECT_def MAX_SKIP_def u32_max_def div)
      (auto simp: min_def)
qed

theorem recommend_skip_spec_witness:
  "ts_recommend_skip (ts_after (replicate 3 (100, 0))) =
    (let lead = recent_sum (map fst (replicate 3 (100 :: int, 0 :: int))) -
       recent_sum (map snd (replicate 3 (100 :: int, 0 :: int)))
     in if lead < 160 then 0 else nat (min 8 (lead div 80)))"
  by (rule recommend_skip_spec) simp

text \<open>Two peers that measure the same gap from both sides are never both told to yield.\<close>

theorem never_both_skip:
  assumes "ts_local b = ts_remote a" and "ts_remote b = ts_local a"
  shows "ts_recommend_skip a = 0 \<or> ts_recommend_skip b = 0"
  using assms by (simp add: ts_recommend_skip_def Let_def)

theorem never_both_skip_witness:
  "ts_recommend_skip (ts_after [(400, 7)]) = 0 \<or> ts_recommend_skip (ts_after [(7, 400)]) = 0"
  by (rule never_both_skip) (simp_all add: ts_after_def ts_advance_def ts_default_def Let_def)

end
