(* ===== verification/PeerProtocol.thy ===== *)
theory PeerProtocol
  imports TimeSync
begin

text \<open>
  One remote peer of a match: handshake, input exchange, liveness
  (\<open>fofoca-netplay/src/protocol.rs\<close>, packets from \<open>transport.rs\<close>). The state machine produces
  packets for the session to send and consumes received ones; it never touches the transport.
  \<open>replies\<close> of the source, an out-parameter, is returned. Counters that saturate at \<open>u32::MAX\<close>
  are \<open>nat\<close>s with the saturation written out; the handshake token is a \<open>32 word\<close>.
\<close>

subsection \<open>Packets\<close>

record 'i input_packet =
  ip_start_frame :: frame
  ip_ack_frame :: frame
  ip_inputs :: "'i list"

datatype 'i body =
    SyncRequest "32 word"
  | SyncReply "32 word"
  | Input "'i input_packet"
  | InputAck frame
  | QualityReport int nat
  | QualityReply nat
  | Checksum frame nat
  | KeepAlive

record 'i message =
  magic :: "32 word"
  body :: "'i body"

subsection \<open>State\<close>

definition SYNC_ROUNDTRIPS :: nat where "SYNC_ROUNDTRIPS = 5"
definition SYNC_RESEND_EVERY_TICKS :: nat where "SYNC_RESEND_EVERY_TICKS = 8"
definition DISCONNECT_TIMEOUT_TICKS :: nat where "DISCONNECT_TIMEOUT_TICKS = 600"
definition QUALITY_REPORT_INTERVAL :: nat where "QUALITY_REPORT_INTERVAL = 60"

datatype peer_state = Syncing | Running | Disconnected

datatype peer_event = Ev_Synchronized | Ev_Disconnected | Ev_Desync frame nat nat

record 'i peer_protocol =
  pp_handle :: nat
  pp_state :: peer_state
  pp_magic :: "32 word"
  pp_remote_magic :: "32 word option"
  pp_roundtrips_left :: nat
  pp_sync_token :: "32 word"
  pp_since_sync_request :: nat
  pp_last_received :: frame
  pp_last_acked :: frame
  pp_pending :: "(frame \<times> 'i) list"
  pp_silent_ticks :: nat
  pp_since_quality :: nat
  pp_remote_advantage :: int
  pp_time_sync :: time_sync
  pp_local_checksums :: "(frame \<times> nat) list"
  pp_foreign_magic_drops :: nat
  pp_stale_token_drops :: nat
  pp_unlatched_drops :: nat

unbundle bit_operations_syntax

definition pp_new :: "nat \<Rightarrow> 32 word \<Rightarrow> 'i peer_protocol" where
  "pp_new handle mg =
     \<lparr>pp_handle = handle, pp_state = Syncing, pp_magic = mg, pp_remote_magic = None,
      pp_roundtrips_left = SYNC_ROUNDTRIPS, pp_sync_token = mg XOR 0x5bf03635,
      pp_since_sync_request = 0, pp_last_received = NULL_FRAME, pp_last_acked = NULL_FRAME,
      pp_pending = [], pp_silent_ticks = 0, pp_since_quality = 0, pp_remote_advantage = 0,
      pp_time_sync = ts_default, pp_local_checksums = [], pp_foreign_magic_drops = 0,
      pp_stale_token_drops = 0, pp_unlatched_drops = 0\<rparr>"

subsection \<open>Operations\<close>

definition pp_recommend_skip :: "'i peer_protocol \<Rightarrow> nat" where
  "pp_recommend_skip pp =
     (if pp_state pp = Running then ts_recommend_skip (pp_time_sync pp) else 0)"

definition pp_send_input :: "frame \<Rightarrow> 'i \<Rightarrow> 'i peer_protocol \<Rightarrow> 'i peer_protocol" where
  "pp_send_input frame i pp = pp\<lparr>pp_pending := pp_pending pp @ [(frame, i)]\<rparr>"

definition pp_wrap :: "'i body \<Rightarrow> 'i peer_protocol \<Rightarrow> 'i message" where
  "pp_wrap b pp = \<lparr>magic = pp_magic pp, body = b\<rparr>"

definition pp_checksum_message ::
  "frame \<Rightarrow> nat \<Rightarrow> 'i peer_protocol \<Rightarrow> 'i message \<times> 'i peer_protocol" where
  "pp_checksum_message frame checksum pp =
     (let cs = pp_local_checksums pp @ [(frame, checksum)];
          pp' = pp\<lparr>pp_local_checksums := (if length cs > 64 then List.tl cs else cs)\<rparr>
      in (pp_wrap (Checksum frame checksum) pp', pp'))"

definition pp_input_message :: "'i peer_protocol \<Rightarrow> 'i message option \<times> 'i peer_protocol" where
  "pp_input_message pp =
     (let pending = filter (\<lambda>(frame, _). frame > pp_last_acked pp) (pp_pending pp);
          pp' = pp\<lparr>pp_pending := pending\<rparr>
      in case pending of
           [] \<Rightarrow> (None, pp')
         | (start, _) # _ \<Rightarrow>
             (Some (pp_wrap (Input \<lparr>ip_start_frame = start, ip_ack_frame = pp_last_received pp,
                ip_inputs = map snd pending\<rparr>) pp'), pp'))"

text \<open>\<open>Ord::clamp\<close> and the conversion to \<open>i8\<close>, which cannot fail after it.\<close>

definition clamp_i8 :: "int \<Rightarrow> int" where
  "clamp_i8 x = max (- 128) (min 127 x)"

definition pp_tick :: "frame \<Rightarrow> 'i peer_protocol \<Rightarrow>
    'i message list \<times> peer_event list \<times> 'i peer_protocol" where
  "pp_tick current pp0 =
     (let pp = pp0\<lparr>pp_silent_ticks := sat_add32 (pp_silent_ticks pp0) 1\<rparr> in
      if pp_state pp \<noteq> Disconnected \<and> pp_silent_ticks pp > DISCONNECT_TIMEOUT_TICKS
      then ([], [Ev_Disconnected], pp\<lparr>pp_state := Disconnected\<rparr>)
      else
        (case pp_state pp of
           Syncing \<Rightarrow>
             ((if pp_since_sync_request pp = 0
               then [pp_wrap (SyncRequest (pp_sync_token pp)) pp] else []), [],
              pp\<lparr>pp_since_sync_request :=
                   (pp_since_sync_request pp + 1) mod SYNC_RESEND_EVERY_TICKS\<rparr>)
         | Running \<Rightarrow>
             let (inp, pp1) = pp_input_message pp;
                 since = sat_add32 (pp_since_quality pp1) 1;
                 advantage = frame_advantage current (pp_last_received pp1);
                 due = since \<ge> QUALITY_REPORT_INTERVAL;
                 report = (if due then [pp_wrap (QualityReport (clamp_i8 advantage)
                             (pp_silent_ticks pp1)) pp1] else []);
                 pp2 = pp1\<lparr>pp_since_quality := (if due then 0 else since),
                           pp_time_sync := ts_advance advantage (pp_remote_advantage pp1)
                             (pp_time_sync pp1)\<rparr>
             in ((case inp of None \<Rightarrow> [] | Some m \<Rightarrow> [m]) @ report, [], pp2)
         | Disconnected \<Rightarrow> ([], [], pp)))"

definition pp_note_stale_reply :: "'i peer_protocol \<Rightarrow> 'i peer_protocol" where
  "pp_note_stale_reply pp =
     pp\<lparr>pp_stale_token_drops := sat_add32 (pp_stale_token_drops pp) 1\<rparr>"

text \<open>Whether a packet belongs to the peer's current session, with the replies and the state.\<close>

definition pp_admit :: "'i message \<Rightarrow> 'i peer_protocol \<Rightarrow>
    bool \<times> 'i message list \<times> 'i peer_protocol" where
  "pp_admit m pp =
     (case pp_remote_magic pp of
        Some known \<Rightarrow>
          if known \<noteq> magic m
          then (False, [], pp\<lparr>pp_foreign_magic_drops := sat_add32 (pp_foreign_magic_drops pp) 1\<rparr>)
          else (True, [], pp)
      | None \<Rightarrow>
          (case body m of
             SyncReply token \<Rightarrow>
               if pp_state pp = Syncing \<and> token = pp_sync_token pp
               then (True, [], pp\<lparr>pp_remote_magic := Some (magic m)\<rparr>)
               else (False, [], pp_note_stale_reply pp)
           | SyncRequest token \<Rightarrow>
               (False, (if pp_state pp = Syncing then [pp_wrap (SyncReply token) pp] else []), pp)
           | _ \<Rightarrow>
               (False, [], pp\<lparr>pp_unlatched_drops := sat_add32 (pp_unlatched_drops pp) 1\<rparr>)))"

definition next_token :: "32 word \<Rightarrow> 32 word" where
  "next_token t = t * 1664525 + 1"

text \<open>The inputs of a packet that are not filed yet, with their frames.\<close>

definition fresh_inputs :: "'i input_packet \<Rightarrow> frame \<Rightarrow> (frame \<times> 'i) list" where
  "fresh_inputs packet received =
     filter (\<lambda>(frame, _). frame > received)
       (map (\<lambda>(offset, i). (ip_start_frame packet + int offset, i))
         (enumerate 0 (ip_inputs packet)))"

definition pp_on_message :: "'i message \<Rightarrow> 'i peer_protocol \<Rightarrow>
    (frame \<times> 'i) list \<times> peer_event list \<times> 'i message list \<times> 'i peer_protocol" where
  "pp_on_message m pp0 =
     (let (ok, replies, pp1) = pp_admit m pp0 in
      if \<not> ok then ([], [], replies, pp1)
      else let pp = pp1\<lparr>pp_silent_ticks := 0\<rparr> in
        (case body m of
           SyncRequest token \<Rightarrow> ([], [], replies @ [pp_wrap (SyncReply token) pp], pp)
         | SyncReply token \<Rightarrow>
             if pp_state pp = Syncing \<and> token = pp_sync_token pp then
               let pp' = pp\<lparr>pp_roundtrips_left := pp_roundtrips_left pp - 1,
                            pp_sync_token := next_token (pp_sync_token pp),
                            pp_since_sync_request := 0\<rparr>
               in if pp_roundtrips_left pp' = 0
                  then ([], [Ev_Synchronized], replies, pp'\<lparr>pp_state := Running\<rparr>)
                  else ([], [], replies, pp')
             else if pp_state pp = Syncing then ([], [], replies, pp_note_stale_reply pp)
             else ([], [], replies, pp)
         | Input packet \<Rightarrow>
             let pp' = pp\<lparr>pp_last_acked := max (pp_last_acked pp) (ip_ack_frame packet)\<rparr> in
             if pp_last_received pp' \<noteq> NULL_FRAME
                \<and> ip_start_frame packet > pp_last_received pp' + 1
             then ([], [], replies, pp')
             else let inputs = fresh_inputs packet (pp_last_received pp');
                      pp'' = (if inputs = [] then pp'
                              else pp'\<lparr>pp_last_received := fst (last inputs)\<rparr>)
                  in (inputs, [], replies @ [pp_wrap (InputAck (pp_last_received pp'')) pp''], pp'')
         | InputAck ack \<Rightarrow> ([], [], replies, pp\<lparr>pp_last_acked := max (pp_last_acked pp) ack\<rparr>)
         | QualityReport advantage ping \<Rightarrow>
             let pp' = pp\<lparr>pp_remote_advantage := advantage\<rparr>
             in ([], [], replies @ [pp_wrap (QualityReply ping) pp'], pp')
         | QualityReply _ \<Rightarrow> ([], [], replies, pp)
         | KeepAlive \<Rightarrow> ([], [], replies, pp)
         | Checksum frame checksum \<Rightarrow>
             (case find (\<lambda>(seen, _). seen = frame) (pp_local_checksums pp) of
                None \<Rightarrow> ([], [], replies, pp)
              | Some (_, ours) \<Rightarrow>
                  ([], (if ours \<noteq> checksum then [Ev_Desync frame ours checksum] else []),
                   replies, pp))))"

subsection \<open>What a packet does to the state\<close>

lemma pp_admit_keeps [simp]:
  "pp_magic (snd (snd (pp_admit m pp))) = pp_magic pp"
  "pp_state (snd (snd (pp_admit m pp))) = pp_state pp"
  "pp_pending (snd (snd (pp_admit m pp))) = pp_pending pp"
  "pp_last_received (snd (snd (pp_admit m pp))) = pp_last_received pp"
  "pp_last_acked (snd (snd (pp_admit m pp))) = pp_last_acked pp"
  "pp_sync_token (snd (snd (pp_admit m pp))) = pp_sync_token pp"
  "pp_roundtrips_left (snd (snd (pp_admit m pp))) = pp_roundtrips_left pp"
  "pp_silent_ticks (snd (snd (pp_admit m pp))) = pp_silent_ticks pp"
  by (auto simp: pp_admit_def pp_note_stale_reply_def split: option.split body.split)

lemma pp_admit_ok:
  "fst (pp_admit m pp) \<longleftrightarrow> pp_remote_magic pp = Some (magic m) \<or>
     (pp_remote_magic pp = None \<and> body m = SyncReply (pp_sync_token pp) \<and> pp_state pp = Syncing)"
  by (auto simp: pp_admit_def split: option.split body.split)

lemma pp_admit_remote:
  "pp_remote_magic (snd (snd (pp_admit m pp))) =
     (if fst (pp_admit m pp) then Some (magic m) else pp_remote_magic pp)"
  by (auto simp: pp_admit_def pp_note_stale_reply_def split: option.split body.split)

lemma pp_admit_replies:
  "set (fst (snd (pp_admit m pp))) \<subseteq> {r. magic r = pp_magic pp \<and> (\<exists>t. body r = SyncReply t)}"
  by (auto simp: pp_admit_def pp_wrap_def split: option.split body.split)

lemma pp_on_message_unfold:
  "pp_on_message m pp0 =
     (if \<not> fst (pp_admit m pp0)
      then ([], [], fst (snd (pp_admit m pp0)), snd (snd (pp_admit m pp0)))
      else let replies = fst (snd (pp_admit m pp0));
               pp = (snd (snd (pp_admit m pp0)))\<lparr>pp_silent_ticks := 0\<rparr> in
        (case body m of
           SyncRequest token \<Rightarrow> ([], [], replies @ [pp_wrap (SyncReply token) pp], pp)
         | SyncReply token \<Rightarrow>
             if pp_state pp = Syncing \<and> token = pp_sync_token pp then
               let pp' = pp\<lparr>pp_roundtrips_left := pp_roundtrips_left pp - 1,
                            pp_sync_token := next_token (pp_sync_token pp),
                            pp_since_sync_request := 0\<rparr>
               in if pp_roundtrips_left pp' = 0
                  then ([], [Ev_Synchronized], replies, pp'\<lparr>pp_state := Running\<rparr>)
                  else ([], [], replies, pp')
             else if pp_state pp = Syncing then ([], [], replies, pp_note_stale_reply pp)
             else ([], [], replies, pp)
         | Input packet \<Rightarrow>
             let pp' = pp\<lparr>pp_last_acked := max (pp_last_acked pp) (ip_ack_frame packet)\<rparr> in
             if pp_last_received pp' \<noteq> NULL_FRAME
                \<and> ip_start_frame packet > pp_last_received pp' + 1
             then ([], [], replies, pp')
             else let inputs = fresh_inputs packet (pp_last_received pp');
                      pp'' = (if inputs = [] then pp'
                              else pp'\<lparr>pp_last_received := fst (last inputs)\<rparr>)
                  in (inputs, [], replies @ [pp_wrap (InputAck (pp_last_received pp'')) pp''], pp'')
         | InputAck ack \<Rightarrow> ([], [], replies, pp\<lparr>pp_last_acked := max (pp_last_acked pp) ack\<rparr>)
         | QualityReport advantage ping \<Rightarrow>
             let pp' = pp\<lparr>pp_remote_advantage := advantage\<rparr>
             in ([], [], replies @ [pp_wrap (QualityReply ping) pp'], pp')
         | QualityReply _ \<Rightarrow> ([], [], replies, pp)
         | KeepAlive \<Rightarrow> ([], [], replies, pp)
         | Checksum frame checksum \<Rightarrow>
             (case find (\<lambda>(seen, _). seen = frame) (pp_local_checksums pp) of
                None \<Rightarrow> ([], [], replies, pp)
              | Some (_, ours) \<Rightarrow>
                  ([], (if ours \<noteq> checksum then [Ev_Desync frame ours checksum] else []),
                   replies, pp))))"
  by (simp add: pp_on_message_def split_beta Let_def)

abbreviation om_inputs where "om_inputs m pp \<equiv> fst (pp_on_message m pp)"
abbreviation om_events where "om_events m pp \<equiv> fst (snd (pp_on_message m pp))"
abbreviation om_replies where "om_replies m pp \<equiv> fst (snd (snd (pp_on_message m pp)))"
abbreviation om_state where "om_state m pp \<equiv> snd (snd (snd (pp_on_message m pp)))"

lemma pp_on_message_rejected:
  "\<not> fst (pp_admit m pp) \<Longrightarrow> om_inputs m pp = [] \<and> om_events m pp = [] \<and>
     om_replies m pp = fst (snd (pp_admit m pp)) \<and> om_state m pp = snd (snd (pp_admit m pp))"
  by (simp add: pp_on_message_unfold)

lemma pp_on_message_keeps [simp]:
  "pp_magic (om_state m pp) = pp_magic pp"
  "pp_pending (om_state m pp) = pp_pending pp"
  by (auto simp: pp_on_message_unfold Let_def pp_note_stale_reply_def split: body.split option.split)

lemma pp_on_message_remote:
  "pp_remote_magic (om_state m pp) = (if fst (pp_admit m pp) then Some (magic m) else pp_remote_magic pp)"
  by (auto simp: pp_on_message_unfold pp_admit_remote Let_def pp_note_stale_reply_def
      split: body.split option.split)

lemma pp_on_message_acked:
  "pp_last_acked (om_state m pp) =
     (if fst (pp_admit m pp) then
        (case body m of Input p \<Rightarrow> max (pp_last_acked pp) (ip_ack_frame p)
         | InputAck f \<Rightarrow> max (pp_last_acked pp) f
         | _ \<Rightarrow> pp_last_acked pp)
      else pp_last_acked pp)"
  by (auto simp: pp_on_message_unfold Let_def pp_note_stale_reply_def split: body.split option.split)

definition takes_input :: "'i message \<Rightarrow> 'i peer_protocol \<Rightarrow> 'i input_packet \<Rightarrow> bool" where
  "takes_input m pp p \<longleftrightarrow> fst (pp_admit m pp) \<and> body m = Input p \<and>
     \<not> (pp_last_received pp \<noteq> NULL_FRAME \<and> ip_start_frame p > pp_last_received pp + 1)"

lemma pp_on_message_takes:
  assumes "takes_input m pp p"
  shows "om_inputs m pp = fresh_inputs p (pp_last_received pp)"
    and "pp_last_received (om_state m pp) =
      (if fresh_inputs p (pp_last_received pp) = [] then pp_last_received pp
       else fst (last (fresh_inputs p (pp_last_received pp))))"
  using assms by (auto simp: takes_input_def pp_on_message_unfold Let_def)

lemma pp_on_message_takes_not:
  assumes "\<And>p. \<not> takes_input m pp p"
  shows "om_inputs m pp = []" and "pp_last_received (om_state m pp) = pp_last_received pp"
  using assms unfolding takes_input_def
  by (auto simp: pp_on_message_unfold Let_def pp_note_stale_reply_def split: body.split option.split)

text \<open>Every reply carries our nonce; an acknowledgement is of what has been received.\<close>

lemma pp_on_message_replies:
  "r \<in> set (om_replies m pp) \<Longrightarrow> magic r = pp_magic pp \<and>
     (body r = InputAck (pp_last_received (om_state m pp)) \<or> (\<exists>t. body r = SyncReply t) \<or>
      (\<exists>t. body r = QualityReply t))"
  using pp_admit_replies [of m pp]
  by (auto simp: pp_on_message_unfold Let_def pp_wrap_def pp_note_stale_reply_def
      split: body.splits option.splits if_splits)

text \<open>The state machine: what can change it.\<close>

definition accepts_reply :: "'i message \<Rightarrow> 'i peer_protocol \<Rightarrow> bool" where
  "accepts_reply m pp \<longleftrightarrow> pp_state pp = Syncing \<and> body m = SyncReply (pp_sync_token pp) \<and>
     (pp_remote_magic pp = None \<or> pp_remote_magic pp = Some (magic m))"

lemma pp_on_message_handshake:
  "pp_sync_token (om_state m pp) =
     (if accepts_reply m pp then next_token (pp_sync_token pp) else pp_sync_token pp)"
  "pp_roundtrips_left (om_state m pp) =
     (if accepts_reply m pp then pp_roundtrips_left pp - 1 else pp_roundtrips_left pp)"
  "pp_state (om_state m pp) =
     (if accepts_reply m pp \<and> pp_roundtrips_left pp \<le> 1 then Running else pp_state pp)"
  by (auto simp: pp_on_message_unfold pp_admit_ok accepts_reply_def Let_def pp_note_stale_reply_def
      split: body.split option.split)

subsection \<open>What a tick does\<close>

abbreviation tick_out where "tick_out f pp \<equiv> fst (pp_tick f pp)"
abbreviation tick_events where "tick_events f pp \<equiv> fst (snd (pp_tick f pp))"
abbreviation tick_state where "tick_state f pp \<equiv> snd (snd (pp_tick f pp))"

lemma pp_input_message_keeps [simp]:
  "pp_magic (snd (pp_input_message pp)) = pp_magic pp"
  "pp_state (snd (pp_input_message pp)) = pp_state pp"
  "pp_last_received (snd (pp_input_message pp)) = pp_last_received pp"
  "pp_last_acked (snd (pp_input_message pp)) = pp_last_acked pp"
  "pp_sync_token (snd (pp_input_message pp)) = pp_sync_token pp"
  "pp_roundtrips_left (snd (pp_input_message pp)) = pp_roundtrips_left pp"
  "pp_remote_magic (snd (pp_input_message pp)) = pp_remote_magic pp"
  "pp_silent_ticks (snd (pp_input_message pp)) = pp_silent_ticks pp"
  "pp_pending (snd (pp_input_message pp)) =
     filter (\<lambda>(frame, _). frame > pp_last_acked pp) (pp_pending pp)"
  by (auto simp: pp_input_message_def Let_def split: list.split)

definition times_out :: "'i peer_protocol \<Rightarrow> bool" where
  "times_out pp \<longleftrightarrow> pp_state pp \<noteq> Disconnected \<and>
     sat_add32 (pp_silent_ticks pp) 1 > DISCONNECT_TIMEOUT_TICKS"

lemma pp_tick_keeps [simp]:
  "pp_magic (tick_state f pp) = pp_magic pp"
  "pp_last_received (tick_state f pp) = pp_last_received pp"
  "pp_last_acked (tick_state f pp) = pp_last_acked pp"
  "pp_sync_token (tick_state f pp) = pp_sync_token pp"
  "pp_roundtrips_left (tick_state f pp) = pp_roundtrips_left pp"
  "pp_remote_magic (tick_state f pp) = pp_remote_magic pp"
  "pp_silent_ticks (tick_state f pp) = sat_add32 (pp_silent_ticks pp) 1"
  "pp_state (tick_state f pp) = (if times_out pp then Disconnected else pp_state pp)"
  by (auto simp: pp_tick_def times_out_def split_beta Let_def split: peer_state.split)

lemma pp_tick_pending:
  "pp_pending (tick_state f pp) =
     (if pp_state pp = Running \<and> \<not> times_out pp
      then filter (\<lambda>(frame, _). frame > pp_last_acked pp) (pp_pending pp) else pp_pending pp)"
  by (auto simp: pp_tick_def times_out_def split_beta Let_def split: peer_state.split)

lemma pp_tick_events: "tick_events f pp = (if times_out pp then [Ev_Disconnected] else [])"
  by (auto simp: pp_tick_def times_out_def split_beta Let_def split: peer_state.split)

text \<open>What a tick sends: at most one packet of inputs, all that is not acked.\<close>

lemma pp_tick_out:
  assumes "r \<in> set (tick_out f pp)"
  shows "magic r = pp_magic pp"
    and "body r = Input p \<Longrightarrow> pp_state pp = Running \<and>
      filter (\<lambda>(frame, _). frame > pp_last_acked pp) (pp_pending pp) \<noteq> [] \<and>
      ip_start_frame p = fst (hd (filter (\<lambda>(frame, _). frame > pp_last_acked pp) (pp_pending pp))) \<and>
      ip_inputs p = map snd (filter (\<lambda>(frame, _). frame > pp_last_acked pp) (pp_pending pp)) \<and>
      ip_ack_frame p = pp_last_received pp"
    and "body r \<noteq> InputAck g"
  using assms
  by (auto simp: pp_tick_def pp_wrap_def pp_input_message_def split_beta Let_def
      split: peer_state.splits if_splits option.splits list.splits)

lemma pp_tick_sends:
  assumes "pp_state pp = Running" "\<not> times_out pp"
    "filter (\<lambda>(frame, _). frame > pp_last_acked pp) (pp_pending pp) = (s, i) # rest"
  shows "\<exists>r \<in> set (tick_out f pp). \<exists>p. body r = Input p \<and> magic r = pp_magic pp \<and>
    ip_start_frame p = s \<and> ip_inputs p = i # map snd rest"
  using assms
  by (auto simp: pp_tick_def times_out_def pp_wrap_def pp_input_message_def split_beta Let_def)

subsection \<open>Runs\<close>

datatype 'i pp_op = Op_send frame 'i | Op_checksum frame nat | Op_tick frame | Op_packet "'i message"

fun pp_step :: "'i pp_op \<Rightarrow> 'i peer_protocol \<Rightarrow> 'i peer_protocol" where
  "pp_step (Op_send f i) pp = pp_send_input f i pp"
| "pp_step (Op_checksum f c) pp = snd (pp_checksum_message f c pp)"
| "pp_step (Op_tick f) pp = tick_state f pp"
| "pp_step (Op_packet m) pp = om_state m pp"

definition pp_run :: "'i pp_op list \<Rightarrow> 'i peer_protocol \<Rightarrow> 'i peer_protocol" where
  "pp_run ops pp = fold pp_step ops pp"

lemma pp_run_simps [simp]:
  "pp_run [] pp = pp"
  "pp_run (ops @ [x]) pp = pp_step x (pp_run ops pp)"
  by (simp_all add: pp_run_def)

text \<open>The tokens of the replies that a run counts.\<close>

fun counted_tokens :: "'i pp_op list \<Rightarrow> 'i peer_protocol \<Rightarrow> 32 word list" where
  "counted_tokens [] pp = []"
| "counted_tokens (x # xs) pp =
     (case x of Op_packet m \<Rightarrow> (if accepts_reply m pp then [pp_sync_token pp] else [])
      | _ \<Rightarrow> []) @ counted_tokens xs (pp_step x pp)"

lemma counted_tokens_snoc:
  "counted_tokens (xs @ [x]) pp = counted_tokens xs pp @
     (case x of Op_packet m \<Rightarrow>
        (if accepts_reply m (pp_run xs pp) then [pp_sync_token (pp_run xs pp)] else [])
      | _ \<Rightarrow> [])"
  by (induction xs arbitrary: pp) (auto simp: pp_run_def split: pp_op.split)

text \<open>The token sequence does not repeat within a handshake: modulo 8 it is a single cycle.\<close>

lemma next_token_mod8: "uint (next_token t) mod 8 = (uint t * 5 + 1) mod 8"
proof -
  have "uint (next_token t) = (uint t * 1664525 + 1) mod 2 ^ 32"
    by (simp add: next_token_def uint_word_ariths uint_word_of_int_eq mod_simps)
  then have "uint (next_token t) mod 8 = (uint t * 1664525 + 1) mod 8"
    by (simp add: mod_mod_cancel)
  also have "uint t * 1664525 + 1 = (uint t * 5 + 1) + 8 * (uint t * 208065)" by simp
  finally show ?thesis by (simp only: mod_mult_self2)
qed

definition residue_step :: "int \<Rightarrow> int" where
  "residue_step r = (r * 5 + 1) mod 8"

lemma residue_cycle:
  "list_all (\<lambda>r. list_all (\<lambda>j. (residue_step ^^ j) r \<noteq> r) [1, 2, 3, 4]) [0, 1, 2, 3, 4, 5, 6, 7]"
  by code_simp

lemma next_token_residue: "uint ((next_token ^^ j) t) mod 8 = (residue_step ^^ j) (uint t mod 8)"
proof (induction j)
  case (Suc j)
  have "uint (next_token s) mod 8 = residue_step (uint s mod 8)" for s
    unfolding residue_step_def by (metis mod_add_left_eq mod_mult_left_eq next_token_mod8)
  with Suc show ?case by simp
qed simp

lemma next_token_cycle:
  assumes "0 < j" "j \<le> 4" shows "(next_token ^^ j) t \<noteq> t"
proof
  assume "(next_token ^^ j) t = t"
  then have "(residue_step ^^ j) (uint t mod 8) = uint t mod 8"
    using next_token_residue [of j t] by simp
  moreover have "uint t mod 8 \<in> set [0, 1, 2, 3, 4, 5, 6, 7]"
  proof -
    have "0 \<le> uint t mod 8" "uint t mod 8 < 8" by simp_all
    then show ?thesis by (simp; presburger)
  qed
  moreover have "j \<in> set [1, 2, 3, 4]" using assms by auto
  ultimately show False using residue_cycle unfolding list_all_iff by blast
qed

lemma token_distinct:
  assumes "n \<le> 5" shows "distinct (map (\<lambda>k. (next_token ^^ k) t) [0..<n])"
proof -
  have "(next_token ^^ i) t \<noteq> (next_token ^^ j) t" if "i < j" "j < n" for i j
  proof -
    have "(next_token ^^ (j - i)) ((next_token ^^ i) t) = (next_token ^^ j) t"
      using that by (simp add: funpow_add [symmetric, THEN fun_cong, unfolded comp_def])
    moreover have "(next_token ^^ (j - i)) ((next_token ^^ i) t) \<noteq> (next_token ^^ i) t"
      by (rule next_token_cycle) (use that assms in auto)
    ultimately show ?thesis by metis
  qed
  then have "inj_on (\<lambda>k. (next_token ^^ k) t) {0..<n}"
    by (intro inj_onI) (metis atLeastLessThan_iff linorder_neqE_nat)
  then show ?thesis by (simp add: distinct_map)
qed

definition handshake_inv :: "32 word \<Rightarrow> 32 word list \<Rightarrow> 'i peer_protocol \<Rightarrow> bool" where
  "handshake_inv t0 acc pp \<longleftrightarrow>
     acc = map (\<lambda>k. (next_token ^^ k) t0) [0..<length acc] \<and>
     pp_sync_token pp = (next_token ^^ length acc) t0 \<and>
     length acc + pp_roundtrips_left pp = SYNC_ROUNDTRIPS \<and>
     (pp_state pp = Running \<longrightarrow> pp_roundtrips_left pp = 0) \<and>
     (pp_state pp = Syncing \<longrightarrow> 0 < pp_roundtrips_left pp)"

lemma handshake_run:
  "handshake_inv (mg XOR 0x5bf03635) (counted_tokens ops (pp_new h mg)) (pp_run ops (pp_new h mg))"
proof (induction ops rule: rev_induct)
  case Nil
  then show ?case by (simp add: handshake_inv_def pp_new_def SYNC_ROUNDTRIPS_def)
next
  case (snoc x xs)
  show ?case
  proof (cases x)
    case (Op_packet m)
    then show ?thesis
      using snoc.IH
      by (auto simp: counted_tokens_snoc handshake_inv_def pp_on_message_handshake
          accepts_reply_def)
  next
    case (Op_checksum f c)
    then show ?thesis
      using snoc.IH
      by (auto simp: counted_tokens_snoc handshake_inv_def pp_checksum_message_def Let_def)
  qed (use snoc.IH in \<open>auto simp: counted_tokens_snoc handshake_inv_def pp_send_input_def\<close>)
qed

subsection \<open>Filing the inputs of a packet\<close>

lemma fresh_inputs_eq:
  "fresh_inputs p l = map (\<lambda>k. (ip_start_frame p + int k, ip_inputs p ! k))
     [nat (l + 1 - ip_start_frame p)..<length (ip_inputs p)]"
proof -
  let ?s = "ip_start_frame p" and ?xs = "ip_inputs p"
  have "map (\<lambda>(offset, i). (?s + int offset, i)) (enumerate 0 ?xs) =
      map (\<lambda>k. (?s + int k, ?xs ! k)) [0..<length ?xs]"
    by (rule nth_equalityI) (auto simp: nth_enumerate_eq)
  then have "fresh_inputs p l =
      map (\<lambda>k. (?s + int k, ?xs ! k)) (filter (\<lambda>k. ?s + int k > l) [0..<length ?xs])"
    by (simp add: fresh_inputs_def filter_map comp_def)
  moreover have "filter (\<lambda>k. ?s + int k > l) [0..<n] = [nat (l + 1 - ?s)..<n]" for n
    by (induction n) auto
  ultimately show ?thesis by simp
qed

fun delivered :: "'i pp_op list \<Rightarrow> 'i peer_protocol \<Rightarrow> (frame \<times> 'i) list" where
  "delivered [] pp = []"
| "delivered (x # xs) pp =
     (case x of Op_packet m \<Rightarrow> om_inputs m pp | _ \<Rightarrow> []) @ delivered xs (pp_step x pp)"

lemma delivered_snoc:
  "delivered (xs @ [x]) pp = delivered xs pp @
     (case x of Op_packet m \<Rightarrow> om_inputs m (pp_run xs pp) | _ \<Rightarrow> [])"
  by (induction xs arbitrary: pp) (auto simp: pp_run_def split: pp_op.split)

lemma pp_step_last_received:
  "(\<And>m. x \<noteq> Op_packet m) \<Longrightarrow> pp_last_received (pp_step x pp) = pp_last_received pp"
  by (cases x) (auto simp: pp_send_input_def pp_checksum_message_def Let_def)

text \<open>The frames of a run of consecutive inputs.\<close>

definition frames_from :: "frame \<Rightarrow> nat \<Rightarrow> frame list" where
  "frames_from f n = map (\<lambda>k. f + int k) [0..<n]"

lemma frames_from_append: "frames_from f m @ frames_from (f + int m) n = frames_from f (m + n)"
  by (induction n) (simp_all add: frames_from_def add.assoc)

lemma fresh_inputs_frames:
  "map fst (fresh_inputs p l) =
     frames_from (ip_start_frame p + int (nat (l + 1 - ip_start_frame p)))
       (length (ip_inputs p) - nat (l + 1 - ip_start_frame p))"
proof -
  have "map (\<lambda>k. s + int k) [a..<b] = frames_from (s + int a) (b - a)" for a b and s :: int
    by (rule nth_equalityI) (simp_all add: frames_from_def)
  then show ?thesis by (simp add: fresh_inputs_eq comp_def)
qed

definition filed_to :: "(frame \<times> 'i) list \<Rightarrow> frame \<Rightarrow> bool" where
  "filed_to xs l \<longleftrightarrow>
     (if xs = [] then l = NULL_FRAME
      else 0 \<le> fst (hd xs) \<and> map fst xs = frames_from (fst (hd xs)) (length xs) \<and>
        l = fst (hd xs) + int (length xs) - 1)"

lemma filed_to_append:
  assumes "filed_to xs l" "takes_input m pp p" "pp_last_received pp = l"
  shows "filed_to (xs @ om_inputs m pp) (pp_last_received (om_state m pp))"
proof -
  let ?ys = "fresh_inputs p l" and ?s = "ip_start_frame p"
  note t = pp_on_message_takes [OF assms(2), unfolded assms(3)]
  show ?thesis
  proof (cases "?ys = []")
    case True
    then show ?thesis using assms(1) t by simp
  next
    case False
    define a where "a = nat (l + 1 - ?s)"
    have fr: "map fst ?ys = frames_from (?s + int a) (length ?ys)"
      using fresh_inputs_frames [of p l] by (simp add: a_def fresh_inputs_eq)
    have hd: "fst (hd ?ys) = ?s + int a"
      using False by (simp add: fresh_inputs_eq a_def hd_map)
    have last: "fst (last ?ys) = ?s + int a + int (length ?ys) - 1"
      using False by (simp add: fresh_inputs_eq a_def last_map)
    show ?thesis
    proof (cases "xs = []")
      case True
      then have "l = NULL_FRAME" using assms(1) by (simp add: filed_to_def)
      then have "0 \<le> ?s + int a" by (simp add: a_def NULL_FRAME_def)
      then show ?thesis using True False t fr hd last by (simp add: filed_to_def)
    next
      case nonempty: False
      then have l: "0 \<le> fst (hd xs)" "map fst xs = frames_from (fst (hd xs)) (length xs)"
          "l = fst (hd xs) + int (length xs) - 1"
        using assms(1) by (auto simp: filed_to_def)
      then have "l \<noteq> NULL_FRAME" using nonempty by (cases xs) (auto simp: NULL_FRAME_def)
      then have "?s \<le> l + 1" using assms(2,3) by (auto simp: takes_input_def)
      then have "?s + int a = fst (hd xs) + int (length xs)" using l(3) by (simp add: a_def)
      then have "map fst (xs @ ?ys) = frames_from (fst (hd xs)) (length (xs @ ?ys))"
        using frames_from_append fr l(2) by simp
      then show ?thesis
        using nonempty False t last l \<open>?s + int a = fst (hd xs) + int (length xs)\<close>
        by (simp add: filed_to_def)
    qed
  qed
qed

lemma delivered_filed:
  "filed_to (delivered ops (pp_new h mg)) (pp_last_received (pp_run ops (pp_new h mg)))"
proof (induction ops rule: rev_induct)
  case Nil
  then show ?case by (simp add: filed_to_def pp_new_def)
next
  case (snoc x xs)
  show ?case
  proof (cases "\<exists>m. x = Op_packet m")
    case True
    then obtain m where x: "x = Op_packet m" by blast
    show ?thesis
    proof (cases "\<exists>p. takes_input m (pp_run xs (pp_new h mg)) p")
      case True
      then show ?thesis using filed_to_append [OF snoc.IH _ refl] by (auto simp: x delivered_snoc)
    next
      case False
      then show ?thesis using snoc.IH pp_on_message_takes_not by (force simp: x delivered_snoc)
    qed
  next
    case False
    then have "pp_last_received (pp_step x (pp_run xs (pp_new h mg))) =
        pp_last_received (pp_run xs (pp_new h mg))"
      by (intro pp_step_last_received) blast
    then show ?thesis using snoc.IH False by (auto simp: delivered_snoc split: pp_op.split)
  qed
qed

subsection \<open>Silence\<close>

lemma quiet_ticks:
  "pp_state pp \<noteq> Disconnected \<Longrightarrow> pp_silent_ticks pp = 0 \<Longrightarrow>
   (pp_state (fold tick_state fs pp) = Disconnected \<longleftrightarrow> 600 < length fs) \<and>
   pp_silent_ticks (fold tick_state fs pp) = min u32_max (length fs)"
  by (induction fs rule: rev_induct)
    (auto simp: times_out_def DISCONNECT_TIMEOUT_TICKS_def sat_add32_def u32_max_def min_def)

lemma pp_on_message_silent:
  "fst (pp_admit m pp) \<Longrightarrow> pp_silent_ticks (om_state m pp) = 0"
  by (auto simp: pp_on_message_unfold Let_def pp_note_stale_reply_def split: body.split option.split)

subsection \<open>Two endpoints and a lossy channel\<close>

text \<open>
  Endpoint \<open>a\<close> sends inputs to endpoint \<open>b\<close>. The channel keeps every packet ever sent: a packet
  may be delivered at any later time, any number of times, in any order, or never. Packets of
  another session (another nonce; a reply would need the token too) can arrive at any time.
  \<open>lk_sent\<close> is the log of what \<open>a\<close> was given to send, \<open>lk_filed\<close> of what \<open>b\<close> handed on.
\<close>

record 'i link =
  lk_a :: "'i peer_protocol"
  lk_b :: "'i peer_protocol"
  lk_ab :: "'i message list"
  lk_ba :: "'i message list"
  lk_sent :: "(frame \<times> 'i) list"
  lk_filed :: "(frame \<times> 'i) list"

definition foreign :: "'i message \<Rightarrow> 32 word \<Rightarrow> bool" where
  "foreign m mg \<longleftrightarrow> magic m \<noteq> mg \<and> (\<forall>t. body m \<noteq> SyncReply t)"

inductive link_step :: "nat \<Rightarrow> 'i link \<Rightarrow> 'i link \<Rightarrow> bool" for delay where
  a_send: "f = int (delay + length (lk_sent L)) \<Longrightarrow>
    link_step delay L (L\<lparr>lk_a := pp_send_input f i (lk_a L), lk_sent := lk_sent L @ [(f, i)]\<rparr>)"
| b_send: "link_step delay L (L\<lparr>lk_b := pp_send_input f i (lk_b L)\<rparr>)"
| a_tick: "link_step delay L
    (L\<lparr>lk_a := tick_state f (lk_a L), lk_ab := lk_ab L @ tick_out f (lk_a L)\<rparr>)"
| b_tick: "link_step delay L
    (L\<lparr>lk_b := tick_state f (lk_b L), lk_ba := lk_ba L @ tick_out f (lk_b L)\<rparr>)"
| a_receive: "m \<in> set (lk_ba L) \<or> foreign m (pp_magic (lk_b L)) \<Longrightarrow>
    link_step delay L
      (L\<lparr>lk_a := om_state m (lk_a L), lk_ab := lk_ab L @ om_replies m (lk_a L)\<rparr>)"
| b_receive: "m \<in> set (lk_ab L) \<or> foreign m (pp_magic (lk_a L)) \<Longrightarrow>
    link_step delay L
      (L\<lparr>lk_b := om_state m (lk_b L), lk_ba := lk_ba L @ om_replies m (lk_b L),
         lk_filed := lk_filed L @ om_inputs m (lk_b L)\<rparr>)"

definition link_init :: "nat \<Rightarrow> 32 word \<Rightarrow> nat \<Rightarrow> 32 word \<Rightarrow> 'i link" where
  "link_init ha ma hb mb =
     \<lparr>lk_a = pp_new ha ma, lk_b = pp_new hb mb, lk_ab = [], lk_ba = [], lk_sent = [], lk_filed = []\<rparr>"

inductive link_reach :: "nat \<Rightarrow> nat \<Rightarrow> 32 word \<Rightarrow> nat \<Rightarrow> 32 word \<Rightarrow> 'i link \<Rightarrow> bool"
  for delay ha ma hb mb where
  link_start: "link_reach delay ha ma hb mb (link_init ha ma hb mb)"
| link_more: "link_reach delay ha ma hb mb L \<Longrightarrow> link_step delay L L' \<Longrightarrow>
    link_reach delay ha ma hb mb L'"

text \<open>The frame a log of \<open>k\<close> inputs ends with.\<close>

definition log_end :: "nat \<Rightarrow> nat \<Rightarrow> frame" where
  "log_end delay k = (if k = 0 then NULL_FRAME else int (delay + k) - 1)"

lemma log_end_mono: "k \<le> k' \<Longrightarrow> log_end delay k \<le> log_end delay k'"
  by (auto simp: log_end_def NULL_FRAME_def)

definition packet_ok :: "nat \<Rightarrow> (frame \<times> 'i) list \<Rightarrow> nat \<Rightarrow> 'i input_packet \<Rightarrow> bool" where
  "packet_ok delay sent k p \<longleftrightarrow>
     (\<exists>j n. j \<le> k \<and> j + n \<le> length sent \<and> 0 < n \<and> ip_start_frame p = int (delay + j) \<and>
        ip_inputs p = map snd (take n (drop j sent)))"

definition link_inv :: "nat \<Rightarrow> 'i link \<Rightarrow> bool" where
  "link_inv delay L \<longleftrightarrow>
     (let k = length (lk_filed L) in
      log_ok delay (lk_sent L) \<and>
      lk_filed L = take k (lk_sent L) \<and>
      pp_last_received (lk_b L) = log_end delay k \<and>
      pp_last_acked (lk_a L) \<le> log_end delay k \<and>
      (\<exists>j \<le> k. pp_pending (lk_a L) = drop j (lk_sent L)) \<and>
      (\<forall>m \<in> set (lk_ab L). magic m = pp_magic (lk_a L)) \<and>
      (\<forall>m \<in> set (lk_ba L). magic m = pp_magic (lk_b L)) \<and>
      pp_remote_magic (lk_a L) \<in> {None, Some (pp_magic (lk_b L))} \<and>
      pp_remote_magic (lk_b L) \<in> {None, Some (pp_magic (lk_a L))} \<and>
      (\<forall>m \<in> set (lk_ab L). \<forall>p. body m = Input p \<longrightarrow> packet_ok delay (lk_sent L) k p) \<and>
      (\<forall>m \<in> set (lk_ba L). \<forall>p. body m = Input p \<longrightarrow> ip_ack_frame p \<le> log_end delay k) \<and>
      (\<forall>m \<in> set (lk_ba L). \<forall>f. body m = InputAck f \<longrightarrow> f \<le> log_end delay k))"

lemma packet_ok_mono:
  "packet_ok delay sent k p \<Longrightarrow> k \<le> k' \<Longrightarrow> packet_ok delay (sent @ xs) k' p"
proof -
  assume "packet_ok delay sent k p" and k: "k \<le> k'"
  then obtain j n where "j \<le> k" "j + n \<le> length sent" "0 < n" "ip_start_frame p = int (delay + j)"
    "ip_inputs p = map snd (take n (drop j sent))"
    unfolding packet_ok_def by blast
  then show ?thesis unfolding packet_ok_def
    by (intro exI [of _ j] exI [of _ n]) (use k in auto)
qed

text \<open>What an unacked suffix of the log is.\<close>

lemma log_filter:
  assumes "log_ok delay sent"
  shows "\<exists>j' \<le> max j (nat (x + 1 - int delay)).
    filter (\<lambda>(f, _). f > x) (drop j sent) = drop j' sent"
proof -
  let ?j = "max j (nat (x + 1 - int delay))"
  have "filter (\<lambda>(f, _). f > x) (drop j sent) = drop ?j sent"
    if "n = length sent - j" for n
    using that
  proof (induction n arbitrary: j)
    case 0
    then show ?case by simp
  next
    case (Suc n)
    then have j: "j < length sent" by simp
    then have d: "drop j sent = sent ! j # drop (Suc j) sent" by (simp add: Cons_nth_drop_Suc)
    have f: "fst (sent ! j) = int (delay + j)" using assms j by (simp add: log_ok_def)
    have IH: "filter (\<lambda>(f, _). f > x) (drop (Suc j) sent) =
        drop (max (Suc j) (nat (x + 1 - int delay))) sent"
      using Suc by simp
    show ?case
    proof (cases "int (delay + j) > x")
      case True
      then have "nat (x + 1 - int delay) \<le> j" by simp
      then have "filter (\<lambda>(f, _). f > x) (drop (Suc j) sent) = drop (Suc j) sent"
        using IH by (simp add: max_def)
      then show ?thesis using True f d \<open>nat (x + 1 - int delay) \<le> j\<close>
        by (cases "sent ! j") (simp add: max_def)
    next
      case False
      then have "Suc j \<le> nat (x + 1 - int delay)" by simp
      then show ?thesis using False f d IH by (cases "sent ! j") (simp add: max_def)
    qed
  qed
  then show ?thesis by blast
qed

lemma log_filter_acked:
  assumes "log_ok delay sent" "j \<le> k" "x \<le> log_end delay k"
  shows "\<exists>j' \<le> k. filter (\<lambda>(f, _). f > x) (drop j sent) = drop j' sent"
proof -
  have "nat (x + 1 - int delay) \<le> k" using assms(3) by (auto simp: log_end_def NULL_FRAME_def split: if_splits)
  then show ?thesis using log_filter [OF assms(1), of j x] assms(2) by (meson le_trans max.bounded_iff)
qed

lemma fresh_inputs_packet:
  assumes ok: "packet_ok delay sent k p" and lg: "log_ok delay sent" and k: "k \<le> length sent"
  shows "\<exists>k' \<ge> k. k' \<le> length sent \<and>
    take k sent @ fresh_inputs p (log_end delay k) = take k' sent \<and>
    (if fresh_inputs p (log_end delay k) = [] then log_end delay k
     else fst (last (fresh_inputs p (log_end delay k)))) = log_end delay k' \<and>
    (\<forall>j n. ip_start_frame p = int (delay + j) \<longrightarrow> ip_inputs p = map snd (take n (drop j sent)) \<longrightarrow>
       j + n \<le> length sent \<longrightarrow> j + n \<le> k')"
proof -
  obtain j n where jn: "j \<le> k" "j + n \<le> length sent" "0 < n" "ip_start_frame p = int (delay + j)"
    "ip_inputs p = map snd (take n (drop j sent))"
    using ok by (auto simp: packet_ok_def)
  define k' where "k' = max k (j + n)"
  have len: "length (ip_inputs p) = n" using jn by simp
  have skip: "nat (log_end delay k + 1 - ip_start_frame p) = k - j"
    using jn by (auto simp: log_end_def NULL_FRAME_def)
  have fresh: "fresh_inputs p (log_end delay k) = drop k (take k' sent)"
  proof (rule nth_equalityI)
    show len2: "length (fresh_inputs p (log_end delay k)) = length (drop k (take k' sent))"
      using jn k unfolding fresh_inputs_eq skip len by (simp add: k'_def)
    fix i assume "i < length (fresh_inputs p (log_end delay k))"
    then have i: "k - j + i < n" "k + i < length sent" "i < k' - k"
      using jn k unfolding fresh_inputs_eq skip len by (auto simp: k'_def)
    have "fresh_inputs p (log_end delay k) ! i =
        (int (delay + j) + int (k - j + i), ip_inputs p ! (k - j + i))"
      unfolding fresh_inputs_eq skip len using i jn by simp
    also have "\<dots> = sent ! (k + i)"
      using i jn lg by (auto simp: log_ok_def prod_eq_iff)
    finally show "fresh_inputs p (log_end delay k) ! i = drop k (take k' sent) ! i"
      using i jn k by (simp add: k'_def)
  qed
  have le: "k' \<le> length sent" using jn k by (simp add: k'_def)
  have "take k sent @ fresh_inputs p (log_end delay k) = take k' sent"
    unfolding fresh by (metis append_take_drop_id k'_def max.cobounded1 min.absorb1 take_take)
  moreover have "(if fresh_inputs p (log_end delay k) = [] then log_end delay k
     else fst (last (fresh_inputs p (log_end delay k)))) = log_end delay k'"
  proof (cases "k' = k")
    case False
    then have "k < k'" by (simp add: k'_def)
    then have "last (drop k (take k' sent)) = sent ! (k' - 1)"
      using le by (simp add: last_conv_nth)
    then show ?thesis using \<open>k < k'\<close> le lg unfolding fresh by (auto simp: log_ok_def log_end_def)
  qed (simp add: fresh)
  moreover have "j' + n' \<le> k'"
    if "ip_start_frame p = int (delay + j')" "ip_inputs p = map snd (take n' (drop j' sent))"
      "j' + n' \<le> length sent" for j' n'
  proof -
    have "j' = j" using that(1) jn(4) by simp
    moreover have "n' = n" using that jn len calculation by (metis length_map length_take length_drop
        le_diff_conv2 min.absorb2 add.commute add_leE)
    ultimately show ?thesis by (simp add: k'_def)
  qed
  ultimately show ?thesis using le by (intro exI [of _ k']) (auto simp: k'_def)
qed

lemma link_invD:
  assumes "link_inv delay L"
  shows "log_ok delay (lk_sent L)" "lk_filed L = take (length (lk_filed L)) (lk_sent L)"
    "length (lk_filed L) \<le> length (lk_sent L)"
    "pp_last_received (lk_b L) = log_end delay (length (lk_filed L))"
    "pp_last_acked (lk_a L) \<le> log_end delay (length (lk_filed L))"
    "\<exists>j \<le> length (lk_filed L). pp_pending (lk_a L) = drop j (lk_sent L)"
  using assms unfolding link_inv_def Let_def
  by (auto intro: dest: arg_cong [of "lk_filed L" _ length])

text \<open>A packet reaching the receiver files the part of it that is new.\<close>

lemma link_file:
  assumes inv: "link_inv delay L" and m: "m \<in> set (lk_ab L) \<or> foreign m (pp_magic (lk_a L))"
  shows "\<exists>k' \<ge> length (lk_filed L). k' \<le> length (lk_sent L) \<and>
    lk_filed L @ om_inputs m (lk_b L) = take k' (lk_sent L) \<and>
    pp_last_received (om_state m (lk_b L)) = log_end delay k'"
proof (cases "\<exists>p. takes_input m (lk_b L) p")
  case True
  then obtain p where t: "takes_input m (lk_b L) p" by blast
  note D = link_invD [OF inv]
  have "pp_remote_magic (lk_b L) = Some (magic m)"
    using t by (auto simp: takes_input_def pp_admit_ok)
  then have "magic m = pp_magic (lk_a L)" using inv by (auto simp: link_inv_def Let_def)
  then have "m \<in> set (lk_ab L)" using m by (simp add: foreign_def)
  then have ok: "packet_ok delay (lk_sent L) (length (lk_filed L)) p"
    using inv t by (auto simp: link_inv_def Let_def takes_input_def)
  show ?thesis
    using fresh_inputs_packet [OF ok D(1) D(3)] pp_on_message_takes [OF t] D(2,4) by metis
next
  case False
  then show ?thesis
    using link_invD [OF inv] pp_on_message_takes_not [of m "lk_b L"] by (metis append_Nil2 order_refl)
qed

lemma link_inv_init: "link_inv delay (link_init ha ma hb mb)"
  by (simp add: link_inv_def link_init_def log_ok_def log_end_def pp_new_def)

lemma pp_new_remote_keep:
  "pp_remote_magic (om_state m pp) = pp_remote_magic pp \<or>
   (pp_remote_magic (om_state m pp) = Some (magic m) \<and>
    (pp_remote_magic pp = Some (magic m) \<or> (\<exists>t. body m = SyncReply t)))"
  by (auto simp: pp_on_message_remote pp_admit_ok)

lemma link_latch:
  assumes "pp_remote_magic pp \<in> {None, Some mg}" "m \<in> set w \<or> foreign m mg"
    "\<forall>m \<in> set w. magic m = mg"
  shows "pp_remote_magic (om_state m pp) \<in> {None, Some mg}"
  using assms pp_new_remote_keep [of m pp] by (auto simp: foreign_def)

lemma link_ack:
  assumes "pp_last_acked pp \<le> x" "m \<in> set w \<or> foreign m mg" "\<forall>m \<in> set w. magic m = mg"
    "pp_remote_magic pp \<in> {None, Some mg}"
    "\<forall>m \<in> set w. \<forall>p. body m = Input p \<longrightarrow> ip_ack_frame p \<le> x"
    "\<forall>m \<in> set w. \<forall>f. body m = InputAck f \<longrightarrow> f \<le> x"
  shows "pp_last_acked (om_state m pp) \<le> x"
proof (cases "fst (pp_admit m pp)")
  case True
  then have "m \<in> set w \<or> (\<exists>t. body m = SyncReply t)"
    using assms(2,4) by (auto simp: pp_admit_ok foreign_def)
  then show ?thesis
    using assms(1,5,6) by (auto simp: pp_on_message_acked split: body.split)
qed (use assms(1) in \<open>simp add: pp_on_message_acked\<close>)

text \<open>The invariant only loosens as more is sent, filed and put on the wire.\<close>

lemma link_inv_mono:
  assumes inv: "link_inv delay L" and k: "length (lk_filed L) \<le> k"
  shows "\<forall>m \<in> set (lk_ab L). \<forall>p. body m = Input p \<longrightarrow> packet_ok delay (lk_sent L @ xs) k p"
    and "\<forall>m \<in> set (lk_ba L). \<forall>p. body m = Input p \<longrightarrow> ip_ack_frame p \<le> log_end delay k"
    and "\<forall>m \<in> set (lk_ba L). \<forall>f. body m = InputAck f \<longrightarrow> f \<le> log_end delay k"
    and "pp_last_acked (lk_a L) \<le> log_end delay k"
    and "\<exists>j \<le> k. pp_pending (lk_a L) = drop j (lk_sent L)"
  using inv k log_end_mono [OF k, of delay] unfolding link_inv_def Let_def
  by (meson packet_ok_mono order_trans)+

theorem link_inv_step:
  assumes inv: "link_inv delay L" and step: "link_step delay L L'"
  shows "link_inv delay L'"
  using step
proof cases
  case (a_send f i)
  let ?k = "length (lk_filed L)"
  have "log_ok delay (lk_sent L @ [(f, i)])"
    using link_invD(1) [OF inv] a_send(2) by (intro log_ok_snoc) simp_all
  moreover have "take ?k (lk_sent L @ [(f, i)]) = lk_filed L"
    using link_invD(2,3) [OF inv] by simp
  moreover obtain j where "j \<le> ?k" "pp_pending (lk_a L) = drop j (lk_sent L)"
    using link_invD(6) [OF inv] by blast
  then have "\<exists>j \<le> ?k. pp_pending (lk_a L) @ [(f, i)] = drop j (lk_sent L @ [(f, i)])"
    using link_invD(3) [OF inv] by (intro exI [of _ j]) auto
  ultimately show ?thesis
    using inv link_inv_mono(1) [OF inv order_refl, of "[(f, i)]"]
    unfolding a_send(1) by (simp add: link_inv_def Let_def pp_send_input_def)
next
  case (b_send f i)
  then show ?thesis using inv by (simp add: link_inv_def Let_def pp_send_input_def)
next
  case (a_tick f)
  let ?k = "length (lk_filed L)"
  obtain j where j: "j \<le> ?k" "pp_pending (lk_a L) = drop j (lk_sent L)"
    using link_invD(6) [OF inv] by blast
  obtain j' where j': "j' \<le> ?k"
      "filter (\<lambda>(g, _). g > pp_last_acked (lk_a L)) (pp_pending (lk_a L)) = drop j' (lk_sent L)"
    using log_filter_acked [OF link_invD(1) [OF inv] j(1) link_invD(5) [OF inv]] j(2) by auto
  have "packet_ok delay (lk_sent L) ?k p" if "m \<in> set (tick_out f (lk_a L))" "body m = Input p" for m p
  proof -
    note o = pp_tick_out(2) [OF that, unfolded j'(2)]
    then have "j' < length (lk_sent L)" by auto
    moreover from this have "fst (hd (drop j' (lk_sent L))) = int (delay + j')"
      using link_invD(1) [OF inv] by (simp add: hd_drop_conv_nth log_ok_def)
    ultimately show ?thesis using o j'(1)
      unfolding packet_ok_def by (intro exI [of _ j'] exI [of _ "length (lk_sent L) - j'"]) auto
  qed
  moreover have "\<exists>j \<le> ?k. pp_pending (tick_state f (lk_a L)) = drop j (lk_sent L)"
    using j j' by (auto simp: pp_tick_pending)
  ultimately show ?thesis
    using inv pp_tick_out(1) [of _ f "lk_a L"] unfolding a_tick by (auto simp: link_inv_def Let_def)
next
  case (b_tick f)
  have "ip_ack_frame p = pp_last_received (lk_b L)"
    if "m \<in> set (tick_out f (lk_b L))" "body m = Input p" for m p
    using pp_tick_out(2) [OF that] by blast
  then show ?thesis
    using inv pp_tick_out(1,3) [of _ f "lk_b L"] unfolding b_tick
    by (auto simp: link_inv_def Let_def)
next
  case (a_receive m)
  have "pp_remote_magic (om_state m (lk_a L)) \<in> {None, Some (pp_magic (lk_b L))}"
    using inv a_receive(2) by (intro link_latch) (auto simp: link_inv_def Let_def)
  moreover have "pp_last_acked (om_state m (lk_a L)) \<le> log_end delay (length (lk_filed L))"
    by (rule link_ack [OF _ a_receive(2)]) (use inv in \<open>auto simp: link_inv_def Let_def\<close>)
  ultimately show ?thesis
    using inv pp_on_message_replies [of _ m "lk_a L"] unfolding a_receive(1) link_inv_def Let_def
    by (auto; force)
next
  case (b_receive m)
  obtain k' where k': "k' \<ge> length (lk_filed L)" "k' \<le> length (lk_sent L)"
    "lk_filed L @ om_inputs m (lk_b L) = take k' (lk_sent L)"
    "pp_last_received (om_state m (lk_b L)) = log_end delay k'"
    using link_file [OF inv b_receive(2)] by blast
  have len: "length (lk_filed L @ om_inputs m (lk_b L)) = k'" using k' by simp
  have "pp_remote_magic (om_state m (lk_b L)) \<in> {None, Some (pp_magic (lk_a L))}"
    using inv b_receive(2) by (intro link_latch) (auto simp: link_inv_def Let_def)
  moreover have "magic r = pp_magic (lk_b L) \<and> (\<forall>p. body r \<noteq> Input p) \<and>
      (\<forall>f. body r = InputAck f \<longrightarrow> f \<le> log_end delay k')"
    if "r \<in> set (om_replies m (lk_b L))" for r
    using pp_on_message_replies [OF that] k'(4) by auto
  moreover have "magic r = pp_magic (lk_a L)" if "r \<in> set (lk_ab L)" for r
    using inv that by (simp add: link_inv_def Let_def)
  moreover have "magic r = pp_magic (lk_b L)" if "r \<in> set (lk_ba L)" for r
    using inv that by (simp add: link_inv_def Let_def)
  moreover have "pp_remote_magic (lk_a L) \<in> {None, Some (pp_magic (lk_b L))}"
    using inv by (simp add: link_inv_def Let_def)
  moreover have L': "lk_filed L' = take k' (lk_sent L)" "length (lk_filed L') = k'"
    "lk_sent L' = lk_sent L" "lk_a L' = lk_a L" "lk_b L' = om_state m (lk_b L)"
    "lk_ab L' = lk_ab L" "lk_ba L' = lk_ba L @ om_replies m (lk_b L)"
    using k' by (simp_all add: b_receive(1))
  ultimately show ?thesis
    using link_inv_mono(1) [OF inv k'(1), of "[]"] link_inv_mono(2-5) [OF inv k'(1)] k'(4)
      link_invD(1) [OF inv]
    unfolding link_inv_def Let_def L'(2) unfolding L'(1,3-7) by auto
qed

theorem link_reach_inv: "link_reach delay ha ma hb mb L \<Longrightarrow> link_inv delay L"
  by (induction rule: link_reach.induct) (auto intro: link_inv_init link_inv_step)

lemma link_tick_catches_up:
  assumes inv: "link_inv delay L"
    and run: "pp_state (lk_a L) = Running" "\<not> times_out (lk_a L)"
    and latched: "pp_remote_magic (lk_b L) = Some (pp_magic (lk_a L))"
    and behind: "lk_filed L \<noteq> lk_sent L"
  shows "\<exists>m \<in> set (tick_out f (lk_a L)). lk_filed L @ om_inputs m (lk_b L) = lk_sent L"
proof -
  let ?k = "length (lk_filed L)"
  note D = link_invD [OF inv]
  have k: "?k < length (lk_sent L)"
    using D(2,3) behind by (metis le_neq_implies_less order_refl take_all)
  obtain j where j: "j \<le> ?k" "pp_pending (lk_a L) = drop j (lk_sent L)" using D(6) by blast
  obtain j' where j': "j' \<le> ?k"
      "filter (\<lambda>(g, _). g > pp_last_acked (lk_a L)) (pp_pending (lk_a L)) = drop j' (lk_sent L)"
    using log_filter_acked [OF D(1) j(1) D(5)] j(2) by auto
  let ?n = "length (lk_sent L) - j'"
  have split: "drop j' (lk_sent L) = (fst (lk_sent L ! j'), snd (lk_sent L ! j')) # drop (Suc j') (lk_sent L)"
    using j'(1) k by (simp add: Cons_nth_drop_Suc)
  obtain m p where m: "m \<in> set (tick_out f (lk_a L))" "body m = Input p" "magic m = pp_magic (lk_a L)"
    "ip_start_frame p = fst (lk_sent L ! j')" "ip_inputs p = map snd (drop j' (lk_sent L))"
    using pp_tick_sends [OF run j'(2) [unfolded split]] by (metis list.simps(9) snd_conv split)
  have start: "ip_start_frame p = int (delay + j')"
    using m(4) D(1) j'(1) k by (simp add: log_ok_def)
  have inputs: "ip_inputs p = map snd (take ?n (drop j' (lk_sent L)))" using m(5) by simp
  have ok: "packet_ok delay (lk_sent L) ?k p"
    unfolding packet_ok_def using start inputs j'(1) k by (intro exI [of _ j'] exI [of _ ?n]) auto
  have t: "takes_input m (lk_b L) p"
    using latched m(2,3) start j'(1) D(4)
    by (auto simp: takes_input_def pp_admit_ok log_end_def split: if_splits)
  obtain k' where "k' \<le> length (lk_sent L)"
    "take ?k (lk_sent L) @ fresh_inputs p (log_end delay ?k) = take k' (lk_sent L)"
    "j' + ?n \<le> k'"
    using fresh_inputs_packet [OF ok D(1,3)] start inputs j'(1) k
    by (metis add_diff_inverse_nat le_antisym less_imp_le_nat less_le_trans nat_less_le not_less order_refl)
  then have "lk_filed L @ om_inputs m (lk_b L) = lk_sent L"
    using pp_on_message_takes(1) [OF t] D(2,4) j'(1) k by simp
  with m(1) show ?thesis by blast
qed

subsection \<open>A link as a function of its events\<close>

datatype 'i link_event = ASend 'i | ATick frame | BTick frame | AReceive nat | BReceive nat

text \<open>A receive names a packet by its place on the wire.\<close>

fun link_exec :: "nat \<Rightarrow> 'i link_event \<Rightarrow> 'i link \<Rightarrow> 'i link" where
  "link_exec delay (ASend i) L =
     L\<lparr>lk_a := pp_send_input (int (delay + length (lk_sent L))) i (lk_a L),
       lk_sent := lk_sent L @ [(int (delay + length (lk_sent L)), i)]\<rparr>"
| "link_exec delay (ATick f) L =
     L\<lparr>lk_a := tick_state f (lk_a L), lk_ab := lk_ab L @ tick_out f (lk_a L)\<rparr>"
| "link_exec delay (BTick f) L =
     L\<lparr>lk_b := tick_state f (lk_b L), lk_ba := lk_ba L @ tick_out f (lk_b L)\<rparr>"
| "link_exec delay (AReceive n) L =
     (if n < length (lk_ba L) then
        L\<lparr>lk_a := om_state (lk_ba L ! n) (lk_a L),
          lk_ab := lk_ab L @ om_replies (lk_ba L ! n) (lk_a L)\<rparr> else L)"
| "link_exec delay (BReceive n) L =
     (if n < length (lk_ab L) then
        L\<lparr>lk_b := om_state (lk_ab L ! n) (lk_b L),
          lk_ba := lk_ba L @ om_replies (lk_ab L ! n) (lk_b L),
          lk_filed := lk_filed L @ om_inputs (lk_ab L ! n) (lk_b L)\<rparr> else L)"

lemma link_exec_step: "link_exec delay e L = L \<or> link_step delay L (link_exec delay e L)"
  by (cases e) (auto intro: link_step.intros)

lemma link_exec_reach:
  "link_reach delay ha ma hb mb L \<Longrightarrow> link_reach delay ha ma hb mb (fold (link_exec delay) es L)"
proof (induction es arbitrary: L)
  case (Cons e es)
  have "link_reach delay ha ma hb mb (link_exec delay e L)"
    using link_exec_step [of delay e L] Cons.prems link_more by metis
  then show ?case using Cons.IH by simp
qed simp

text \<open>Two endpoints shake hands, the receiver learns the sender's nonce, two inputs are sent
  and the first packet with them is lost.\<close>

definition demo_link_events :: "int link_event list" where
  "demo_link_events =
     [ATick 0, BReceive 0, AReceive 0, ATick 0, BReceive 1, AReceive 1, ATick 0, BReceive 2,
      AReceive 2, ATick 0, BReceive 3, AReceive 3, ATick 0, BReceive 4, AReceive 4,
      BTick 0, AReceive 5, BReceive 5, ASend 7, ATick 0, ASend 8]"

definition demo_link :: "int link" where
  "demo_link = fold (link_exec 2) demo_link_events (link_init 1 17 0 18)"

lemma demo_link_reach: "link_reach 2 1 17 0 18 demo_link"
  unfolding demo_link_def by (rule link_exec_reach [OF link_start])

lemma demo_link_values:
  "pp_state (lk_a demo_link) = Running \<and> \<not> times_out (lk_a demo_link) \<and>
   pp_remote_magic (lk_b demo_link) = Some (pp_magic (lk_a demo_link)) \<and>
   lk_filed demo_link = [] \<and> lk_sent demo_link = [(2, 7), (3, 8)]"
  by code_simp

subsection \<open>Properties\<close>

text \<open>C20: Inputs are delivered in order and exactly once over a channel that loses, repeats
  and reorders packets, with packets of another session mixed in: what the receiver hands to
  the rollback engine is at all times an initial part of what the sender was given, and the
  sender still holds everything after it.\<close>

theorem link_delivery:
  assumes "link_reach delay ha ma hb mb L"
  shows "\<exists>k \<le> length (lk_sent L). lk_filed L = take k (lk_sent L) \<and>
    (\<exists>j \<le> k. pp_pending (lk_a L) = drop j (lk_sent L))"
  using link_invD(2,3,6) [OF link_reach_inv [OF assms]] by blast

theorem link_delivery_witness:
  "\<exists>k \<le> length (lk_sent demo_link). lk_filed demo_link = take k (lk_sent demo_link) \<and>
    (\<exists>j \<le> k. pp_pending (lk_a demo_link) = drop j (lk_sent demo_link))"
  by (rule link_delivery [OF demo_link_reach])

text \<open>One packet makes up for any losses: when a running sender that has not timed out
  ticks, the packet it sends brings a receiver that knows its nonce up to date.\<close>

theorem link_catches_up:
  assumes "link_reach delay ha ma hb mb L" and "pp_state (lk_a L) = Running"
    and "\<not> times_out (lk_a L)" and "pp_remote_magic (lk_b L) = Some (pp_magic (lk_a L))"
    and "lk_filed L \<noteq> lk_sent L"
  shows "\<exists>m \<in> set (tick_out f (lk_a L)). lk_filed L @ om_inputs m (lk_b L) = lk_sent L"
  by (rule link_tick_catches_up [OF link_reach_inv [OF assms(1)] assms(2-5)])

theorem link_catches_up_witness:
  "\<exists>m \<in> set (tick_out 0 (lk_a demo_link)).
     lk_filed demo_link @ om_inputs m (lk_b demo_link) = lk_sent demo_link"
  by (rule link_catches_up [OF demo_link_reach]) (simp_all add: demo_link_values)

text \<open>Whatever packets arrive, forged ones included, the inputs a peer hands on are for
  consecutive frames, none before frame 0, and the last one is the frame it reports.\<close>

theorem delivered_contiguous:
  "let xs = delivered ops (pp_new h mg) in
     if xs = [] then pp_last_received (pp_run ops (pp_new h mg)) = NULL_FRAME
     else 0 \<le> fst (hd xs) \<and> map fst xs = map (\<lambda>k. fst (hd xs) + int k) [0..<length xs] \<and>
       pp_last_received (pp_run ops (pp_new h mg)) = fst (hd xs) + int (length xs) - 1"
  using delivered_filed [of ops h mg] by (simp add: filed_to_def frames_from_def Let_def)

text \<open>The handshake takes exactly five round trips. In any run the replies counted echo
  the successive tokens of the generator, which are distinct, so a repeated reply is not
  counted; there are five of them when the peer is running and fewer while it is syncing.\<close>

theorem handshake_counts:
  "let pp = pp_run ops (pp_new h mg); ts = counted_tokens ops (pp_new h mg) in
     ts = map (\<lambda>k. (next_token ^^ k) (mg XOR 0x5bf03635)) [0..<length ts] \<and> distinct ts \<and>
     (pp_state pp = Running \<longrightarrow> length ts = 5) \<and> (pp_state pp = Syncing \<longrightarrow> length ts < 5)"
proof -
  let ?ts = "counted_tokens ops (pp_new h mg)"
  have inv: "handshake_inv (mg XOR 0x5bf03635) ?ts (pp_run ops (pp_new h mg))"
    by (rule handshake_run)
  then have "?ts = map (\<lambda>k. (next_token ^^ k) (mg XOR 0x5bf03635)) [0..<length ?ts]"
    and "length ?ts \<le> 5"
    by (auto simp: handshake_inv_def SYNC_ROUNDTRIPS_def)
  moreover from this have "distinct ?ts" using token_distinct by metis
  ultimately show ?thesis
    using inv by (auto simp: handshake_inv_def SYNC_ROUNDTRIPS_def Let_def)
qed

definition demo_replies :: "nat \<Rightarrow> int pp_op list" where
  "demo_replies n = map (\<lambda>k. Op_packet \<lparr>magic = 9,
     body = SyncReply ((next_token ^^ k) (17 XOR 0x5bf03635))\<rparr>) [0..<n]"

lemma demo_replies_five:
  "pp_state (pp_run (demo_replies 5) (pp_new 0 17)) = Running \<and>
   pp_state (pp_run (demo_replies 4) (pp_new 0 17)) = Syncing"
  by code_simp

theorem handshake_counts_witness:
  "length (counted_tokens (demo_replies 5) (pp_new 0 17)) = 5 \<and>
   length (counted_tokens (demo_replies 4) (pp_new 0 17)) < 5"
  using handshake_counts [of "demo_replies 5" 0 17] handshake_counts [of "demo_replies 4" 0 17]
    demo_replies_five by (simp add: Let_def)

text \<open>A peer is declared gone exactly on its 601st tick after the last packet that was
  accepted from it.\<close>

theorem disconnect_timeout:
  assumes "fst (pp_admit m pp)" and "pp_state (om_state m pp) \<noteq> Disconnected"
  shows "pp_state (fold tick_state fs (om_state m pp)) = Disconnected \<longleftrightarrow> 600 < length fs"
  using quiet_ticks [OF assms(2)] pp_on_message_silent [OF assms(1)] by blast

theorem disconnect_timeout_witness:
  "pp_state (fold tick_state (replicate 601 0)
     (om_state \<lparr>magic = 9, body = SyncReply (17 XOR 0x5bf03635)\<rparr> (pp_new 0 17 :: int peer_protocol))) =
   Disconnected \<longleftrightarrow> 600 < length (replicate 601 (0 :: frame))"
proof (rule disconnect_timeout)
  show "fst (pp_admit \<lparr>magic = 9, body = SyncReply (17 XOR 0x5bf03635)\<rparr> (pp_new 0 17))"
    by (simp add: pp_admit_ok pp_new_def)
  show "pp_state (om_state \<lparr>magic = 9, body = SyncReply (17 XOR 0x5bf03635)\<rparr>
      (pp_new 0 17 :: int peer_protocol)) \<noteq> Disconnected"
    by (simp add: pp_on_message_handshake pp_new_def)
qed

end
