(* ===== verification/Session.thy ===== *)
theory Session
  imports RollbackNet PeerProtocol
begin

text \<open>
  The session a game drives: the rollback engine plus one protocol state per remote player
  (\<open>fofoca-netplay/src/session.rs\<close>). The transport is a parameter: \<open>se_poll\<close> is given what
  \<open>receive_all\<close> returned and returns what \<open>send_to\<close> is called with, in order. The addresses are
  of any type \<open>'a\<close>.
\<close>

subsection \<open>State\<close>

datatype session_state = Sess_Synchronizing | Sess_Running

datatype 'a event =
    Event_Synchronized 'a
  | Event_Running
  | Event_Disconnected 'a
  | Event_Desync frame nat nat

record ('s, 'i, 'a) session =
  se_sync :: "('s, 'i) sync"
  se_peers :: "('a \<times> 'i peer_protocol) list"
  se_local_handle :: nat
  se_state :: session_state
  se_events :: "'a event list"
  se_skip_frames :: nat
  se_last_checksum :: frame
  se_local_input :: "'i option"
  se_unaddressed :: nat

definition se_new :: "'i \<Rightarrow> 'a list \<Rightarrow> nat \<Rightarrow> nat \<Rightarrow> nat \<Rightarrow> 32 word \<Rightarrow>
    rollback_error + ('s, 'i, 'a) session" where
  "se_new d players local_handle max_prediction input_delay mg =
     (if local_handle \<ge> length players then Inl (InvalidPlayer local_handle)
      else Inr \<lparr>se_sync = sync_new d (length players) max_prediction input_delay local_handle,
        se_peers = map (\<lambda>(handle, addr). (addr, pp_new handle mg))
          (filter (\<lambda>(handle, _). handle \<noteq> local_handle) (enumerate 0 players)),
        se_local_handle = local_handle, se_state = Sess_Synchronizing, se_events = [],
        se_skip_frames = 0, se_last_checksum = NULL_FRAME, se_local_input = None,
        se_unaddressed = 0\<rparr>)"

definition se_drain_events :: "('s, 'i, 'a) session \<Rightarrow> 'a event list \<times> ('s, 'i, 'a) session" where
  "se_drain_events se = (se_events se, se\<lparr>se_events := []\<rparr>)"

subsection \<open>Polling\<close>

definition event_of :: "'a \<Rightarrow> peer_event \<Rightarrow> 'a event" where
  "event_of addr e =
     (case e of Ev_Synchronized \<Rightarrow> Event_Synchronized addr
      | Ev_Disconnected \<Rightarrow> Event_Disconnected addr
      | Ev_Desync f l r \<Rightarrow> Event_Desync f l r)"

definition se_record_events :: "'a \<Rightarrow> peer_event list \<Rightarrow> ('s, 'i, 'a) session \<Rightarrow>
    ('s, 'i, 'a) session" where
  "se_record_events addr es se = se\<lparr>se_events := se_events se @ map (event_of addr) es\<rparr>"

text \<open>File inputs a peer handed over. The error of an impossible handle is ignored.\<close>

definition se_file :: "nat \<Rightarrow> frame \<times> 'i \<Rightarrow> ('s, 'i) sync \<Rightarrow> ('s, 'i) sync" where
  "se_file handle fi sy =
     (case sync_add_remote_input handle (fst fi) (snd fi) sy of Inl _ \<Rightarrow> sy | Inr sy' \<Rightarrow> sy')"

text \<open>One received packet: the session, the replies and the packets for no known address.\<close>

definition se_receive :: "'a \<times> 'i message \<Rightarrow>
    ('s, 'i, 'a) session \<times> ('a \<times> 'i message) list \<times> nat \<Rightarrow>
    ('s, 'i, 'a) session \<times> ('a \<times> 'i message) list \<times> nat" where
  "se_receive am st =
     (let (addr, m) = am; (se, replies, unaddressed) = st in
      case find_idx (\<lambda>p. fst p = addr) (se_peers se) of
        None \<Rightarrow> (se, replies, sat_add32 unaddressed 1)
      | Some k \<Rightarrow>
          let pp = snd (se_peers se ! k);
              (inputs, events, out, pp') = pp_on_message m pp;
              se1 = se\<lparr>se_peers := (se_peers se)[k := (addr, pp')],
                       se_sync := fold (se_file (pp_handle pp)) inputs (se_sync se)\<rparr>
          in (se_record_events addr events se1, replies @ map (Pair addr) out, unaddressed))"

definition se_refresh_state :: "('s, 'i, 'a) session \<Rightarrow> ('s, 'i, 'a) session" where
  "se_refresh_state se =
     (if se_state se = Sess_Running then se
      else if \<forall>p \<in> set (se_peers se). pp_state (snd p) = Running
      then se\<lparr>se_state := Sess_Running, se_events := se_events se @ [Event_Running]\<rparr>
      else se)"

definition se_refresh_confirmed :: "('s, 'i, 'a) session \<Rightarrow> ('s, 'i, 'a) session" where
  "se_refresh_confirmed se =
     (case map (\<lambda>p. pp_last_received (snd p))
             (filter (\<lambda>p. pp_state (snd p) \<noteq> Disconnected) (se_peers se)) of
        [] \<Rightarrow> se\<lparr>se_sync := sync_confirm_through (sy_current (se_sync se)) (se_sync se)\<rparr>
      | f # fs \<Rightarrow>
          let confirmed = fold min fs f in
          if confirmed \<noteq> NULL_FRAME
          then se\<lparr>se_sync := sync_confirm_through confirmed (se_sync se)\<rparr> else se)"

text \<open>The ticks of all peers: states, packets, events, the largest skip.\<close>

fun se_tick_peers :: "frame \<Rightarrow> ('a \<times> 'i peer_protocol) list \<Rightarrow>
    ('a \<times> 'i peer_protocol) list \<times> ('a \<times> 'i message) list \<times> 'a event list \<times> nat" where
  "se_tick_peers current [] = ([], [], [], 0)"
| "se_tick_peers current ((addr, pp) # ps) =
     (let (messages, events, pp') = pp_tick current pp;
          (ps', out, evs, skip) = se_tick_peers current ps
      in ((addr, pp') # ps', map (Pair addr) messages @ out, map (event_of addr) events @ evs,
          max (pp_recommend_skip pp') skip))"

definition se_poll :: "('a \<times> 'i message) list \<Rightarrow> ('s, 'i, 'a) session \<Rightarrow>
    ('a \<times> 'i message) list \<times> ('s, 'i, 'a) session" where
  "se_poll received se0 =
     (let current = sy_current (se_sync se0);
          (se1, replies, unaddressed) = fold se_receive received (se0, [], 0);
          se2 = (if unaddressed > 0
                 then se1\<lparr>se_unaddressed := sat_add64 (se_unaddressed se1) unaddressed\<rparr> else se1);
          (peers, outgoing, events, skip) = se_tick_peers current (se_peers se2);
          se3 = se2\<lparr>se_peers := peers, se_events := se_events se2 @ events, se_skip_frames := skip\<rparr>
      in (replies @ outgoing, se_refresh_confirmed (se_refresh_state se3)))"

subsection \<open>Advancing\<close>

definition se_add_local_input :: "'i \<Rightarrow> ('s, 'i, 'a) session \<Rightarrow> ('s, 'i, 'a) session" where
  "se_add_local_input i se = se\<lparr>se_local_input := Some i\<rparr>"

definition se_advance_frame :: "'i \<Rightarrow> ('s, 'i, 'a) session \<Rightarrow>
    (rollback_error + 'i request list) \<times> ('s, 'i, 'a) session" where
  "se_advance_frame d se =
     (if se_state se \<noteq> Sess_Running then (Inl PredictionLimit, se)
      else if se_skip_frames se > 0
      then (Inl PredictionLimit, se\<lparr>se_skip_frames := se_skip_frames se - 1\<rparr>)
      else case se_local_input se of
        None \<Rightarrow> (Inl MissingLocalInput, se)
      | Some input \<Rightarrow>
          (case sync_add_local_input (se_local_handle se) input (se_sync se) of
             Inl e \<Rightarrow> (Inl e, se)
           | Inr (frame, sy) \<Rightarrow>
               let peers = (if frame \<noteq> NULL_FRAME
                            then map (\<lambda>(a, pp). (a, pp_send_input frame input pp)) (se_peers se)
                            else se_peers se);
                   (requests, sy') = sync_frame d sy
               in (Inr requests,
                   se\<lparr>se_sync := sy', se_peers := peers, se_local_input := None\<rparr>)))"

definition se_publish_checksum :: "('s, 'i, 'a) session \<Rightarrow>
    ('a \<times> 'i message) list \<times> ('s, 'i, 'a) session" where
  "se_publish_checksum se =
     (let frame = sy_confirmed (se_sync se) in
      if frame = NULL_FRAME \<or> frame = se_last_checksum se then ([], se)
      else case ss_by_frame frame (sy_saved (se_sync se)) of
        None \<Rightarrow> ([], se)
      | Some cell \<Rightarrow>
          (case ci_checksum (ss_cells (sy_saved (se_sync se)) ! cell) of
             None \<Rightarrow> ([], se)
           | Some checksum \<Rightarrow>
               (map (\<lambda>(a, pp). (a, fst (pp_checksum_message frame checksum pp))) (se_peers se),
                se\<lparr>se_last_checksum := frame,
                   se_peers := map (\<lambda>(a, pp). (a, snd (pp_checksum_message frame checksum pp)))
                     (se_peers se)\<rparr>)))"

subsection \<open>Properties\<close>

text \<open>A running session of two for the witnesses.\<close>

definition demo_session :: "int option \<Rightarrow> (int, int, nat) session" where
  "demo_session i =
     \<lparr>se_sync = sync_new 0 2 8 0 0, se_peers = [(7, (pp_new 1 17)\<lparr>pp_state := Running\<rparr>)],
      se_local_handle = 0, se_state = Sess_Running, se_events = [], se_skip_frames = 0,
      se_last_checksum = NULL_FRAME, se_local_input = i, se_unaddressed = 0\<rparr>"

lemma demo_declines: "se_advance_frame 0 (demo_session None) = (Inl MissingLocalInput, demo_session None)"
  by (simp add: se_advance_frame_def demo_session_def)

text \<open>A declined frame changes nothing but the count of frames to skip: the engine and
  the peers are untouched and the local input stays buffered for the retry. The reasons are
  the documented ones.\<close>

theorem declined_frame:
  assumes "se_advance_frame d se = (Inl e, se')"
    and "se_local_handle se < length (sy_queues (se_sync se))"
  shows "se' = se\<lparr>se_skip_frames := se_skip_frames se'\<rparr> \<and>
    (if se_state se \<noteq> Sess_Running then e = PredictionLimit \<and> se' = se
     else if 0 < se_skip_frames se
       then e = PredictionLimit \<and> se_skip_frames se' = se_skip_frames se - 1
     else if se_local_input se = None then e = MissingLocalInput \<and> se' = se
     else e = PredictionLimit \<and> se' = se \<and>
       sy_max_prediction (se_sync se) \<le> sync_frames_ahead (se_sync se))"
  using assms
  by (auto simp: se_advance_frame_def sync_add_local_input_def Let_def
      split: if_splits option.splits sum.splits prod.splits)

theorem declined_frame_witness:
  "se_local_input (demo_session None) = None"
  using declined_frame [OF demo_declines] by (simp add: demo_session_def sync_new_def)

text \<open>A frame that runs takes the buffered input, and queues the same input for the same
  frame to every peer.\<close>

theorem advanced_frame:
  assumes "se_advance_frame d se = (Inr rs, se')"
  shows "\<exists>i f sy. se_local_input se = Some i \<and> se_local_input se' = None \<and>
    sync_add_local_input (se_local_handle se) i (se_sync se) = Inr (f, sy) \<and>
    (rs, se_sync se') = sync_frame d sy \<and>
    map fst (se_peers se') = map fst (se_peers se) \<and>
    map (pp_pending \<circ> snd) (se_peers se') =
      map (\<lambda>p. pp_pending (snd p) @ (if f = NULL_FRAME then [] else [(f, i)])) (se_peers se)"
proof -
  have run: "se_state se = Sess_Running" "se_skip_frames se = 0"
    using assms by (auto simp: se_advance_frame_def split: if_splits)
  then obtain i where i: "se_local_input se = Some i"
    using assms by (auto simp: se_advance_frame_def split: option.splits)
  then obtain f sy where f: "sync_add_local_input (se_local_handle se) i (se_sync se) = Inr (f, sy)"
    using assms run by (auto simp: se_advance_frame_def split: sum.splits)
  let ?send = "\<lambda>(a, pp). (a, pp_send_input f i pp)"
  have se': "rs = fst (sync_frame d sy)"
    "se' = se\<lparr>se_sync := snd (sync_frame d sy),
      se_peers := (if f \<noteq> NULL_FRAME then map ?send (se_peers se) else se_peers se),
      se_local_input := None\<rparr>"
    using assms run i f by (auto simp: se_advance_frame_def Let_def split: prod.splits)
  have "map (pp_pending \<circ> snd) (map ?send ps) = map (\<lambda>p. pp_pending (snd p) @ [(f, i)]) ps"
    "map fst (map ?send ps) = map fst ps" for ps :: "('d \<times> 'a peer_protocol) list"
    by (simp_all add: pp_send_input_def split_beta)
  then show ?thesis
    using i f by (intro exI [of _ i] exI [of _ f] exI [of _ sy])
      (auto simp: se' comp_def pp_send_input_def)
qed

lemma demo_advances:
  "\<exists>rs se. se_advance_frame 0 (demo_session (Some 5)) = (Inr rs, se)"
  by (simp add: se_advance_frame_def demo_session_def sync_add_local_input_def sync_new_def
      sync_frames_ahead_def Let_def split_beta split: if_splits sum.splits)

theorem advanced_frame_witness:
  "\<exists>rs se f sy. se_advance_frame 0 (demo_session (Some 5)) = (Inr rs, se) \<and>
     sync_add_local_input 0 5 (sync_new 0 2 8 0 0 :: (int, int) sync) = Inr (f, sy) \<and>
     (rs, se_sync se) = sync_frame 0 sy"
proof -
  obtain rs se where run: "se_advance_frame 0 (demo_session (Some 5)) = (Inr rs, se)"
    using demo_advances by blast
  show ?thesis using advanced_frame [OF run] run by (auto simp: demo_session_def)
qed

text \<open>Polling never takes a running session back, and starts it when all handshakes are done.\<close>

lemma se_receive_state:
  "se_state (fst (se_receive am (se, rs, u))) = se_state se"
  by (simp add: se_receive_def split_beta Let_def se_record_events_def split: option.split)

lemma se_receive_fold_state:
  "se_state (fst (fold se_receive xs st)) = se_state (fst st)"
  by (induction xs arbitrary: st) (auto simp: se_receive_state)

lemma se_refresh_confirmed_keeps [simp]:
  "se_state (se_refresh_confirmed se) = se_state se"
  "se_peers (se_refresh_confirmed se) = se_peers se"
  "se_events (se_refresh_confirmed se) = se_events se"
  by (simp_all add: se_refresh_confirmed_def Let_def split: list.split)

lemma se_refresh_state_running [simp]:
  "se_peers (se_refresh_state se) = se_peers se"
  "se_state (se_refresh_state se) = Sess_Running \<longleftrightarrow> se_state se = Sess_Running \<or>
     (\<forall>p \<in> set (se_peers se). pp_state (snd p) = Running)"
  by (auto simp: se_refresh_state_def)

text \<open>The match starts exactly when every peer has completed its handshake, with one
  event, and does not stop.\<close>

theorem session_start:
  "se_state (snd (se_poll received se)) = Sess_Running \<longleftrightarrow>
     se_state se = Sess_Running \<or>
     list_all (\<lambda>p. pp_state (snd p) = Running) (se_peers (snd (se_poll received se)))"
  by (simp add: se_poll_def split_beta Let_def se_receive_fold_state se_refresh_state_running
      list_all_iff)

subsection \<open>Input of a peer that was declared gone\<close>

text \<open>A match of two with the remote peer gone: with no live peer, every frame simulated counts
  as confirmed (\<open>se_refresh_confirmed\<close>), and the local player goes on.\<close>

definition alone_frame :: "'i \<Rightarrow> ('s \<Rightarrow> 'i list \<Rightarrow> 's) \<Rightarrow> ('s \<Rightarrow> nat option) \<Rightarrow> 'i \<Rightarrow>
    ('s, 'i) sync \<times> 's \<Rightarrow> ('s, 'i) sync \<times> 's" where
  "alone_frame d step ck j g =
     (case rb_tick d step ck 0 j (sync_confirm_through (sy_current (fst g)) (fst g), snd g) of
        Some (Inr (_, g')) \<Rightarrow> g'
      | _ \<Rightarrow> g)"

definition alone :: "'i \<Rightarrow> ('s \<Rightarrow> 'i list \<Rightarrow> 's) \<Rightarrow> ('s \<Rightarrow> nat option) \<Rightarrow> 's \<Rightarrow> nat \<Rightarrow> 'i \<Rightarrow> nat \<Rightarrow>
    ('s, 'i) sync \<times> 's" where
  "alone d step ck s0 maxp j k = (alone_frame d step ck j ^^ k) (sync_new d 2 maxp 0 0, s0)"

definition alone_inv :: "'i \<Rightarrow> ('s \<Rightarrow> 'i list \<Rightarrow> 's) \<Rightarrow> ('s \<Rightarrow> nat option) \<Rightarrow> 's \<Rightarrow> nat \<Rightarrow> 'i \<Rightarrow> nat \<Rightarrow>
    ('s, 'i) sync \<times> 's \<Rightarrow> bool" where
  "alone_inv d step ck s0 maxp j k g \<longleftrightarrow>
     (\<exists>tml. engine_at d step ck s0 [replicate k j, []] tml (fst g) (snd g) \<and> length tml = k) \<and>
     all_right (fst g) \<and> sy_max_prediction (fst g) = maxp \<and>
     sy_confirmed (fst g) \<le> int k \<and> sync_delays (fst g) = [0, 0]"

lemma alone_inv_new: "alone_inv d step ck s0 maxp j 0 (sync_new d 2 maxp 0 0, s0)"
proof -
  have "rb_inv d step ck s0 0 0 (replicate 2 []) [] (sync_new d 2 maxp 0 0) s0"
    by (rule rb_inv_init) (simp_all add: i32_max_def)
  then have "engine_at d step ck s0 [[], []] [] (sync_new d 2 maxp 0 0) s0"
    by (simp add: rb_inv_def eval_nat_numeral)
  then show ?thesis
    by (auto simp: alone_inv_def NULL_FRAME_def all_right_def sync_delays_def)
      (auto simp: sync_new_def iq_new_def iq_set_frame_delay_def eval_nat_numeral NULL_FRAME_def)
qed

lemma alone_inv_frame:
  assumes inv: "alone_inv d step ck s0 maxp j k g" and maxp: "0 < maxp" "maxp < QUEUE_LEN"
  shows "alone_inv d step ck s0 maxp j (Suc k) (alone_frame d step ck j g)"
proof -
  obtain sy s where g: "g = (sy, s)" by (cases g)
  obtain tml where eng: "engine_at d step ck s0 [replicate k j, []] tml sy s" and k: "length tml = k"
    using inv by (auto simp: alone_inv_def g)
  let ?sy = "sync_confirm_through (sy_current sy) sy"
  have cur: "sy_current sy = int k" and len: "length (sy_queues sy) = 2"
    using eng k by (auto simp: engine_at_def dest: players_allD)
  have conf: "sy_confirmed ?sy = int k"
    using inv by (simp add: alone_inv_def g sync_confirm_through_def cur)
  have core: "iq_inv d (sy_queues sy ! 0) (replicate k j) (column 0 tml)"
    using eng len by (auto simp: engine_at_def dest: players_allD(2) [of _ _ _ _ 0])
  have delay: "iq_frame_delay (sy_queues sy ! 0) = 0"
    using inv len by (simp add: alone_inv_def g sync_delays_nth [of 0 sy])
  note q = iq_add_input_spec [OF core, of "int k" j, unfolded delay]
  let ?q = "snd (iq_add_input (int k) j (sy_queues sy ! 0))"
  have "iq_spec_add d (replicate k j) (int k + delay_i32 0) j = replicate (Suc k) j"
    by (simp add: iq_spec_add_def delay_i32_def i32_max_def replicate_append_same)
  then have q': "iq_inv d ?q (replicate (Suc k) j) (column 0 tml)" using q(2) by simp
  let ?sy1 = "?sy\<lparr>sy_queues := (sy_queues sy)[0 := ?q]\<rparr>"
  have add: "sync_add_local_input 0 j ?sy = Inr (fst (iq_add_input (int k) j (sy_queues sy ! 0)), ?sy1)"
    using maxp(1) inv len conf
    by (simp add: sync_add_local_input_def sync_frames_ahead_def NULL_FRAME_def cur alone_inv_def g
        split_beta sync_confirm_through_def)
  let ?hs = "[replicate (Suc k) j, []]"
  have "players_all (iq_inv d) ((sy_queues sy)[0 := ?q]) ?hs tml"
    using players_all_update [of "iq_inv d" "sy_queues sy" "[replicate k j, []]" tml ?q _ 0] eng q'
    by (simp add: engine_at_def)
  then have eng1: "engine_at d step ck s0 ?hs tml ?sy1 s"
    using eng by (simp add: engine_at_def sync_confirm_through_def)
  have core1: "iq_core d ?q (replicate (Suc k) j) (column 0 tml)" using q' by (rule iq_inv_core)
  have right: "iq_first_incorrect q = NULL_FRAME" if "q \<in> set (sy_queues sy)" for q
    using inv that by (simp add: alone_inv_def g all_right_def)
  have q0: "iq_first_incorrect ?q = NULL_FRAME"
    using iq_add_input_first_incorrect [OF core, of "int k" j] right [of "sy_queues sy ! 0"] len
      core1 k by (auto simp: iq_core_def)
  then have right1: "\<forall>q \<in> set (sy_queues ?sy1). iq_first_incorrect q = NULL_FRAME"
    using right by (auto dest!: set_update_subset_insert [THEN subsetD])
  have mp: "sy_max_prediction ?sy1 = maxp"
    using inv by (simp add: alone_inv_def g sync_confirm_through_def)
  note fr = sync_frame_spec [OF eng1, unfolded mp k]
  obtain cells s' where run: "fulfil_all step ck (fst (sync_frame d ?sy1)) (ss_cells (sy_saved ?sy1), s) =
        Some (cells, s')"
      "engine_at d step ck s0 ?hs (map (spec_row d ?hs) [0..<Suc k])
        (with_cells cells (snd (sync_frame d ?sy1))) s'"
    using fr(1) right1 maxp(2) by auto
  have "alone_frame d step ck j g = (with_cells cells (snd (sync_frame d ?sy1)), s')"
    using add run(1) by (simp add: alone_frame_def rb_tick_def g)
  moreover have "sync_delays ?sy1 = sync_delays sy"
    using len q(3) delay by (auto simp: sync_delays_def list_eq_iff_nth_eq nth_list_update)
  moreover have "all_right (snd (sync_frame d ?sy1))" using fr(2) right1 maxp(2) by auto
  moreover have "sy_max_prediction (snd (sync_frame d ?sy1)) = maxp"
    "sy_confirmed (snd (sync_frame d ?sy1)) = int k"
    using fr(3,4) right1 maxp(2) conf by auto
  ultimately show ?thesis
    using run(2) inv by (auto simp: alone_inv_def sync_delays_frame all_right_def g
        intro!: exI [of _ "map (spec_row d ?hs) [0..<Suc k]"])
qed

lemma alone_inv: "0 < maxp \<Longrightarrow> maxp < QUEUE_LEN \<Longrightarrow>
  alone_inv d step ck s0 maxp j k (alone d step ck s0 maxp j k)"
  by (induction k) (auto simp: alone_def intro: alone_inv_new alone_inv_frame)

text \<open>An input of a peer that had been declared gone is still filed when it arrives, and
  if it contradicts the guess for a frame that has left the window, the rollback it calls for
  does not happen: after any number of frames past the window, the misprediction is recorded,
  the check appends no request and the record stays, so the game goes on with the wrong input
  for good.\<close>

theorem gone_peer_misprediction:
  assumes "0 < maxp" "maxp < QUEUE_LEN" "maxp + 2 < k" "i \<noteq> d"
  shows "\<exists>sy. sync_add_remote_input 1 0 i (fst (alone d step ck s0 maxp j k)) = Inr sy \<and>
    sync_first_incorrect sy = 0 \<and> sync_check d sy = ([], sy)"
proof -
  obtain sy s where g: "alone d step ck s0 maxp j k = (sy, s)" by (metis surj_pair)
  have inv: "alone_inv d step ck s0 maxp j k (sy, s)" using alone_inv [OF assms(1,2)] g by metis
  then obtain tml where eng: "engine_at d step ck s0 [replicate k j, []] tml sy s" "length tml = k"
    by (auto simp: alone_inv_def)
  have len: "length (sy_queues sy) = 2" using eng by (auto simp: engine_at_def dest: players_allD)
  have q: "iq_inv d (sy_queues sy ! 1) [] (column 1 tml)"
    using eng len by (auto simp: engine_at_def dest: players_allD(2) [of _ _ _ _ 1])
  have "sync_delays sy ! 1 = 0" using inv by (simp add: alone_inv_def)
  then have delay: "iq_frame_delay (sy_queues sy ! 1) = 0"
    using len by (simp add: sync_delays_nth)
  let ?q = "snd (iq_add_input 0 i (sy_queues sy ! 1))"
  let ?sy = "sy\<lparr>sy_queues := (sy_queues sy)[1 := ?q]\<rparr>"
  have right: "\<forall>q \<in> set (sy_queues sy). iq_first_incorrect q = NULL_FRAME"
    using inv by (simp add: alone_inv_def all_right_def)
  have "iq_first_incorrect (sy_queues sy ! 1) = NULL_FRAME" using right len by simp
  then have guess: "column 1 tml ! 0 = d"
    using iq_core_settled [OF iq_inv_core [OF q], of 0] eng(2) assms(3)
    by (simp add: iq_spec_input_def last_or_def column_def)
  have core: "iq_core d ?q [i] (column 1 tml)"
    using iq_inv_core [OF iq_add_input_spec(2) [OF q, of 0 i]] delay
    by (simp add: iq_spec_add_def delay_i32_def i32_max_def)
  then have "iq_first_incorrect ?q \<noteq> NULL_FRAME"
    using iq_core_settled [OF core, of 0] guess assms(3,4) eng(2)
    by (auto simp: iq_spec_input_def column_def)
  then have fi: "iq_first_incorrect ?q = 0" using core by (auto simp: iq_core_def)
  obtain a b where ab: "sy_queues sy = [a, b]" using len by (auto simp: length_Suc_conv eval_nat_numeral)
  then have "map iq_first_incorrect (sy_queues ?sy) = [NULL_FRAME, 0]" using fi right by simp
  then have first: "sync_first_incorrect ?sy = 0"
    unfolding sync_first_incorrect_def by (simp add: NULL_FRAME_def)
  have frames: "ss_frames k (sy_saved sy)" and cap: "length (ss_cells (sy_saved sy)) = maxp + 2"
  proof -
    have "ss_window step ck s0 tml (sy_saved sy)" using eng(1) by (simp add: engine_at_def)
    then show "ss_frames k (sy_saved sy)" using ss_window_frames eng(2) by metis
    show "length (ss_cells (sy_saved sy)) = maxp + 2"
      using eng(1) inv by (simp add: engine_at_def alone_inv_def)
  qed
  have "ss_by_frame 0 (sy_saved sy) = None"
  proof (rule ccontr)
    assume "ss_by_frame 0 (sy_saved sy) \<noteq> None"
    then obtain c where "c < length (ss_cells (sy_saved sy))" "ci_frame (ss_cells (sy_saved sy) ! c) = int 0"
      by (auto simp: ss_by_frame_def NULL_FRAME_def find_idx_Some)
    then show False using ss_frames_cell [OF frames, of c 0] cap assms(3) by simp
  qed
  then have "sync_check d ?sy = ([], ?sy)"
    unfolding sync_check_def first Let_def by (simp add: sync_adjust_def NULL_FRAME_def)
  moreover have "sync_add_remote_input 1 0 i sy = Inr ?sy"
    using len by (simp add: sync_add_remote_input_def)
  ultimately show ?thesis using first g by auto
qed

theorem gone_peer_misprediction_witness:
  "\<exists>sy. sync_add_remote_input 1 0 9 (fst (alone 0 demo_step demo_ck 0 8 1 11)) = Inr sy \<and>
    sync_first_incorrect sy = 0 \<and> sync_check 0 sy = ([], sy)"
  by (rule gone_peer_misprediction) (simp_all add: QUEUE_LEN_def)

end
