(* ===== verification/SyncTest.thy ===== *)
theory SyncTest
  imports Session
begin

text \<open>
  The determinism check: \<open>fofoca-netplay/src/sync_test.rs\<close>. Every frame is rolled back by
  \<open>check_distance\<close> frames and re-simulated over the same inputs; the checksums must match the
  ones recorded first. The history of checksums is a map from frames.
\<close>

subsection \<open>The session\<close>

record ('s, 'i) sync_test =
  st_sync :: "('s, 'i) sync"
  st_num_players :: nat
  st_check_distance :: nat
  st_pending :: "'i option list"
  st_history :: "frame \<rightharpoonup> nat"

definition st_new :: "'i \<Rightarrow> nat \<Rightarrow> nat \<Rightarrow> ('s, 'i) sync_test" where
  "st_new d num_players check_distance =
     \<lparr>st_sync = sync_new d num_players (check_distance + 1) 0 0, st_num_players = num_players,
      st_check_distance = check_distance, st_pending = replicate num_players None,
      st_history = Map.empty\<rparr>"

definition st_add_input :: "nat \<Rightarrow> 'i \<Rightarrow> ('s, 'i) sync_test \<Rightarrow>
    rollback_error + ('s, 'i) sync_test" where
  "st_add_input player i st =
     (if player < length (st_pending st)
      then Inr (st\<lparr>st_pending := (st_pending st)[player := Some i]\<rparr>)
      else Inl (InvalidPlayer player))"

text \<open>\<open>Frame::try_from(n).unwrap_or(Frame::MAX)\<close>\<close>

definition frame_of_nat :: "nat \<Rightarrow> frame" where
  "frame_of_nat n = (if int n \<le> i32_max then int n else i32_max)"

fun st_harvest_loop :: "frame list \<Rightarrow> ('s, 'i) sync \<Rightarrow> (frame \<rightharpoonup> nat) \<Rightarrow>
    rollback_error + (frame \<rightharpoonup> nat)" where
  "st_harvest_loop [] sy history = Inr history"
| "st_harvest_loop (f # fs) sy history =
     (case ss_by_frame f (sy_saved sy) of
        None \<Rightarrow> st_harvest_loop fs sy history
      | Some cell \<Rightarrow>
          (case ci_checksum (ss_cells (sy_saved sy) ! cell) of
             None \<Rightarrow> st_harvest_loop fs sy history
           | Some checksum \<Rightarrow>
               (case history f of
                  Some previous \<Rightarrow>
                    if previous \<noteq> checksum then Inl (DesyncError f previous checksum)
                    else st_harvest_loop fs sy history
                | None \<Rightarrow> st_harvest_loop fs sy (history(f \<mapsto> checksum)))))"

text \<open>On an error the history keeps what was recorded before it; the session is not used after
  a reported desync, and the model returns the error alone.\<close>

definition st_harvest :: "('s, 'i) sync_test \<Rightarrow> rollback_error + ('s, 'i) sync_test" where
  "st_harvest st =
     (let current = sy_current (st_sync st);
          oldest = current - frame_of_nat (st_check_distance st + 1)
      in case st_harvest_loop [max oldest 0..current] (st_sync st) (st_history st) of
           Inl e \<Rightarrow> Inl e
         | Inr history \<Rightarrow>
             Inr (st\<lparr>st_history := (\<lambda>f. if f \<ge> max oldest 0 then history f else None)\<rparr>))"

fun st_file_all :: "nat \<Rightarrow> frame \<Rightarrow> 'i list \<Rightarrow> ('s, 'i) sync \<Rightarrow> rollback_error + ('s, 'i) sync" where
  "st_file_all player frame [] sy = Inr sy"
| "st_file_all player frame (i # is) sy =
     (case sync_add_remote_input player frame i sy of
        Inl e \<Rightarrow> Inl e
      | Inr sy' \<Rightarrow> st_file_all (Suc player) frame is sy')"

definition st_advance :: "'i \<Rightarrow> ('s, 'i) sync_test \<Rightarrow>
    rollback_error + 'i request list \<times> ('s, 'i) sync_test" where
  "st_advance d st0 =
     (case st_harvest st0 of
        Inl e \<Rightarrow> Inl e
      | Inr st \<Rightarrow>
          (case find_idx (\<lambda>p. p = None) (st_pending st) of
             Some missing \<Rightarrow> Inl (InvalidPlayer missing)
           | None \<Rightarrow>
               let frame = sy_current (st_sync st) in
               (case st_file_all 0 frame (map the (st_pending st)) (st_sync st) of
                  Inl e \<Rightarrow> Inl e
                | Inr sy0 \<Rightarrow>
                    let sy1 = sync_confirm_through frame sy0;
                        rollback_to = frame - frame_of_nat (st_check_distance st);
                        (undo, sy2) = (if rollback_to \<ge> 0 then sync_force_rollback d rollback_to sy1
                                       else ([], sy1));
                        (save, sy3) = sync_save_current sy2;
                        (inputs, sy4) = sync_synchronize_inputs d sy3
                    in Inr (undo @ [save, AdvanceFrame inputs],
                       st\<lparr>st_sync := sync_advance sy4,
                          st_pending := replicate (length (st_pending st)) None\<rparr>))))"

subsection \<open>Playing a frame\<close>

fun st_add_all :: "nat \<Rightarrow> 'i list \<Rightarrow> ('s, 'i) sync_test \<Rightarrow> rollback_error + ('s, 'i) sync_test" where
  "st_add_all player [] st = Inr st"
| "st_add_all player (i # is) st =
     (case st_add_input player i st of Inl e \<Rightarrow> Inl e | Inr st' \<Rightarrow> st_add_all (Suc player) is st')"

definition st_play :: "'i \<Rightarrow> ('s \<Rightarrow> 'i list \<Rightarrow> 's) \<Rightarrow> ('s \<Rightarrow> nat option) \<Rightarrow> 'i list \<Rightarrow>
    ('s, 'i) sync_test \<times> 's \<Rightarrow> (rollback_error + ('s, 'i) sync_test \<times> 's) option" where
  "st_play d step ck row g =
     (case st_add_all 0 row (fst g) of
        Inl e \<Rightarrow> Some (Inl e)
      | Inr st \<Rightarrow>
          (case st_advance d st of
             Inl e \<Rightarrow> Some (Inl e)
           | Inr (rs, st') \<Rightarrow>
               (case fulfil_all step ck rs (ss_cells (sy_saved (st_sync st')), snd g) of
                  None \<Rightarrow> None
                | Some (cells, s') \<Rightarrow>
                    Some (Inr (st'\<lparr>st_sync := with_cells cells (st_sync st')\<rparr>, s')))))"

fun st_play_all :: "'i \<Rightarrow> ('s \<Rightarrow> 'i list \<Rightarrow> 's) \<Rightarrow> ('s \<Rightarrow> nat option) \<Rightarrow> 'i list list \<Rightarrow>
    ('s, 'i) sync_test \<times> 's \<Rightarrow> (rollback_error + ('s, 'i) sync_test \<times> 's) option" where
  "st_play_all d step ck [] g = Some (Inr g)"
| "st_play_all d step ck (row # rows) g =
     (case st_play d step ck row g of
        Some (Inr g') \<Rightarrow> st_play_all d step ck rows g'
      | other \<Rightarrow> other)"

lemma st_add_all_eq:
  "k + length is = length (st_pending st) \<Longrightarrow>
   st_add_all k is st = Inr (st\<lparr>st_pending := take k (st_pending st) @ map Some is\<rparr>)"
proof (induction "is" arbitrary: k st)
  case (Cons i "is")
  let ?st = "st\<lparr>st_pending := (st_pending st)[k := Some i]\<rparr>"
  have "st_add_all (Suc k) is ?st = Inr (?st\<lparr>st_pending := take (Suc k) (st_pending ?st) @ map Some is\<rparr>)"
    by (rule Cons.IH) (use Cons.prems in simp)
  moreover have "take (Suc k) ((st_pending st)[k := Some i]) = take k (st_pending st) @ [Some i]"
    using Cons.prems by (simp add: take_Suc_conv_app_nth)
  ultimately show ?case using Cons.prems by (simp add: st_add_input_def)
qed simp

lemma st_file_all_eq:
  "k + length is = length (sy_queues sy) \<Longrightarrow>
   st_file_all k f is sy = Inr (sy\<lparr>sy_queues := take k (sy_queues sy) @
     map2 (\<lambda>i q. snd (iq_add_input f i q)) is (drop k (sy_queues sy))\<rparr>)"
proof (induction "is" arbitrary: k sy)
  case (Cons i "is")
  let ?q = "snd (iq_add_input f i (sy_queues sy ! k))"
  let ?sy = "sy\<lparr>sy_queues := (sy_queues sy)[k := ?q]\<rparr>"
  have "st_file_all (Suc k) f is ?sy = Inr (?sy\<lparr>sy_queues := take (Suc k) (sy_queues ?sy) @
     map2 (\<lambda>i q. snd (iq_add_input f i q)) is (drop (Suc k) (sy_queues ?sy))\<rparr>)"
    by (rule Cons.IH) (use Cons.prems in simp)
  moreover have "take (Suc k) ((sy_queues sy)[k := ?q]) = take k (sy_queues sy) @ [?q]"
    using Cons.prems by (simp add: take_Suc_conv_app_nth)
  moreover have "drop k (sy_queues sy) = sy_queues sy ! k # drop (Suc k) (sy_queues sy)"
    using Cons.prems by (simp add: Cons_nth_drop_Suc)
  ultimately show ?case using Cons.prems by (simp add: sync_add_remote_input_def)
qed simp

subsection \<open>A deterministic game\<close>

definition columns :: "nat \<Rightarrow> 'i list list \<Rightarrow> 'i list list" where
  "columns n rows = map (\<lambda>p. column p rows) [0..<n]"

definition st_inv :: "nat \<Rightarrow> nat \<Rightarrow> 'i \<Rightarrow> ('s \<Rightarrow> 'i list \<Rightarrow> 's) \<Rightarrow> ('s \<Rightarrow> nat option) \<Rightarrow> 's \<Rightarrow>
    'i list list \<Rightarrow> ('s, 'i) sync_test \<times> 's \<Rightarrow> bool" where
  "st_inv n c d step ck s0 rows g \<longleftrightarrow>
     (let st = fst g; sy = st_sync st in
      engine_at d step ck s0 (columns n rows) rows sy (snd g) \<and> all_right sy \<and>
      sy_max_prediction sy = c + 1 \<and> sync_delays sy = replicate n 0 \<and>
      st_check_distance st = c \<and> st_pending st = replicate n None \<and>
      (\<forall>f v. st_history st f = Some v \<longrightarrow>
         (\<exists>g. f = int g \<and> ck (state_at step s0 rows g) = Some v \<and> g \<le> length rows)))"

lemma harvest_loop_ok:
  assumes win: "ss_window step ck s0 rows (sy_saved sy)" and "\<forall>f \<in> set fs. 0 \<le> f"
    and "\<forall>f v. h f = Some v \<longrightarrow> (\<exists>g. f = int g \<and> ck (state_at step s0 rows g) = Some v \<and> g \<le> length rows)"
  shows "\<exists>h'. st_harvest_loop fs sy h = Inr h' \<and>
    (\<forall>f v. h' f = Some v \<longrightarrow> (\<exists>g. f = int g \<and> ck (state_at step s0 rows g) = Some v \<and> g \<le> length rows))"
  using assms(2,3)
proof (induction fs arbitrary: h)
  case (Cons f fs)
  obtain g where f: "f = int g" using Cons.prems(1) by (metis list.set_intros(1) nonneg_int_cases)
  show ?case
  proof (cases "ss_by_frame f (sy_saved sy)")
    case None
    then show ?thesis using Cons by simp
  next
    case (Some c)
    then have cell: "ss_cells (sy_saved sy) ! c = saved_cell step ck s0 rows g" "g < length rows"
      using ss_by_frame_cell [OF win] f by auto
    show ?thesis
    proof (cases "ck (state_at step s0 rows g)")
      case None
      then show ?thesis using Cons Some cell by (simp add: saved_cell_def)
    next
      case (Some v)
      show ?thesis
      proof (cases "h f")
        case None
        let ?h = "h(f \<mapsto> v)"
        have "\<exists>h'. st_harvest_loop fs sy ?h = Inr h' \<and> (\<forall>f v. h' f = Some v \<longrightarrow>
            (\<exists>g. f = int g \<and> ck (state_at step s0 rows g) = Some v \<and> g \<le> length rows))"
          by (rule Cons.IH) (use Cons.prems Some f cell(2) in auto)
        then show ?thesis
          using None Some \<open>ss_by_frame f (sy_saved sy) = Some c\<close> cell by (simp add: saved_cell_def)
      next
        case (Some w)
        then have "w = v" using Cons.prems(2) f \<open>ck (state_at step s0 rows g) = Some v\<close> by force
        then show ?thesis
          using Cons Some \<open>ss_by_frame f (sy_saved sy) = Some c\<close> cell \<open>ck (state_at step s0 rows g) = Some v\<close>
          by (simp add: saved_cell_def)
      qed
    qed
  qed
qed simp

lemma columns_nth [simp]: "p < n \<Longrightarrow> columns n rows ! p = column p rows"
  by (simp add: columns_def)

lemma columns_length [simp]: "length (columns n rows) = n"
  by (simp add: columns_def)

lemma spec_row_columns:
  assumes "length (rows ! f) = n" "f < length rows"
  shows "spec_row d (columns n rows) f = rows ! f"
  by (rule nth_equalityI)
    (use assms in \<open>auto simp: spec_row_def iq_spec_input_def column_def\<close>)

lemma st_file_inv:
  assumes eng: "engine_at d step ck s0 (columns n rows) rows sy s" and right: "all_right sy"
    and delays: "sync_delays sy = replicate n 0" and row: "length row = n"
  defines "qs \<equiv> map2 (\<lambda>i q. snd (iq_add_input (sy_current sy) i q)) row (sy_queues sy)"
  shows "engine_at d step ck s0 (columns n (rows @ [row])) rows (sy\<lparr>sy_queues := qs\<rparr>) s"
    and "all_right (sy\<lparr>sy_queues := qs\<rparr>)"
    and "sync_delays (sy\<lparr>sy_queues := qs\<rparr>) = replicate n 0"
proof -
  have n: "length (sy_queues sy) = n" using delays by (metis length_replicate sync_delays_length)
  have cur: "sy_current sy = int (length rows)" using eng by (simp add: engine_at_def)
  have q: "iq_inv d (qs ! p) (column p (rows @ [row])) (column p rows)"
    "iq_first_incorrect (qs ! p) = NULL_FRAME" "iq_frame_delay (qs ! p) = 0" if p: "p < n" for p
  proof -
    have inv: "iq_inv d (sy_queues sy ! p) (column p rows) (column p rows)"
      using eng p n by (auto simp: engine_at_def dest: players_allD(2) [of _ _ _ _ p])
    have delay: "iq_frame_delay (sy_queues sy ! p) = 0"
      using delays p n by (metis nth_replicate sync_delays_nth)
    have qp: "qs ! p = snd (iq_add_input (int (length rows)) (row ! p) (sy_queues sy ! p))"
      using p n row by (simp add: qs_def cur)
    have "iq_spec_add d (column p rows) (int (length rows) + delay_i32 0) (row ! p) =
        column p (rows @ [row])"
      by (simp add: iq_spec_add_def delay_i32_def i32_max_def column_def)
    then show new: "iq_inv d (qs ! p) (column p (rows @ [row])) (column p rows)"
      using iq_add_input_spec(2) [OF inv, of "int (length rows)" "row ! p"] delay qp by simp
    show "iq_frame_delay (qs ! p) = 0"
      using iq_add_input_spec(3) [OF inv, of "int (length rows)" "row ! p"] delay qp by simp
    have "iq_first_incorrect (sy_queues sy ! p) = NULL_FRAME"
      using right p n by (simp add: all_right_def)
    then show "iq_first_incorrect (qs ! p) = NULL_FRAME"
      using iq_add_input_first_incorrect [OF inv, of "int (length rows)" "row ! p"]
        iq_inv_core [OF new] qp by (auto simp: iq_core_def column_def)
  qed
  have len: "length qs = n" using n row by (simp add: qs_def)
  have "players_all (iq_inv d) qs (columns n (rows @ [row])) rows"
    using q(1) len by (simp add: players_all_def)
  then show "engine_at d step ck s0 (columns n (rows @ [row])) rows (sy\<lparr>sy_queues := qs\<rparr>) s"
    using eng len n by (simp add: engine_at_def)
  show "all_right (sy\<lparr>sy_queues := qs\<rparr>)"
    using q(2) len by (auto simp: all_right_def in_set_conv_nth)
  show "sync_delays (sy\<lparr>sy_queues := qs\<rparr>) = replicate n 0"
    using q(3) len by (auto simp: sync_delays_def list_eq_iff_nth_eq)
qed

text \<open>The forced rollback redoes the frames it undid.\<close>

lemma st_undo:
  assumes eng: "engine_at d step ck s0 (columns n (rows @ [row])) rows sy s"
    and right: "all_right sy" and rows: "\<forall>r \<in> set (rows @ [row]). length r = n"
    and c: "0 < c" "c < QUEUE_LEN" "sy_max_prediction sy = c + 1"
  shows "\<exists>rs qs cells.
    (if int (length rows) - frame_of_nat c \<ge> 0
     then sync_force_rollback d (int (length rows) - frame_of_nat c) sy else ([], sy)) =
      (rs, sy\<lparr>sy_queues := qs\<rparr>) \<and>
    fulfil_all step ck rs (ss_cells (sy_saved sy), s) = Some (cells, s) \<and>
    map ci_frame cells = map ci_frame (ss_cells (sy_saved sy)) \<and>
    engine_at d step ck s0 (columns n (rows @ [row])) rows (with_cells cells (sy\<lparr>sy_queues := qs\<rparr>)) s \<and>
    queues_ready d qs (columns n (rows @ [row])) rows"
proof (cases "c \<le> length rows")
  case False
  have "int c \<le> i32_max" using c(2) by (simp add: QUEUE_LEN_def i32_max_def)
  then have no: "\<not> int (length rows) - frame_of_nat c \<ge> 0" using False by (simp add: frame_of_nat_def)
  have "queues_ready d (sy_queues sy) (columns n (rows @ [row])) rows"
    using eng right by (auto simp: queues_ready_def engine_at_def all_right_def columns_def column_def
        QUEUE_LEN_def elim: players_all_mono intro: iq_inv_core)
  then show ?thesis
    using eng no by (intro exI [of _ "[]"] exI [of _ "sy_queues sy"]
        exI [of _ "ss_cells (sy_saved sy)"]) (simp add: with_cells_def)
next
  case True
  have "int c \<le> i32_max" using c(2) by (simp add: QUEUE_LEN_def i32_max_def)
  then have k: "int (length rows) - frame_of_nat c = int (length rows - c)"
    using True by (simp add: frame_of_nat_def of_nat_diff)
  have cap: "length (ss_cells (sy_saved sy)) = c + 3"
    and s: "s = state_at step s0 rows (length rows)"
    using eng c(3) by (auto simp: engine_at_def)
  have same: "map (spec_row d (columns n (rows @ [row]))) [0..<length rows] = rows"
  proof (rule nth_equalityI)
    fix f assume "f < length (map (spec_row d (columns n (rows @ [row]))) [0..<length rows])"
    then have f: "f < length rows" by simp
    then have "rows ! f \<in> set (rows @ [row])" by simp
    then have "spec_row d (columns n (rows @ [row])) f = (rows @ [row]) ! f"
      by (intro spec_row_columns) (use rows f in \<open>auto simp: nth_append\<close>)
    then show "map (spec_row d (columns n (rows @ [row]))) [0..<length rows] ! f = rows ! f"
      using f by (simp add: nth_append)
  qed simp
  have k1: "length rows - c < length rows" using True c(1) by simp
  have k2: "length rows \<le> length rows - c + length (ss_cells (sy_saved sy))" using cap by simp
  have wrong: "\<forall>q \<in> set (sy_queues sy). iq_first_incorrect q = NULL_FRAME \<or>
      int (length rows - c) \<le> iq_first_incorrect q"
    using right by (simp add: all_right_def)
  have age: "\<forall>h \<in> set (columns n (rows @ [row])). length h \<le> length rows - c + QUEUE_LEN"
    using c(2) True by (auto simp: columns_def column_def)
  obtain rs qs cells s' where a:
    "sync_adjust d (int (length rows - c)) sy = (rs, sy\<lparr>sy_queues := qs\<rparr>)"
    "fulfil_all step ck rs (ss_cells (sy_saved sy), s) = Some (cells, s')"
    "map ci_frame cells = map ci_frame (ss_cells (sy_saved sy))"
    "engine_at d step ck s0 (columns n (rows @ [row])) rows
        (sy\<lparr>sy_queues := qs, sy_saved := (sy_saved sy)\<lparr>ss_cells := cells\<rparr>\<rparr>) s'"
    "queues_ready d qs (columns n (rows @ [row])) rows"
    using sync_adjust_spec [OF eng k1 k2 wrong age, unfolded same] by blast
  have "s' = s" using a(4) s by (simp add: engine_at_def)
  then show ?thesis using a True
    by (intro exI [of _ rs] exI [of _ qs] exI [of _ cells])
      (simp add: k sync_force_rollback_def with_cells_def)
qed

lemma st_history_mono:
  assumes "\<exists>g. f = int g \<and> ck (state_at step s0 rows g) = Some v \<and> g \<le> length rows"
  shows "\<exists>g. f = int g \<and> ck (state_at step s0 (rows @ [row]) g) = Some v \<and> g \<le> length (rows @ [row])"
  using assms by (metis le_SucI length_append_singleton state_at_append)

lemma sync_delays_resim_queues:
  "sync_delays (snd (sync_force_rollback d k sy)) = sync_delays sy"
  by (simp add: sync_force_rollback_def sync_adjust_def Let_def split_beta sync_delays_resim
      split: option.split) (simp add: sync_delays_def comp_def)

lemma st_play_ok:
  assumes inv: "st_inv n c d step ck s0 rows g" and rows: "\<forall>r \<in> set (rows @ [row]). length r = n"
    and c: "0 < c" "c < QUEUE_LEN"
  shows "\<exists>g'. st_play d step ck row g = Some (Inr g') \<and>
    st_inv n c d step ck s0 (rows @ [row]) g'"
proof -
  obtain st s where g: "g = (st, s)" by (cases g)
  let ?sy = "st_sync st"
  note I = inv [unfolded st_inv_def Let_def g fst_conv snd_conv]
  have eng: "engine_at d step ck s0 (columns n rows) rows ?sy s" and right: "all_right ?sy"
    and mp: "sy_max_prediction ?sy = c + 1" and delays: "sync_delays ?sy = replicate n 0"
    and cd: "st_check_distance st = c" and pend: "st_pending st = replicate n None"
    and hist: "\<forall>f v. st_history st f = Some v \<longrightarrow>
      (\<exists>g. f = int g \<and> ck (state_at step s0 rows g) = Some v \<and> g \<le> length rows)"
    using I by blast+
  have row: "length row = n" using rows by simp
  have n: "length (sy_queues ?sy) = n" using delays by (metis length_replicate sync_delays_length)
  have cur: "sy_current ?sy = int (length rows)" and win: "ss_window step ck s0 rows (sy_saved ?sy)"
    using eng by (simp_all add: engine_at_def)
  have add: "st_add_all 0 row st = Inr (st\<lparr>st_pending := map Some row\<rparr>)"
    using st_add_all_eq [of 0 row st] row pend by simp
  have nonneg: "\<forall>f \<in> set [max (sy_current ?sy - frame_of_nat (c + 1)) 0..sy_current ?sy]. 0 \<le> f"
    by auto
  obtain h' where h': "st_harvest_loop
      [max (sy_current ?sy - frame_of_nat (c + 1)) 0..sy_current ?sy] ?sy (st_history st) = Inr h'"
    "\<forall>f v. h' f = Some v \<longrightarrow>
      (\<exists>g. f = int g \<and> ck (state_at step s0 rows g) = Some v \<and> g \<le> length rows)"
    using harvest_loop_ok [OF win nonneg hist] by blast
  define h'' where "h'' = (\<lambda>f. if f \<ge> max (sy_current ?sy - frame_of_nat (c + 1)) 0 then h' f else None)"
  have harvest: "st_harvest (st\<lparr>st_pending := map Some row\<rparr>) =
      Inr (st\<lparr>st_pending := map Some row, st_history := h''\<rparr>)"
    using h'(1) by (simp add: st_harvest_def cd h''_def Let_def)
  have present: "find_idx (\<lambda>p. p = None) (map Some row) = None" by (auto simp: find_idx_None)
  define qs0 where "qs0 = map2 (\<lambda>i q. snd (iq_add_input (sy_current ?sy) i q)) row (sy_queues ?sy)"
  have filing: "st_file_all 0 (sy_current ?sy) row ?sy = Inr (?sy\<lparr>sy_queues := qs0\<rparr>)"
    using st_file_all_eq [of 0 row ?sy "sy_current ?sy"] row n by (simp add: qs0_def)
  let ?sy1 = "sync_confirm_through (sy_current ?sy) (?sy\<lparr>sy_queues := qs0\<rparr>)"
  note f = st_file_inv [OF eng right delays row, folded qs0_def]
  have eng1: "engine_at d step ck s0 (columns n (rows @ [row])) rows ?sy1 s"
    using f(1) by (simp add: engine_at_def sync_confirm_through_def)
  have right1: "all_right ?sy1" using f(2) by (simp add: all_right_def sync_confirm_through_def)
  have mp1: "sy_max_prediction ?sy1 = c + 1" using mp by (simp add: sync_confirm_through_def)
  let ?undo = "if int (length rows) - frame_of_nat c \<ge> 0
     then sync_force_rollback d (int (length rows) - frame_of_nat c) ?sy1 else ([], ?sy1)"
  obtain rs qs cells where u: "?undo = (rs, ?sy1\<lparr>sy_queues := qs\<rparr>)"
    "fulfil_all step ck rs (ss_cells (sy_saved ?sy1), s) = Some (cells, s)"
    "map ci_frame cells = map ci_frame (ss_cells (sy_saved ?sy1))"
    "engine_at d step ck s0 (columns n (rows @ [row])) rows
       (with_cells cells (?sy1\<lparr>sy_queues := qs\<rparr>)) s"
    "queues_ready d qs (columns n (rows @ [row])) rows"
    using st_undo [OF eng1 right1 rows c mp1] by blast
  let ?sy2 = "?sy1\<lparr>sy_queues := qs\<rparr>"
  let ?sy3 = "snd (sync_save_current ?sy2)"
  let ?sy4 = "sync_advance (snd (sync_synchronize_inputs d ?sy3))"
  have ready: "queues_ready d (sy_queues ?sy2) (columns n (rows @ [row])) rows" using u(5) by simp
  have frames: "map ci_frame cells = map ci_frame (ss_cells (sy_saved ?sy2))" using u(3) by simp
  note fin = sync_finish_cells [OF u(4) ready frames u(2)]
  let ?rs = "rs @ [fst (sync_save_current ?sy2), AdvanceFrame (fst (sync_synchronize_inputs d ?sy3))]"
  have u1: "(if frame_of_nat c \<le> sy_current ?sy
      then sync_force_rollback d (sy_current ?sy - frame_of_nat c) ?sy1 else ([], ?sy1)) = (rs, ?sy2)"
    using u(1) unfolding cur diff_ge_0_iff_ge .
  have adv: "st_advance d (st\<lparr>st_pending := map Some row\<rparr>) =
      Inr (?rs, st\<lparr>st_history := h'', st_sync := ?sy4, st_pending := replicate n None\<rparr>)"
    using row
    by (simp add: st_advance_def harvest present filing cd u1 Let_def split_beta comp_def)
  have "spec_row d (columns n (rows @ [row])) (length rows) = row"
    using spec_row_columns [of "rows @ [row]" "length rows" n d] row by simp
  then obtain cells' s' where r:
      "fulfil_all step ck ?rs (ss_cells (sy_saved ?sy1), s) = Some (cells', s')"
      "engine_at d step ck s0 (columns n (rows @ [row])) (rows @ [row]) (with_cells cells' ?sy4) s'"
    using fin(1) by auto
  have "sy_saved ?sy1 = sy_saved ?sy" by (simp add: sync_confirm_through_def)
  moreover have "ss_cells (sy_saved ?sy4) = ss_cells (sy_saved ?sy1)"
    by (simp add: sync_advance_def sync_synchronize_inputs_def sync_save_current_def Let_def
        ss_push_def split: prod.split option.split)
  ultimately have play: "st_play d step ck row g =
      Some (Inr (st\<lparr>st_history := h'', st_sync := with_cells cells' ?sy4,
        st_pending := replicate n None\<rparr>, s'))"
    using r(1) by (simp add: st_play_def g add adv)
  have "sync_delays (snd ?undo) = sync_delays ?sy1" by (simp add: sync_delays_resim_queues)
  then have "sync_delays ?sy2 = sync_delays ?sy1" unfolding u(1) by simp
  then have "sync_delays ?sy2 = replicate n 0"
    using f(3) by (simp add: sync_delays_def sync_confirm_through_def)
  then have "sync_delays (with_cells cells' ?sy4) = replicate n 0" by simp
  moreover have "all_right (with_cells cells' ?sy4)" using fin(2) by (simp add: all_right_def)
  moreover have "sy_max_prediction (with_cells cells' ?sy4) = c + 1" using fin(3) mp1 by simp
  moreover have "\<forall>f v. h'' f = Some v \<longrightarrow> (\<exists>g. f = int g \<and>
      ck (state_at step s0 (rows @ [row]) g) = Some v \<and> g \<le> length (rows @ [row]))"
  proof (intro allI impI)
    fix f v assume "h'' f = Some v"
    then have "h' f = Some v" by (simp add: h''_def split: if_splits)
    then show "\<exists>g. f = int g \<and> ck (state_at step s0 (rows @ [row]) g) = Some v \<and>
        g \<le> length (rows @ [row])"
      using h'(2) by (intro st_history_mono) simp
  qed
  ultimately have "st_inv n c d step ck s0 (rows @ [row]) (st\<lparr>st_history := h'',
      st_sync := with_cells cells' ?sy4, st_pending := replicate n None\<rparr>, s')"
    using r(2) cd by (simp add: st_inv_def Let_def)
  with play show ?thesis by blast
qed

lemma st_inv_new:
  fixes d :: 'i and s0 :: 's
  assumes "0 < n"
  shows "st_inv n c d step ck s0 [] (st_new d n c, s0)"
proof -
  define sy :: "('s, 'i) sync" where "sy = sync_new d n (c + 1) 0 0"
  have "rb_inv d step ck s0 0 0 (replicate n []) [] sy s0"
    unfolding sy_def by (rule rb_inv_init) (use assms in \<open>simp_all add: i32_max_def\<close>)
  then have eng: "engine_at d step ck s0 (replicate n []) [] sy s0" by (simp add: rb_inv_def)
  have cols: "columns n [] = replicate n []" by (rule nth_equalityI) auto
  have per: "iq_first_incorrect (sy_queues sy ! p) = NULL_FRAME \<and>
      iq_frame_delay (sy_queues sy ! p) = 0" if "p < n" for p
    using assms that
    by (cases "p = 0") (simp_all add: sy_def sync_new_def Let_def iq_new_def iq_set_frame_delay_def)
  have len: "length (sy_queues sy) = n" by (simp add: sy_def sync_new_def Let_def)
  have "all_right sy" using per len by (auto simp: all_right_def in_set_conv_nth)
  moreover have "sync_delays sy = replicate n 0"
    using per len by (intro nth_equalityI) (simp_all add: sync_delays_def)
  ultimately show ?thesis using eng by (simp add: st_inv_def st_new_def Let_def cols sy_def)
qed

lemma st_play_all_ok:
  assumes "st_inv n c d step ck s0 rows g" "0 < c" "c < QUEUE_LEN"
    and "\<forall>r \<in> set (rows @ rest). length r = n"
  shows "\<exists>g'. st_play_all d step ck rest g = Some (Inr g') \<and> st_inv n c d step ck s0 (rows @ rest) g'"
  using assms
proof (induction rest arbitrary: rows g)
  case (Cons row rest)
  obtain g' where "st_play d step ck row g = Some (Inr g')" "st_inv n c d step ck s0 (rows @ [row]) g'"
    using st_play_ok [OF Cons.prems(1) _ Cons.prems(2,3), of row] Cons.prems(4) by auto
  then show ?case using Cons.IH [of "rows @ [row]" g'] Cons.prems by simp
qed auto

text \<open>The comparison of checksums, frame by frame.\<close>

definition conflict :: "('s, 'i) sync \<Rightarrow> (frame \<rightharpoonup> nat) \<Rightarrow> frame \<Rightarrow> nat \<Rightarrow> nat \<Rightarrow> bool" where
  "conflict sy h f previous checksum \<longleftrightarrow>
     (\<exists>c. ss_by_frame f (sy_saved sy) = Some c \<and> h f = Some previous \<and>
        ci_checksum (ss_cells (sy_saved sy) ! c) = Some checksum \<and> previous \<noteq> checksum)"

lemma harvest_loop_detects:
  "distinct fs \<Longrightarrow>
   (case st_harvest_loop fs sy h of
      Inl e \<Rightarrow> \<exists>f \<in> set fs. \<exists>p v. e = DesyncError f p v \<and> conflict sy h f p v
    | Inr h' \<Rightarrow> \<forall>f \<in> set fs. \<forall>p v. \<not> conflict sy h f p v)"
proof (induction fs arbitrary: h)
  case (Cons f fs)
  have other: "conflict sy (h(f \<mapsto> w)) f' p v = conflict sy h f' p v" if "f' \<in> set fs" for f' p v w
    using Cons.prems that by (auto simp: conflict_def)
  have rest: "?case" if "st_harvest_loop (f # fs) sy h = st_harvest_loop fs sy h'"
      "\<forall>p v. \<not> conflict sy h f p v" "\<forall>f' \<in> set fs. \<forall>p v. conflict sy h' f' p v = conflict sy h f' p v" for h'
    using Cons.IH [of h'] Cons.prems that by (auto split: sum.splits)
  show ?case
  proof (cases "ss_by_frame f (sy_saved sy)")
    case None
    then show ?thesis by (intro rest [of h]) (simp_all add: conflict_def)
  next
    case (Some c)
    note c = Some
    show ?thesis
    proof (cases "ci_checksum (ss_cells (sy_saved sy) ! c)")
      case None
      then show ?thesis using c by (intro rest [of h]) (simp_all add: conflict_def)
    next
      case (Some v)
      note v = Some
      show ?thesis
      proof (cases "h f")
        case None
        then show ?thesis using c v other by (intro rest [of "h(f \<mapsto> v)"]) (simp_all add: conflict_def)
      next
        case (Some p)
        show ?thesis
        proof (cases "p = v")
          case True
          then show ?thesis using c v Some by (intro rest [of h]) (simp_all add: conflict_def)
        qed (use c v Some in \<open>simp add: conflict_def\<close>)
      qed
    qed
  qed
qed simp

subsection \<open>Properties\<close>

text \<open>C35: A deterministic game passes the determinism check: whatever the inputs, with a check
  distance of 1 up to 127 frames, no frame of it is ever reported, every request can be
  fulfilled, and the game is in the state its inputs determine.\<close>

theorem sync_test_accepts:
  assumes "0 < n" "0 < c" "c < QUEUE_LEN" "\<forall>row \<in> set rows. length row = n"
  shows "\<exists>st. st_play_all d step ck rows (st_new d n c, s0) = Some (Inr (st, foldl step s0 rows))"
proof -
  obtain st s where "st_play_all d step ck rows (st_new d n c, s0) = Some (Inr (st, s))"
    "st_inv n c d step ck s0 rows (st, s)"
    using st_play_all_ok [OF st_inv_new [OF assms(1), of c d step ck s0] assms(2,3), of rows] assms(4)
    by (metis append_Nil surj_pair)
  moreover from this have "s = foldl step s0 rows"
    by (simp add: st_inv_def engine_at_def state_at_def Let_def)
  ultimately show ?thesis by blast
qed

theorem sync_test_accepts_witness:
  "\<exists>st. st_play_all 0 demo_step demo_ck [[1, 2], [3, 4], [5, 6]] (st_new 0 2 2, 0) =
     Some (Inr (st, foldl demo_step 0 [[1, 2], [3, 4], [5, 6]]))"
  by (rule sync_test_accepts) (simp_all add: QUEUE_LEN_def)

text \<open>C29: A difference is reported: harvesting fails exactly when the saved state of some frame
  of the window has a checksum other than the one recorded for it, and names such a frame with
  both checksums.\<close>

theorem sync_test_detects:
  "let sy = st_sync st;
       fs = [max (sy_current sy - frame_of_nat (st_check_distance st + 1)) 0..sy_current sy]
   in case st_harvest st of
        Inl e \<Rightarrow> \<exists>f \<in> set fs. \<exists>p v. e = DesyncError f p v \<and> conflict sy (st_history st) f p v
      | Inr _ \<Rightarrow> {(f, p, v). f \<in> set fs \<and> conflict sy (st_history st) f p v} = {}"
  using harvest_loop_detects [of "[max (sy_current (st_sync st) -
      frame_of_nat (st_check_distance st + 1)) 0..sy_current (st_sync st)]" "st_sync st" "st_history st"]
  by (auto simp: st_harvest_def Let_def split: sum.splits)

end
