(* ===== verification/Chunks.thy ===== *)
theory Chunks
  imports Prelude
begin

text \<open>
  Content addressing: \<open>fofoca-chunks/src/lib.rs\<close>. The hash function (\<open>blake3\<close>, a crate) is the
  parameter \<open>H\<close> of every definition that hashes. Text is a list of UTF-8 bytes, as \<open>from_hex\<close>
  reads it; \<open>u64\<close> sizes are \<open>nat\<close>s with saturation written out; \<open>usize\<close> is 64 bits wide, so
  the conversions between the two do not fail below \<open>2 ^ 64\<close>.
\<close>

unbundle bit_operations_syntax

subsection \<open>Addresses and their text form\<close>

datatype chunk_address = ChunkHash bytes
datatype root = Root bytes

datatype chunk_error =
    BadHexLength nat
  | BadHexDigit
  | RowLength nat nat
  | CoverageTooShort nat nat
  | MapTooShort nat
  | LeavesTooShort nat nat nat
  | AddressMismatch chunk_address chunk_address
  | NoStoredMap
  | SizeChanged nat nat

definition ascii :: "nat \<Rightarrow> byte" where
  "ascii n = word_of_nat n"

text \<open>One digit of \<open>{byte:02x}\<close>.\<close>

definition hex_digit :: "byte \<Rightarrow> byte" where
  "hex_digit v = (if v < 10 then v + 48 else v - 10 + 97)"

definition to_hex :: "bytes \<Rightarrow> bytes" where
  "to_hex bs = concat (map (\<lambda>b. [hex_digit (drop_bit 4 b), hex_digit (b AND 15)]) bs)"

definition hex_nibble :: "byte \<Rightarrow> byte option" where
  "hex_nibble b =
     (if 48 \<le> b \<and> b \<le> 57 then Some (b - 48)
      else if 97 \<le> b \<and> b \<le> 102 then Some (b - 97 + 10)
      else if 65 \<le> b \<and> b \<le> 70 then Some (b - 65 + 10)
      else None)"

fun hex_pairs :: "bytes \<Rightarrow> bytes option" where
  "hex_pairs (h # l # rest) =
     (case (hex_nibble h, hex_nibble l) of
        (Some high, Some low) \<Rightarrow>
          (case hex_pairs rest of
             None \<Rightarrow> None
           | Some bs \<Rightarrow> Some ((push_bit 4 high OR low) # bs))
      | _ \<Rightarrow> None)"
| "hex_pairs _ = Some []"

definition from_hex :: "bytes \<Rightarrow> chunk_error + bytes" where
  "from_hex t =
     (if length t \<noteq> 64 then Inl (BadHexLength (length t))
      else case hex_pairs t of None \<Rightarrow> Inl BadHexDigit | Some bs \<Rightarrow> Inr bs)"

subsection \<open>Chunk maps\<close>

definition CHUNK_BYTES :: nat where "CHUNK_BYTES = 65536"

definition chunk_hash :: "(bytes \<Rightarrow> bytes) \<Rightarrow> bytes \<Rightarrow> chunk_address" where
  "chunk_hash H bs = ChunkHash (H bs)"

definition chunk_count :: "nat \<Rightarrow> nat" where
  "chunk_count sz = div_ceil sz CHUNK_BYTES"

record chunk_map =
  cm_root :: root
  cm_leaves :: "chunk_address list"
  cm_size :: nat

text \<open>\<open>ROOT_CONTEXT\<close> is \<open>fofoca-chunks/root/v1\<close> in ASCII.\<close>

definition ROOT_CONTEXT :: bytes where
  "ROOT_CONTEXT = [102, 111, 102, 111, 99, 97, 45, 99, 104, 117, 110, 107, 115, 47,
     114, 111, 111, 116, 47, 118, 49]"

fun hash_bytes :: "chunk_address \<Rightarrow> bytes" where
  "hash_bytes (ChunkHash bs) = bs"

fun root_bytes :: "root \<Rightarrow> bytes" where
  "root_bytes (Root bs) = bs"

definition root_of :: "(bytes \<Rightarrow> bytes) \<Rightarrow> chunk_address list \<Rightarrow> nat \<Rightarrow> root" where
  "root_of H leaves sz =
     Root (H (ROOT_CONTEXT @ le_bytes 8 sz @ concat (map hash_bytes leaves)))"

definition cm_from_leaves :: "(bytes \<Rightarrow> bytes) \<Rightarrow> chunk_address list \<Rightarrow> nat \<Rightarrow> chunk_error + chunk_map" where
  "cm_from_leaves H leaves sz =
     (if length leaves \<noteq> chunk_count sz
      then Inl (RowLength (chunk_count sz) (length leaves))
      else Inr \<lparr>cm_root = root_of H leaves sz, cm_leaves = leaves, cm_size = sz\<rparr>)"

text \<open>The builder; \<open>None\<close> is its panic.\<close>

record chunk_map_builder =
  cb_leaves :: "chunk_address list"
  cb_size :: nat
  cb_short_seen :: bool

definition cb_new :: chunk_map_builder where
  "cb_new = \<lparr>cb_leaves = [], cb_size = 0, cb_short_seen = False\<rparr>"

definition cb_push :: "(bytes \<Rightarrow> bytes) \<Rightarrow> bytes \<Rightarrow> chunk_map_builder \<Rightarrow> chunk_map_builder option" where
  "cb_push H chunk b =
     (if cb_short_seen b then None
      else if length chunk > CHUNK_BYTES then None
      else Some (b\<lparr>cb_short_seen := length chunk < CHUNK_BYTES,
                   cb_leaves := cb_leaves b @ [chunk_hash H chunk],
                   cb_size := cb_size b + length chunk\<rparr>))"

definition cb_finish :: "(bytes \<Rightarrow> bytes) \<Rightarrow> chunk_map_builder \<Rightarrow> chunk_map" where
  "cb_finish H b =
     \<lparr>cm_root = root_of H (cb_leaves b) (cb_size b), cm_leaves = cb_leaves b, cm_size = cb_size b\<rparr>"

text \<open>\<open>slice::chunks\<close>\<close>

function chunks_of :: "nat \<Rightarrow> bytes \<Rightarrow> bytes list" where
  "chunks_of n bs = (if bs = [] \<or> n = 0 then [] else take n bs # chunks_of n (drop n bs))"
  by pat_completeness auto
termination by (relation "measure (\<lambda>(n, bs). length bs)") auto

declare chunks_of.simps [simp del]

fun cb_push_all :: "(bytes \<Rightarrow> bytes) \<Rightarrow> bytes list \<Rightarrow> chunk_map_builder \<Rightarrow> chunk_map_builder option" where
  "cb_push_all H [] b = Some b"
| "cb_push_all H (c # cs) b =
     (case cb_push H c b of None \<Rightarrow> None | Some b' \<Rightarrow> cb_push_all H cs b')"

definition cm_build :: "(bytes \<Rightarrow> bytes) \<Rightarrow> bytes \<Rightarrow> chunk_map option" where
  "cm_build H bs = map_option (cb_finish H) (cb_push_all H (chunks_of CHUNK_BYTES bs) cb_new)"

definition cm_leaf :: "nat \<Rightarrow> chunk_map \<Rightarrow> chunk_address option" where
  "cm_leaf index m = (if index < length (cm_leaves m) then Some (cm_leaves m ! index) else None)"

definition cm_index_at :: "nat \<Rightarrow> nat" where
  "cm_index_at offset = offset div CHUNK_BYTES"

definition sat_mul64 :: "nat \<Rightarrow> nat \<Rightarrow> nat" where
  "sat_mul64 a b = min u64_max (a * b)"

text \<open>A range is the pair of its ends.\<close>

definition cm_range_of :: "nat \<Rightarrow> chunk_map \<Rightarrow> nat \<times> nat" where
  "cm_range_of index m =
     (let start = min (sat_mul64 (min u64_max index) CHUNK_BYTES) (cm_size m);
          stop = min (sat_add64 start CHUNK_BYTES) (cm_size m)
      in (start, stop))"

definition cm_indices_for :: "nat \<Rightarrow> nat \<Rightarrow> chunk_map \<Rightarrow> nat \<times> nat" where
  "cm_indices_for offset len m =
     (if len = 0 \<or> offset \<ge> cm_size m then (0, 0)
      else let stop = min (sat_add64 offset len) (cm_size m);
               first = cm_index_at offset;
               final = div_ceil stop CHUNK_BYTES
           in (first, min final (length (cm_leaves m))))"

definition cm_verify :: "(bytes \<Rightarrow> bytes) \<Rightarrow> nat \<Rightarrow> bytes \<Rightarrow> chunk_map \<Rightarrow> bool" where
  "cm_verify H index bs m =
     (index < length (cm_leaves m) \<and> cm_leaves m ! index = chunk_hash H bs)"

subsection \<open>Coverage\<close>

record coverage =
  cov_bits :: bytes
  cov_len :: nat

definition cov_empty :: "nat \<Rightarrow> coverage" where
  "cov_empty len = \<lparr>cov_bits = replicate (div_ceil len 8) 0, cov_len = len\<rparr>"

definition cov_insert :: "nat \<Rightarrow> coverage \<Rightarrow> coverage" where
  "cov_insert index c =
     (if index \<ge> cov_len c then c
      else if index div 8 < length (cov_bits c)
      then c\<lparr>cov_bits := (cov_bits c)[index div 8 :=
               cov_bits c ! (index div 8) OR push_bit (index mod 8) 1]\<rparr>
      else c)"

definition cov_remove :: "nat \<Rightarrow> coverage \<Rightarrow> coverage" where
  "cov_remove index c =
     (if index \<ge> cov_len c then c
      else if index div 8 < length (cov_bits c)
      then c\<lparr>cov_bits := (cov_bits c)[index div 8 :=
               cov_bits c ! (index div 8) AND NOT (push_bit (index mod 8) 1)]\<rparr>
      else c)"

definition cov_contains :: "nat \<Rightarrow> coverage \<Rightarrow> bool" where
  "cov_contains index c =
     (if index \<ge> cov_len c then False
      else index div 8 < length (cov_bits c)
        \<and> cov_bits c ! (index div 8) AND push_bit (index mod 8) 1 \<noteq> 0)"

definition cov_complete :: "nat \<Rightarrow> coverage" where
  "cov_complete len = fold cov_insert [0..<len] (cov_empty len)"

definition cov_held :: "coverage \<Rightarrow> nat list" where
  "cov_held c = filter (\<lambda>i. cov_contains i c) [0..<cov_len c]"

definition cov_missing :: "coverage \<Rightarrow> nat list" where
  "cov_missing c = filter (\<lambda>i. \<not> cov_contains i c) [0..<cov_len c]"

definition cov_count :: "coverage \<Rightarrow> nat" where
  "cov_count c = length (filter (\<lambda>i. cov_contains i c) [0..<cov_len c])"

definition cov_is_complete :: "coverage \<Rightarrow> bool" where
  "cov_is_complete c = list_all (\<lambda>i. cov_contains i c) [0..<cov_len c]"

definition cov_union :: "coverage \<Rightarrow> coverage \<Rightarrow> coverage" where
  "cov_union other c = fold cov_insert (cov_held other) c"

definition cov_from_bits :: "bytes \<Rightarrow> nat \<Rightarrow> chunk_error + coverage" where
  "cov_from_bits bits len =
     (let needed = div_ceil len 8 in
      if length bits < needed then Inl (CoverageTooShort needed (length bits))
      else Inr \<lparr>cov_bits = take needed bits, cov_len = len\<rparr>)"

subsection \<open>File versions\<close>

record file_id =
  fi_key :: bytes
  fi_size :: nat
  fi_mtime :: int

definition fi_same_version :: "file_id \<Rightarrow> file_id \<Rightarrow> bool" where
  "fi_same_version a b = (fi_key a = fi_key b \<and> fi_size a = fi_size b \<and> fi_mtime a = fi_mtime b)"


subsection \<open>Text form\<close>

lemma byte_cases: "(b :: byte) \<in> set (map word_of_nat [0..<256])"
proof -
  have "b = word_of_nat (unat b)" by simp
  moreover have "unat b < 256" using unsigned_less [of b] by simp
  ultimately show ?thesis by (metis atLeastLessThan_iff imageI le0 list.set_map set_upt)
qed

lemma and_15: "b AND 15 = take_bit 4 (b :: byte)"
  by (simp add: take_bit_eq_mask mask_eq_exp_minus_1)

lemma word_upt: "unat x < n \<Longrightarrow> x \<in> set (map word_of_nat [0..<n])" for x :: byte
  by (auto intro!: image_eqI [of _ _ "unat x"])

lemma small_bit:
  fixes x :: byte
  assumes "x < 16" "bit x n" shows "n < 4"
proof -
  have "uint x < 2 ^ 4" using assms(1) by (simp add: word_less_def)
  then have "take_bit 4 (uint x) = uint x" by (simp add: take_bit_int_eq_self)
  moreover have "bit (uint x) n" using assms(2) bit_imp_le_length [OF assms(2)] by (simp add: bit_uint_iff)
  ultimately show ?thesis by (metis bit_take_bit_iff)
qed

lemma nibble_join: "push_bit 4 (drop_bit 4 b) OR (b AND 15) = (b :: byte)"
  unfolding and_15 by (rule bit_word_eqI) (auto simp: bit_simps)

lemma nibble_split:
  fixes h l :: byte
  assumes "h < 16" "l < 16"
  shows "drop_bit 4 (push_bit 4 h OR l) = h" "(push_bit 4 h OR l) AND 15 = l"
  unfolding and_15
  by (rule bit_word_eqI, use small_bit [OF assms(1)] small_bit [OF assms(2)] in \<open>force simp: bit_simps\<close>)+

lemma nibble_bounds: "drop_bit 4 b < (16 :: byte)" "b AND 15 < (16 :: byte)"
proof -
  have "unat b < 256" using unsigned_less [of b] by simp
  then have "unat b div 2 ^ 4 < 16" by simp
  then have "unat (drop_bit 4 b) < 16" by (metis drop_bit_eq_div unat_drop_bit_eq)
  then show "drop_bit 4 b < 16" by (simp only: word_less_nat_alt) simp
  have "unat (b AND 15) < 16" unfolding and_15
    by (simp add: unat_mod take_bit_eq_mod)
  then show "b AND 15 < 16" by (simp only: word_less_nat_alt) simp
qed

lemma hex_nibble_digit:
  assumes "v < 16" shows "hex_nibble (hex_digit v) = Some v"
proof -
  have "unat v < 16" using assms by (simp add: word_less_nat_alt)
  then have "v \<in> set (map word_of_nat [0..<16])" by (rule word_upt)
  moreover have "list_all (\<lambda>v. hex_nibble (hex_digit v) = Some v) (map word_of_nat [0..<16])"
    by code_simp
  ultimately show ?thesis by (simp only: list_all_iff)
qed

text \<open>\<open>to_ascii_lowercase\<close> on a hex digit\<close>

definition lower :: "byte \<Rightarrow> byte" where
  "lower b = (if 65 \<le> b \<and> b \<le> 70 then b + 32 else b)"

lemma hex_digit_nibble: "hex_nibble b = Some v \<Longrightarrow> v < 16 \<and> hex_digit v = lower b"
proof -
  assume *: "hex_nibble b = Some v"
  have "b \<in> set (map word_of_nat [0..<256])"
    by (rule word_upt) (use unsigned_less [of b] in simp)
  moreover have "list_all (\<lambda>b. case hex_nibble b of None \<Rightarrow> True
      | Some v \<Rightarrow> v < 16 \<and> hex_digit v = lower b) (map word_of_nat [0..<256])"
    by code_simp
  ultimately show ?thesis using * unfolding list_all_iff by fastforce
qed

lemma hex_pairs_to_hex: "hex_pairs (to_hex bs) = Some bs"
proof (induction bs)
  case (Cons b bs)
  have "to_hex (b # bs) = hex_digit (drop_bit 4 b) # hex_digit (b AND 15) # to_hex bs"
    by (simp add: to_hex_def)
  moreover have "hex_nibble (hex_digit (drop_bit 4 b)) = Some (drop_bit 4 b)"
    "hex_nibble (hex_digit (b AND 15)) = Some (b AND 15)"
    using nibble_bounds [of b] by (auto intro: hex_nibble_digit)
  ultimately show ?case using Cons.IH nibble_join [of b] by (simp only: hex_pairs.simps option.case prod.case)
qed (simp add: to_hex_def)

lemma to_hex_length: "length (to_hex bs) = 2 * length bs"
  by (induction bs) (simp_all add: to_hex_def)

lemma hex_pairs_inverse:
  "hex_pairs t = Some bs \<Longrightarrow> even (length t) \<Longrightarrow> to_hex bs = map lower t"
proof (induction t arbitrary: bs rule: hex_pairs.induct)
  case (1 h l rest)
  then obtain high low bs' where n: "hex_nibble h = Some high" "hex_nibble l = Some low"
    "hex_pairs rest = Some bs'" "bs = (push_bit 4 high OR low) # bs'"
    by (auto split: option.splits)
  have v: "high < 16" "hex_digit high = lower h" "low < 16" "hex_digit low = lower l"
    using hex_digit_nibble n(1,2) by blast+
  have "to_hex bs = hex_digit (drop_bit 4 (push_bit 4 high OR low)) #
      hex_digit ((push_bit 4 high OR low) AND 15) # to_hex bs'"
    by (simp add: n(4) to_hex_def)
  also have "\<dots> = hex_digit high # hex_digit low # to_hex bs'"
    by (simp only: nibble_split [OF v(1,3)])
  finally show ?case using 1 n v by simp
qed (auto simp: to_hex_def)

lemma hex_pairs_length: "hex_pairs t = Some bs \<Longrightarrow> length bs = length t div 2"
  by (induction t arbitrary: bs rule: hex_pairs.induct) (auto split: option.splits)

subsection \<open>Chunks of a file\<close>

lemma CHUNK_BYTES_pos [simp]: "0 < CHUNK_BYTES" "CHUNK_BYTES \<noteq> 0"
  by (simp_all add: CHUNK_BYTES_def)

lemma div_ceil_0 [simp]: "div_ceil 0 n = 0"
  by (simp add: div_ceil_def)

lemma div_ceil_step:
  assumes "0 < n" "0 < a" shows "div_ceil a n = Suc (div_ceil (a - n) n)"
proof (cases "a \<le> n")
  case True
  then show ?thesis using assms
    by (cases "a = n") (auto simp: div_ceil_def)
next
  case False
  then show ?thesis using assms by (simp add: div_ceil_def le_div_geq le_mod_geq)
qed

lemma chunks_of_Nil [simp]: "chunks_of n [] = []"
  by (simp add: chunks_of.simps)

lemma chunks_of_length: "0 < n \<Longrightarrow> length (chunks_of n bs) = div_ceil (length bs) n"
proof (induction n bs rule: chunks_of.induct)
  case (1 n bs)
  then show ?case
    by (cases "bs = []") (simp_all add: chunks_of.simps [of n bs] div_ceil_step)
qed

lemma chunks_of_nth:
  "0 < n \<Longrightarrow> k < length (chunks_of n bs) \<Longrightarrow> chunks_of n bs ! k = take n (drop (k * n) bs)"
proof (induction n bs arbitrary: k rule: chunks_of.induct)
  case (1 n bs)
  show ?case
  proof (cases "bs = []")
    case True
    then show ?thesis using 1 by (simp add: chunks_of.simps)
  next
    case False
    then show ?thesis using 1
      by (cases k) (auto simp: chunks_of.simps [of n bs] add.commute)
  qed
qed

lemma chunks_of_concat: "0 < n \<Longrightarrow> concat (chunks_of n bs) = bs"
proof (induction n bs rule: chunks_of.induct)
  case (1 n bs)
  then show ?case by (cases "bs = []") (simp_all add: chunks_of.simps [of n bs])
qed

lemma chunks_of_full:
  "0 < n \<Longrightarrow> k < length (chunks_of n bs) \<Longrightarrow>
   length (chunks_of n bs ! k) \<le> n \<and> (Suc k < length (chunks_of n bs) \<longrightarrow> length (chunks_of n bs ! k) = n)"
  using less_div_ceil_iff [of n "Suc k" "length bs"] chunks_of_length [of n bs]
  by (auto simp: chunks_of_nth)

lemma cb_push_all_ok:
  assumes "\<forall>k < length cs. length (cs ! k) \<le> CHUNK_BYTES \<and>
      (Suc k < length cs \<longrightarrow> length (cs ! k) = CHUNK_BYTES)"
    and "\<not> cb_short_seen b \<or> cs = []"
  shows "\<exists>b'. cb_push_all H cs b = Some b' \<and>
    cb_leaves b' = cb_leaves b @ map (chunk_hash H) cs \<and>
    cb_size b' = cb_size b + length (concat cs)"
  using assms
proof (induction cs arbitrary: b)
  case (Cons c cs)
  have c: "length c \<le> CHUNK_BYTES" "cs \<noteq> [] \<longrightarrow> length c = CHUNK_BYTES"
    using Cons.prems(1) [THEN spec, of 0] by auto
  let ?b = "b\<lparr>cb_short_seen := length c < CHUNK_BYTES, cb_leaves := cb_leaves b @ [chunk_hash H c],
      cb_size := cb_size b + length c\<rparr>"
  have "\<exists>b'. cb_push_all H cs ?b = Some b' \<and> cb_leaves b' = cb_leaves ?b @ map (chunk_hash H) cs \<and>
    cb_size b' = cb_size ?b + length (concat cs)"
    by (rule Cons.IH) (use Cons.prems(1) c(2) in force)+
  then show ?case using Cons.prems c by (auto simp: cb_push_def)
qed simp

lemma cm_build_eq:
  "cm_build H bs = Some \<lparr>cm_root = root_of H (map (chunk_hash H) (chunks_of CHUNK_BYTES bs)) (length bs),
     cm_leaves = map (chunk_hash H) (chunks_of CHUNK_BYTES bs), cm_size = length bs\<rparr>"
proof -
  have "\<forall>k < length (chunks_of CHUNK_BYTES bs). length (chunks_of CHUNK_BYTES bs ! k) \<le> CHUNK_BYTES \<and>
      (Suc k < length (chunks_of CHUNK_BYTES bs) \<longrightarrow> length (chunks_of CHUNK_BYTES bs ! k) = CHUNK_BYTES)"
    using chunks_of_full CHUNK_BYTES_pos(1) by blast
  then obtain b where "cb_push_all H (chunks_of CHUNK_BYTES bs) cb_new = Some b"
    "cb_leaves b = map (chunk_hash H) (chunks_of CHUNK_BYTES bs)" "cb_size b = length bs"
    using cb_push_all_ok [of "chunks_of CHUNK_BYTES bs" cb_new H]
    by (auto simp: cb_new_def chunks_of_concat)
  then show ?thesis by (simp add: cm_build_def cb_finish_def)
qed

text \<open>The bytes of a range of a file\<close>

definition slice :: "nat \<times> nat \<Rightarrow> bytes \<Rightarrow> bytes" where
  "slice r bs = take (snd r - fst r) (drop (fst r) bs)"

lemma cm_range_of_eq:
  assumes "cm_size m \<le> u64_max"
  shows "cm_range_of k m = (min (k * CHUNK_BYTES) (cm_size m), min (Suc k * CHUNK_BYTES) (cm_size m))"
proof -
  have "min (sat_mul64 (min u64_max k) CHUNK_BYTES) (cm_size m) = min (k * CHUNK_BYTES) (cm_size m)"
  proof (cases "k * CHUNK_BYTES \<le> u64_max")
    case True
    then have "k \<le> u64_max" by (simp add: CHUNK_BYTES_def)
    with True show ?thesis by (simp add: sat_mul64_def)
  next
    case False
    have "u64_max \<le> min u64_max k * CHUNK_BYTES"
      using False by (cases "k \<le> u64_max") (simp_all add: min_def CHUNK_BYTES_def)
    with False show ?thesis using assms by (simp add: sat_mul64_def)
  qed
  then show ?thesis using assms by (auto simp: cm_range_of_def sat_add64_def Let_def min_def)
qed

lemma slice_chunk:
  assumes "k < length (chunks_of CHUNK_BYTES bs)"
  shows "slice (min (k * CHUNK_BYTES) (length bs), min (Suc k * CHUNK_BYTES) (length bs)) bs =
    chunks_of CHUNK_BYTES bs ! k"
proof -
  have "k * CHUNK_BYTES < length bs"
    using assms less_div_ceil_iff [of CHUNK_BYTES k "length bs"] by (simp add: chunks_of_length)
  then show ?thesis using assms by (simp add: slice_def chunks_of_nth min_def)
qed

subsection \<open>Coverage as a set\<close>

definition cov_wf :: "coverage \<Rightarrow> bool" where
  "cov_wf c \<longleftrightarrow> length (cov_bits c) = div_ceil (cov_len c) 8"

definition cov_set :: "coverage \<Rightarrow> nat set" where
  "cov_set c = {i. cov_contains i c}"

lemma cov_byte: "i < n \<Longrightarrow> i div 8 < div_ceil n 8"
  using less_div_ceil_iff [of 8 "i div 8" n] by (simp add: less_div_ceil_iff)

lemma bit_test: "(x AND push_bit j 1 \<noteq> 0) = bit (x :: byte) j"
  by (simp add: and_exp_eq_0_iff_not_bit)

lemma bit_set: "n < 8 \<Longrightarrow> bit (x OR push_bit k 1 :: byte) n \<longleftrightarrow> bit x n \<or> n = k"
  by (auto simp: bit_simps)

lemma bit_clear: "n < 8 \<Longrightarrow> bit (x AND NOT (push_bit k 1) :: byte) n \<longleftrightarrow> bit x n \<and> n \<noteq> k"
  by (auto simp: bit_simps)

lemma cov_contains_bit:
  "cov_wf c \<Longrightarrow> cov_contains i c \<longleftrightarrow> i < cov_len c \<and> bit (cov_bits c ! (i div 8)) (i mod 8)"
  using bit_test [of "cov_bits c ! (i div 8)" "i mod 8"]
  by (auto simp: cov_contains_def cov_wf_def cov_byte simp del: push_bit_of_1)

lemma cov_keeps [simp]:
  "cov_len (cov_insert i c) = cov_len c" "cov_len (cov_remove i c) = cov_len c"
  "cov_wf (cov_insert i c) = cov_wf c" "cov_wf (cov_remove i c) = cov_wf c"
  "cov_len (cov_empty n) = n" "cov_wf (cov_empty n)"
  by (auto simp: cov_insert_def cov_remove_def cov_wf_def cov_empty_def)

lemma same_byte: "i div 8 = j div 8 \<Longrightarrow> i mod 8 = j mod 8 \<longleftrightarrow> i = (j :: nat)"
  by (metis div_mod_decomp)

lemma cov_contains_insert:
  assumes "cov_wf c"
  shows "cov_contains j (cov_insert i c) \<longleftrightarrow> (j = i \<and> i < cov_len c) \<or> cov_contains j c"
proof (cases "i < cov_len c")
  case True
  then have i: "i div 8 < length (cov_bits c)" using assms by (simp add: cov_wf_def cov_byte)
  show ?thesis
  proof (cases "j < cov_len c")
    case j: True
    then have "j div 8 < length (cov_bits c)" using assms by (simp add: cov_wf_def cov_byte)
    define ai bi aj bj where d: "ai = i div 8" "bi = i mod 8" "aj = j div 8" "bj = j mod 8"
    have eq: "j = i \<longleftrightarrow> aj = ai \<and> bj = bi" unfolding d by (metis div_mod_decomp)
    have bj: "bj < 8" by (simp add: d)
    have len: "ai < length (cov_bits c)" using i by (simp add: d)
    have bits: "cov_bits (cov_insert i c) ! aj =
        (if aj = ai then cov_bits c ! ai OR push_bit bi 1 else cov_bits c ! aj)"
      using len True by (simp add: cov_insert_def d(1,2) [symmetric] del: push_bit_of_1)
    have new: "cov_contains j (cov_insert i c) \<longleftrightarrow> bit (cov_bits (cov_insert i c) ! aj) bj"
      "cov_contains j c \<longleftrightarrow> bit (cov_bits c ! aj) bj"
      using cov_contains_bit [of "cov_insert i c" j] cov_contains_bit [OF assms, of j] assms j
      by (simp_all add: d)
    show ?thesis
      unfolding new bits using bit_set [OF bj, of "cov_bits c ! ai" bi] eq True by (cases "aj = ai") auto
  qed (use True in \<open>auto simp: cov_contains_def\<close>)
qed (simp add: cov_insert_def)

lemma cov_contains_remove:
  assumes "cov_wf c"
  shows "cov_contains j (cov_remove i c) \<longleftrightarrow> j \<noteq> i \<and> cov_contains j c"
proof (cases "i < cov_len c")
  case True
  then have i: "i div 8 < length (cov_bits c)" using assms by (simp add: cov_wf_def cov_byte)
  show ?thesis
  proof (cases "j < cov_len c")
    case j: True
    then have "j div 8 < length (cov_bits c)" using assms by (simp add: cov_wf_def cov_byte)
    define ai bi aj bj where d: "ai = i div 8" "bi = i mod 8" "aj = j div 8" "bj = j mod 8"
    have eq: "j = i \<longleftrightarrow> aj = ai \<and> bj = bi" unfolding d by (metis div_mod_decomp)
    have bj: "bj < 8" by (simp add: d)
    have len: "ai < length (cov_bits c)" using i by (simp add: d)
    have bits: "cov_bits (cov_remove i c) ! aj =
        (if aj = ai then cov_bits c ! ai AND NOT (push_bit bi 1) else cov_bits c ! aj)"
      using len True by (simp add: cov_remove_def d(1,2) [symmetric] del: push_bit_of_1)
    have new: "cov_contains j (cov_remove i c) \<longleftrightarrow> bit (cov_bits (cov_remove i c) ! aj) bj"
      "cov_contains j c \<longleftrightarrow> bit (cov_bits c ! aj) bj"
      using cov_contains_bit [of "cov_remove i c" j] cov_contains_bit [OF assms, of j] assms j
      by (simp_all add: d)
    show ?thesis
      unfolding new bits using bit_clear [OF bj, of "cov_bits c ! ai" bi] eq True by (cases "aj = ai") auto
  qed (use True in \<open>auto simp: cov_contains_def\<close>)
qed (auto simp: cov_remove_def cov_contains_def)

lemma cov_set_less: "i \<in> cov_set c \<Longrightarrow> i < cov_len c"
  by (auto simp: cov_set_def cov_contains_def split: if_splits)

lemma cov_fold_insert:
  "cov_wf c \<Longrightarrow> cov_wf (fold cov_insert is c) \<and> cov_len (fold cov_insert is c) = cov_len c \<and>
   cov_set (fold cov_insert is c) = cov_set c \<union> {i \<in> set is. i < cov_len c}"
proof (induction "is" arbitrary: c)
  case (Cons i "is")
  have "cov_set (cov_insert i c) = cov_set c \<union> (if i < cov_len c then {i} else {})"
    using cov_contains_insert [OF Cons.prems] by (auto simp: cov_set_def)
  then show ?case using Cons.IH [of "cov_insert i c"] Cons.prems by auto
qed simp

lemma cov_set_empty [simp]: "cov_set (cov_empty n) = {}"
  by (auto simp: cov_set_def cov_contains_bit cov_empty_def nth_replicate cov_byte
      simp flip: cov_wf_def) (auto simp: cov_contains_def cov_byte split: if_splits)

lemma cov_held_set: "set (cov_held c) = cov_set c"
  using cov_set_less by (auto simp: cov_held_def cov_set_def)

lemma cov_count_card: "cov_count c = card (cov_set c)"
proof -
  have "cov_count c = card (set (cov_held c))"
    unfolding cov_count_def cov_held_def by (subst distinct_card) simp_all
  then show ?thesis by (simp add: cov_held_set)
qed

lemma cov_is_complete_set: "cov_is_complete c \<longleftrightarrow> cov_set c = {..<cov_len c}"
  using cov_set_less [of _ c] by (auto simp: cov_is_complete_def list_all_iff cov_set_def)

lemma cm_build_spec:
  assumes "length bs \<le> u64_max" "cm_build H bs = Some m"
  shows "cm_size m = length bs" "length (cm_leaves m) = chunk_count (length bs)"
    "cm_from_leaves H (cm_leaves m) (cm_size m) = Inr m"
    "cm_verify H k x m \<longleftrightarrow> k < chunk_count (length bs) \<and> H x = H (slice (cm_range_of k m) bs)"
    "concat (map (\<lambda>k. slice (cm_range_of k m) bs) [0..<chunk_count (length bs)]) = bs"
proof -
  let ?cs = "chunks_of CHUNK_BYTES bs"
  have m: "m = \<lparr>cm_root = root_of H (map (chunk_hash H) ?cs) (length bs),
     cm_leaves = map (chunk_hash H) ?cs, cm_size = length bs\<rparr>"
    using assms(2) by (simp add: cm_build_eq)
  have n: "length ?cs = chunk_count (length bs)" by (simp add: chunks_of_length chunk_count_def)
  have slices: "slice (cm_range_of k m) bs = ?cs ! k" if "k < length ?cs" for k
    using cm_range_of_eq [of m k] slice_chunk [OF that] assms by (simp add: m)
  have "map (\<lambda>k. slice (cm_range_of k m) bs) [0..<chunk_count (length bs)] = ?cs"
    using n slices by (intro nth_equalityI) simp_all
  then show "concat (map (\<lambda>k. slice (cm_range_of k m) bs) [0..<chunk_count (length bs)]) = bs"
    by (simp add: chunks_of_concat)
  show "cm_verify H k x m \<longleftrightarrow> k < chunk_count (length bs) \<and> H x = H (slice (cm_range_of k m) bs)"
    using n slices [of k] by (auto simp: cm_verify_def chunk_hash_def m)
  show "cm_from_leaves H (cm_leaves m) (cm_size m) = Inr m"
    using n by (simp add: cm_from_leaves_def m)
  show "cm_size m = length bs" "length (cm_leaves m) = chunk_count (length bs)" using n by (simp_all add: m)
qed

subsection \<open>Properties\<close>

text \<open>Addresses survive their text form: parsing what was printed gives the 32 bytes back,
  and parsing succeeds only on 64 hex digits, whose lower-case form is what the result prints.\<close>

theorem hex_round_trip:
  "(length bs = 32 \<longrightarrow> from_hex (to_hex bs) = Inr bs) \<and>
   (from_hex t = Inr cs \<longrightarrow> length cs = 32 \<and> to_hex cs = map lower t)"
proof (intro conjI impI)
  show "from_hex (to_hex bs) = Inr bs" if "length bs = 32"
    using that by (simp add: from_hex_def to_hex_length hex_pairs_to_hex)
  assume "from_hex t = Inr cs"
  then have "length t = 64" "hex_pairs t = Some cs"
    by (auto simp: from_hex_def split: if_splits option.splits)
  then show "length cs = 32" "to_hex cs = map lower t"
    using hex_pairs_length [of t cs] hex_pairs_inverse [of t cs] by simp_all
qed

lemma demo_hex: "from_hex (replicate 64 70) = Inr (replicate 32 255)"
  by code_simp

theorem hex_round_trip_witness:
  "from_hex (to_hex (replicate 32 171)) = Inr (replicate 32 171) \<and>
   to_hex (replicate 32 255) = map lower (replicate 64 70)"
  using hex_round_trip [of "replicate 32 171" "replicate 64 70" "replicate 32 255"] demo_hex by simp

text \<open>A chunk is accepted exactly when it hashes to the bytes of the file at its place.
  Building the map never panics, the map has one leaf for each chunk, and the ranges of the
  chunks, put together, are the file.\<close>

theorem build_verifies:
  assumes "length bs \<le> u64_max"
  shows "\<exists>m. cm_build H bs = Some m \<and> cm_size m = length bs \<and>
    length (cm_leaves m) = chunk_count (length bs) \<and>
    cm_from_leaves H (cm_leaves m) (cm_size m) = Inr m \<and>
    (\<forall>k x. cm_verify H k x m \<longleftrightarrow>
       k < chunk_count (length bs) \<and> H x = H (slice (cm_range_of k m) bs)) \<and>
    concat (map (\<lambda>k. slice (cm_range_of k m) bs) [0..<chunk_count (length bs)]) = bs"
proof -
  obtain m where m: "cm_build H bs = Some m" by (simp add: cm_build_eq)
  then show ?thesis using cm_build_spec [OF assms m] by (intro exI [of _ m]) simp
qed

theorem build_verifies_witness:
  "\<exists>m. cm_build id [1, 2, 3] = Some m \<and> cm_size m = length [1, 2, 3 :: byte] \<and>
    length (cm_leaves m) = chunk_count (length [1, 2, 3 :: byte]) \<and>
    cm_from_leaves id (cm_leaves m) (cm_size m) = Inr m \<and>
    (\<forall>k x. cm_verify id k x m \<longleftrightarrow>
       k < chunk_count (length [1, 2, 3 :: byte]) \<and> id x = id (slice (cm_range_of k m) [1, 2, 3])) \<and>
    concat (map (\<lambda>k. slice (cm_range_of k m) [1, 2, 3])
      [0..<chunk_count (length [1, 2, 3 :: byte])]) = [1, 2, 3]"
  by (rule build_verifies) (simp add: u64_max_def)

text \<open>A read is given exactly the chunks it needs: a chunk is among the indices for a window
  of bytes when some byte of the window is in the range of the chunk.\<close>

theorem indices_for_spec:
  assumes "cm_size m \<le> u64_max" "length (cm_leaves m) = chunk_count (cm_size m)"
  shows "(case cm_indices_for offset len m of (a, b) \<Rightarrow> a \<le> k \<and> k < b) \<longleftrightarrow>
    (\<exists>x. offset \<le> x \<and> x < offset + len \<and> fst (cm_range_of k m) \<le> x \<and> x < snd (cm_range_of k m))"
proof (cases "len = 0 \<or> cm_size m \<le> offset")
  case True
  then show ?thesis using cm_range_of_eq [OF assms(1), of k] by (auto simp: cm_indices_for_def)
next
  case False
  define stop where "stop = min (offset + len) (cm_size m)"
  have stop: "min (sat_add64 offset len) (cm_size m) = stop"
    using assms(1) by (simp add: sat_add64_def stop_def min_def)
  have le: "div_ceil stop CHUNK_BYTES \<le> length (cm_leaves m)"
    unfolding assms(2) chunk_count_def stop_def
    using less_div_ceil_iff [of CHUNK_BYTES] by (meson CHUNK_BYTES_pos(1) div_ceil_le_iff le_trans min.cobounded2 order_refl)
  have "(case cm_indices_for offset len m of (a, b) \<Rightarrow> a \<le> k \<and> k < b) \<longleftrightarrow>
      offset div CHUNK_BYTES \<le> k \<and> k < div_ceil stop CHUNK_BYTES"
    using False le by (simp add: cm_indices_for_def stop cm_index_at_def min_absorb1)
  also have "\<dots> \<longleftrightarrow> offset < Suc k * CHUNK_BYTES \<and> k * CHUNK_BYTES < stop"
    using div_less_iff_less_mult [of CHUNK_BYTES offset "Suc k"]
    by (simp add: less_div_ceil_iff less_Suc_eq_le)
  also have "\<dots> \<longleftrightarrow> (\<exists>x. offset \<le> x \<and> x < offset + len \<and>
      min (k * CHUNK_BYTES) (cm_size m) \<le> x \<and> x < min (Suc k * CHUNK_BYTES) (cm_size m))"
  proof
    assume *: "offset < Suc k * CHUNK_BYTES \<and> k * CHUNK_BYTES < stop"
    then show "\<exists>x. offset \<le> x \<and> x < offset + len \<and>
      min (k * CHUNK_BYTES) (cm_size m) \<le> x \<and> x < min (Suc k * CHUNK_BYTES) (cm_size m)"
      using False by (intro exI [of _ "max offset (k * CHUNK_BYTES)"]) (auto simp: stop_def)
  qed (auto simp: stop_def)
  finally show ?thesis by (simp add: cm_range_of_eq [OF assms(1)])
qed

theorem indices_for_spec_witness:
  "(case cm_indices_for 65530 10 \<lparr>cm_root = Root [], cm_leaves = [ChunkHash [1], ChunkHash [2]],
      cm_size = 70000\<rparr> of (a, b) \<Rightarrow> a \<le> 1 \<and> 1 < b) \<longleftrightarrow>
    (\<exists>x. 65530 \<le> x \<and> x < 65530 + 10 \<and>
      fst (cm_range_of 1 \<lparr>cm_root = Root [], cm_leaves = [ChunkHash [1], ChunkHash [2]],
        cm_size = 70000\<rparr>) \<le> x \<and>
      x < snd (cm_range_of 1 \<lparr>cm_root = Root [], cm_leaves = [ChunkHash [1], ChunkHash [2]],
        cm_size = 70000\<rparr>))"
  by (rule indices_for_spec) (simp_all add: u64_max_def chunk_count_def div_ceil_def CHUNK_BYTES_def)

text \<open>C14: The bitmap is a set of chunk indices: every operation on it is the operation on the
  set, bytes and bits aside.\<close>

theorem coverage_refines_set:
  assumes "cov_wf c" "cov_wf other"
  shows "cov_set (cov_insert i c) = cov_set c \<union> (if i < cov_len c then {i} else {}) \<and>
    cov_set (cov_remove i c) = cov_set c - {i} \<and>
    cov_set (cov_union other c) = cov_set c \<union> {i \<in> cov_set other. i < cov_len c} \<and>
    cov_set (cov_complete n) = {..<n} \<and> cov_set (cov_empty n) = {} \<and>
    (cov_is_complete c \<longleftrightarrow> cov_set c = {..<cov_len c}) \<and>
    cov_count c = card (cov_set c) \<and>
    set (cov_held c) = cov_set c \<and> set (cov_missing c) = {..<cov_len c} - cov_set c \<and>
    cov_from_bits (cov_bits c) (cov_len c) = Inr c"
proof -
  have "cov_set (cov_union other c) = cov_set c \<union> {i \<in> cov_set other. i < cov_len c}"
    using cov_fold_insert [OF assms(1), of "cov_held other"] by (simp add: cov_union_def cov_held_set)
  moreover have "cov_set (cov_complete n) = {..<n}"
    using cov_fold_insert [of "cov_empty n" "[0..<n]"] by (auto simp: cov_complete_def)
  moreover have "set (cov_missing c) = {..<cov_len c} - cov_set c"
    by (auto simp: cov_missing_def cov_set_def)
  moreover have "cov_from_bits (cov_bits c) (cov_len c) = Inr c"
    using assms(1) by (simp add: cov_from_bits_def cov_wf_def)
  moreover have "cov_set (cov_insert i c) = cov_set c \<union> (if i < cov_len c then {i} else {})"
    "cov_set (cov_remove i c) = cov_set c - {i}"
    using cov_contains_insert [OF assms(1)] cov_contains_remove [OF assms(1)]
    by (auto simp: cov_set_def)
  ultimately show ?thesis by (simp add: cov_count_card cov_held_set cov_is_complete_set)
qed

theorem coverage_refines_set_witness:
  "cov_set (cov_insert 9 (cov_empty 12)) =
     cov_set (cov_empty 12) \<union> (if 9 < cov_len (cov_empty 12) then {9} else {}) \<and>
    cov_set (cov_remove 9 (cov_empty 12)) = cov_set (cov_empty 12) - {9} \<and>
    cov_set (cov_union (cov_complete 20) (cov_empty 12)) =
      cov_set (cov_empty 12) \<union> {i \<in> cov_set (cov_complete 20). i < cov_len (cov_empty 12)} \<and>
    cov_set (cov_complete 5) = {..<5} \<and> cov_set (cov_empty 5) = {} \<and>
    (cov_is_complete (cov_empty 12) \<longleftrightarrow> cov_set (cov_empty 12) = {..<cov_len (cov_empty 12)}) \<and>
    cov_count (cov_empty 12) = card (cov_set (cov_empty 12)) \<and>
    set (cov_held (cov_empty 12)) = cov_set (cov_empty 12) \<and>
    set (cov_missing (cov_empty 12)) = {..<cov_len (cov_empty 12)} - cov_set (cov_empty 12) \<and>
    cov_from_bits (cov_bits (cov_empty 12)) (cov_len (cov_empty 12)) = Inr (cov_empty 12)"
  by (rule coverage_refines_set) (use cov_fold_insert in \<open>simp_all add: cov_complete_def\<close>)

end
