(* ===== verification/ChunkStore.thy ===== *)
theory ChunkStore
  imports Chunks "HOL-Library.AList"
begin

text \<open>
  The contract of a chunk store (the traits \<open>ChunkSource\<close> and \<open>ChunkStore\<close> of
  \<open>fofoca-chunks/src/lib.rs\<close>) as a locale, and the reference implementation in memory
  (\<open>mem.rs\<close>), which is an interpretation of it. A \<open>HashMap\<close> is an association list with
  distinct keys, a \<open>HashSet\<close> a list read as a set. A poisoned lock and errors of the disk are
  not modelled: the operations are those of one thread on a working disk.
\<close>

subsection \<open>What every store does\<close>

text \<open>The loop of \<open>coverage\<close>, the same in every store: one bit for each leaf that is held.\<close>

definition cov_scan :: "(chunk_address \<Rightarrow> bool) \<Rightarrow> chunk_map \<Rightarrow> coverage" where
  "cov_scan held m =
     fold (\<lambda>(index, leaf) c. if held leaf then cov_insert index c else c)
       (enumerate 0 (cm_leaves m)) (cov_empty (length (cm_leaves m)))"

text \<open>What \<open>from_leaves\<close> and the builder guarantee of a row, for files a row can be written for.\<close>

definition cm_wf :: "(bytes \<Rightarrow> bytes) \<Rightarrow> chunk_map \<Rightarrow> bool" where
  "cm_wf H m \<longleftrightarrow> cm_from_leaves H (cm_leaves m) (cm_size m) = Inr m \<and> cm_size m < 2 ^ 64 \<and>
     length (cm_leaves m) < 2 ^ 32 \<and> list_all (\<lambda>h. length (hash_bytes h) = 32) (cm_leaves m)"

text \<open>The version gate of \<open>bind\<close>, the same in every store.\<close>

definition bind_gate :: "(bytes \<times> nat \<times> int \<times> root) list \<Rightarrow> file_id \<Rightarrow> root option" where
  "bind_gate binds file =
     (case map_of binds (fi_key file) of
        None \<Rightarrow> None
      | Some (sz, mtime, r) \<Rightarrow> if sz \<noteq> fi_size file \<or> mtime \<noteq> fi_mtime file then None else Some r)"

text \<open>The calls that write.\<close>

datatype store_op =
    SPut chunk_address bytes
  | SPutMap chunk_map
  | SSetBind file_id root
  | SStartMarking
  | SMark root
  | SSweep
  | SClear "chunk_address list"

lemma cov_scan_enumerate:
  "cov_wf c \<Longrightarrow> cov_len c = k + length hs \<Longrightarrow>
   cov_wf (fold (\<lambda>(i, h) c. if held h then cov_insert i c else c) (enumerate k hs) c) \<and>
   cov_len (fold (\<lambda>(i, h) c. if held h then cov_insert i c else c) (enumerate k hs) c) = cov_len c \<and>
   cov_set (fold (\<lambda>(i, h) c. if held h then cov_insert i c else c) (enumerate k hs) c) =
     cov_set c \<union> {i. k \<le> i \<and> i < k + length hs \<and> held (hs ! (i - k))}"
proof (induction hs arbitrary: k c)
  case (Cons h hs)
  define c' where "c' = (if held h then cov_insert k c else c)"
  have c': "cov_wf c'" "cov_len c' = Suc k + length hs"
    using Cons.prems by (simp_all add: c'_def)
  have set: "cov_set c' = cov_set c \<union> (if held h then {k} else {})"
    using Cons.prems cov_contains_insert [of c _ k] by (auto simp: c'_def cov_set_def)
  have split: "{i. k \<le> i \<and> i < k + length (h # hs) \<and> held ((h # hs) ! (i - k))} =
      (if held h then {k} else {}) \<union>
      {i. Suc k \<le> i \<and> i < Suc k + length hs \<and> held (hs ! (i - Suc k))}"
    by (auto simp: nth_Cons' less_Suc_eq_le)
  show ?case
    using Cons.IH [OF c'] c'(2) set split Cons.prems by (simp add: c'_def [symmetric])
qed auto

lemma cov_scan_set:
  "cov_wf (cov_scan held m)" "cov_len (cov_scan held m) = length (cm_leaves m)"
  "cov_set (cov_scan held m) = {i. i < length (cm_leaves m) \<and> held (cm_leaves m ! i)}"
  using cov_scan_enumerate [of "cov_empty (length (cm_leaves m))" 0 "cm_leaves m" held]
  by (auto simp: cov_scan_def)


subsection \<open>The contract\<close>

text \<open>\<open>live\<close> is the set of chunks marked in the current pass; it is the only part of the state
  the contract speaks of beside what can be read.\<close>

locale chunk_store =
  fixes H :: "bytes \<Rightarrow> bytes"
    and inv :: "'st \<Rightarrow> bool"
    and live :: "'st \<Rightarrow> chunk_address set"
    and get :: "chunk_address \<Rightarrow> 'st \<Rightarrow> bytes option"
    and has :: "chunk_address \<Rightarrow> 'st \<Rightarrow> bool"
    and row :: "root \<Rightarrow> 'st \<Rightarrow> chunk_error + chunk_map option"
    and coverage :: "root \<Rightarrow> 'st \<Rightarrow> chunk_error + coverage"
    and put :: "chunk_address \<Rightarrow> bytes \<Rightarrow> 'st \<Rightarrow> chunk_error + 'st"
    and put_row :: "chunk_map \<Rightarrow> 'st \<Rightarrow> 'st"
    and start :: "'st \<Rightarrow> 'st"
    and mark :: "root \<Rightarrow> 'st \<Rightarrow> chunk_error + 'st"
    and sweep :: "'st \<Rightarrow> nat \<times> 'st"
    and clear :: "chunk_address list \<Rightarrow> 'st \<Rightarrow> 'st"
  assumes has_get: "inv s \<Longrightarrow> has h s \<longleftrightarrow> get h s \<noteq> None"
    and get_addressed: "inv s \<Longrightarrow> get h s = Some b \<Longrightarrow> chunk_hash H b = h"
    and row_total: "inv s \<Longrightarrow> \<exists>x. row r s = Inr x"
    and row_root: "inv s \<Longrightarrow> row r s = Inr (Some m) \<Longrightarrow> cm_wf H m \<and> cm_root m = r"
    and coverage_row: "inv s \<Longrightarrow> row r s = Inr x \<Longrightarrow> coverage r s =
      Inr (case x of None \<Rightarrow> cov_empty 0 | Some m \<Rightarrow> cov_scan (\<lambda>h. has h s) m)"
    and put_refused: "put h b s = Inl e \<longleftrightarrow>
      chunk_hash H b \<noteq> h \<and> e = AddressMismatch (chunk_hash H b) h"
    and put_stored: "inv s \<Longrightarrow> put h b s = Inr s' \<Longrightarrow> inv s' \<and>
      get k s' = (if k = h then Some b else get k s) \<and> row r s' = row r s \<and> live s' = live s"
    and put_row_stored: "inv s \<Longrightarrow> cm_wf H m \<Longrightarrow> inv (put_row m s) \<and>
      get k (put_row m s) = get k s \<and> live (put_row m s) = live s \<and>
      row r (put_row m s) = (if r = cm_root m then Inr (Some m) else row r s)"
    and start_clears: "inv s \<Longrightarrow> inv (start s) \<and> live (start s) = {} \<and>
      get k (start s) = get k s \<and> row r (start s) = row r s"
    and mark_refused: "inv s \<Longrightarrow> row r s = Inr None \<Longrightarrow> mark r s = Inl NoStoredMap"
    and mark_adds: "inv s \<Longrightarrow> row r s = Inr (Some m) \<Longrightarrow>
      \<exists>s'. mark r s = Inr s' \<and> inv s' \<and> live s' = live s \<union> set (cm_leaves m) \<and>
        (\<forall>k. get k s' = get k s) \<and> (\<forall>r. row r s' = row r s)"
    and sweep_keeps: "inv s \<Longrightarrow> inv (snd (sweep s)) \<and> live (snd (sweep s)) = {} \<and>
      get k (snd (sweep s)) = (if k \<in> live s then get k s else None) \<and>
      row r (snd (sweep s)) = row r s"
    and clear_drops: "inv s \<Longrightarrow> inv (clear hs s) \<and> live (clear hs s) = live s \<and>
      get k (clear hs s) = (if k \<in> set hs then None else get k s) \<and> row r (clear hs s) = row r s"
begin

lemma coverage_set:
  assumes "inv s" "row r s = Inr (Some m)" "coverage r s = Inr c"
  shows "cov_wf c \<and> cov_len c = length (cm_leaves m) \<and>
    cov_set c = {i. i < length (cm_leaves m) \<and> get (cm_leaves m ! i) s \<noteq> None}"
  using coverage_row [OF assms(1,2)] assms cov_scan_set [of "\<lambda>h. has h s" m]
  by (simp add: has_get)

text \<open>What is advertised can be served, and what is served verifies.\<close>

lemma coverage_honest:
  assumes "inv s" "coverage r s = Inr c" "i \<in> cov_set c"
  shows "\<exists>m b. row r s = Inr (Some m) \<and> cm_root m = r \<and> i < length (cm_leaves m) \<and>
    get (cm_leaves m ! i) s = Some b \<and> cm_verify H i b m"
proof -
  obtain x where x: "row r s = Inr x" using row_total [OF assms(1)] by blast
  then obtain m where m: "x = Some m"
    using coverage_row [OF assms(1) x] assms(2,3) by (cases x) auto
  then have "i < length (cm_leaves m)" "get (cm_leaves m ! i) s \<noteq> None"
    using coverage_set [OF assms(1) _ assms(2)] x assms(3) by auto
  then show ?thesis
    using x m row_root [OF assms(1)] get_addressed [OF assms(1)] by (auto simp: cm_verify_def)
qed

text \<open>A reclamation pass.\<close>

fun mark_all :: "root list \<Rightarrow> 'st \<Rightarrow> chunk_error + 'st" where
  "mark_all [] s = Inr s"
| "mark_all (r # rs) s = (case mark r s of Inl e \<Rightarrow> Inl e | Inr s' \<Rightarrow> mark_all rs s')"

lemma mark_all_live:
  "inv s \<Longrightarrow> mark_all rs s = Inr s' \<Longrightarrow> inv s' \<and> (\<forall>k. get k s' = get k s) \<and>
   (\<forall>r. row r s' = row r s) \<and>
   live s' = live s \<union> {h. \<exists>r m. r \<in> set rs \<and> row r s = Inr (Some m) \<and> h \<in> set (cm_leaves m)}"
proof (induction rs arbitrary: s)
  case (Cons r rs)
  obtain x where x: "row r s = Inr x" using row_total [OF Cons.prems(1)] by blast
  then obtain m where m: "x = Some m"
    using mark_refused [OF Cons.prems(1)] Cons.prems(2) by (cases x) auto
  then obtain s1 where s1: "mark r s = Inr s1" "inv s1" "live s1 = live s \<union> set (cm_leaves m)"
    "\<forall>k. get k s1 = get k s" "\<forall>r. row r s1 = row r s"
    using mark_adds [OF Cons.prems(1)] x by metis
  have "mark_all rs s1 = Inr s'" using Cons.prems(2) s1(1) by simp
  with Cons.IH [OF s1(2)] show ?case using s1 x m by auto
qed auto

lemma reclaim:
  assumes "inv s" "mark_all rs (start s) = Inr s'"
  shows "get h (snd (sweep s')) =
    (if \<exists>r m. r \<in> set rs \<and> row r s = Inr (Some m) \<and> h \<in> set (cm_leaves m) then get h s else None)"
  using sweep_keeps [of s' h] mark_all_live [OF _ assms(2)] start_clears [OF assms(1)] by auto

text \<open>Receiving a file: its row, then chunks in any order, repeated and forged ones among them. A
  forged one is refused.\<close>

definition put_any :: "chunk_address \<times> bytes \<Rightarrow> 'st \<Rightarrow> 'st" where
  "put_any hb s = (case put (fst hb) (snd hb) s of Inl e \<Rightarrow> s | Inr s' \<Rightarrow> s')"

lemma put_any_stored:
  assumes "inv s"
  shows "inv (put_any hb s) \<and> row r (put_any hb s) = row r s \<and>
    get k (put_any hb s) =
      (if k = fst hb \<and> chunk_hash H (snd hb) = k then Some (snd hb) else get k s)"
proof (cases "put (fst hb) (snd hb) s")
  case (Inl e)
  then show ?thesis using assms put_refused [of "fst hb" "snd hb" s e] by (auto simp: put_any_def)
next
  case (Inr s')
  then have "chunk_hash H (snd hb) = fst hb"
    using put_refused [of "fst hb" "snd hb" s "AddressMismatch (chunk_hash H (snd hb)) (fst hb)"]
    by auto
  moreover have "put_any hb s = s'" using Inr by (simp add: put_any_def)
  moreover note put_stored [OF assms Inr, of k r]
  ultimately show ?thesis by (cases "k = fst hb") metis+
qed

lemma put_all_stored:
  "inv s \<Longrightarrow> inv (fold put_any xs s) \<and> row r (fold put_any xs s) = row r s \<and>
   (get k s \<noteq> None \<or> (\<exists>b. (k, b) \<in> set xs \<and> chunk_hash H b = k) \<longrightarrow>
     get k (fold put_any xs s) \<noteq> None)"
proof (induction xs arbitrary: s)
  case (Cons x xs)
  show ?case
    using Cons.IH [of "put_any x s"] put_any_stored [OF Cons.prems, of x r k] by (cases x) auto
qed simp

lemma receive:
  assumes "inv s" "cm_wf H m"
    and "\<forall>k \<in> set (cm_leaves m). \<exists>b. (k, b) \<in> set xs \<and> chunk_hash H b = k"
  shows "\<exists>c. coverage (cm_root m) (fold put_any xs (put_row m s)) = Inr c \<and> cov_is_complete c \<and>
    cov_len c = length (cm_leaves m) \<and>
    (\<forall>i < length (cm_leaves m). \<exists>b. get (cm_leaves m ! i) (fold put_any xs (put_row m s)) = Some b \<and>
      cm_verify H i b m)"
proof -
  let ?s = "fold put_any xs (put_row m s)"
  note row = put_row_stored [OF assms(1,2)]
  have s': "inv ?s" and r: "row (cm_root m) ?s = Inr (Some m)"
    using put_all_stored [of "put_row m s"] row by auto
  obtain c where c: "coverage (cm_root m) ?s = Inr c" using coverage_row [OF s' r] by simp
  have held: "get (cm_leaves m ! i) ?s \<noteq> None" if i: "i < length (cm_leaves m)" for i
  proof -
    obtain b where "(cm_leaves m ! i, b) \<in> set xs" "chunk_hash H b = cm_leaves m ! i"
      using assms(3) nth_mem [OF i] by blast
    then show ?thesis
      using put_all_stored [of "put_row m s" xs "cm_root m" "cm_leaves m ! i"] row by blast
  qed
  have "cov_set c = {..<cov_len c}" "cov_len c = length (cm_leaves m)"
    using coverage_set [OF s' r c] held by auto
  moreover from this have "cov_is_complete c"
    by (simp add: cov_is_complete_set)
  moreover have "\<exists>b. get (cm_leaves m ! i) ?s = Some b \<and> cm_verify H i b m"
    if "i < length (cm_leaves m)" for i
    using held [OF that] get_addressed [OF s'] that by (auto simp: cm_verify_def)
  ultimately show ?thesis using c by blast
qed

end

subsection \<open>The store in memory\<close>

record mem_store =
  ms_chunks :: "(chunk_address \<times> bytes) list"
  ms_maps :: "(root \<times> chunk_map) list"
  ms_binds :: "(bytes \<times> nat \<times> int \<times> root) list"
  ms_marks :: "chunk_address list option"

definition ms_new :: mem_store where
  "ms_new = \<lparr>ms_chunks = [], ms_maps = [], ms_binds = [], ms_marks = None\<rparr>"

definition ms_stored_chunks :: "mem_store \<Rightarrow> nat" where
  "ms_stored_chunks s = length (ms_chunks s)"

definition ms_get :: "chunk_address \<Rightarrow> mem_store \<Rightarrow> bytes option" where
  "ms_get h s = map_of (ms_chunks s) h"

definition ms_has :: "chunk_address \<Rightarrow> mem_store \<Rightarrow> bool" where
  "ms_has h s = (map_of (ms_chunks s) h \<noteq> None)"

definition ms_map :: "root \<Rightarrow> mem_store \<Rightarrow> chunk_error + chunk_map option" where
  "ms_map r s = Inr (map_of (ms_maps s) r)"

definition ms_coverage :: "root \<Rightarrow> mem_store \<Rightarrow> chunk_error + coverage" where
  "ms_coverage r s =
     (case map_of (ms_maps s) r of
        None \<Rightarrow> Inr (cov_empty 0)
      | Some m \<Rightarrow> Inr (cov_scan (\<lambda>h. map_of (ms_chunks s) h \<noteq> None) m))"

definition ms_bind :: "file_id \<Rightarrow> mem_store \<Rightarrow> root option" where
  "ms_bind file s = bind_gate (ms_binds s) file"

definition ms_put :: "(bytes \<Rightarrow> bytes) \<Rightarrow> chunk_address \<Rightarrow> bytes \<Rightarrow> mem_store \<Rightarrow> chunk_error + mem_store" where
  "ms_put H h b s =
     (let actual = chunk_hash H b in
      if actual \<noteq> h then Inl (AddressMismatch actual h)
      else Inr (s\<lparr>ms_chunks := AList.update h b (ms_chunks s)\<rparr>))"

definition ms_put_map :: "chunk_map \<Rightarrow> mem_store \<Rightarrow> mem_store" where
  "ms_put_map m s = s\<lparr>ms_maps := AList.update (cm_root m) m (ms_maps s)\<rparr>"

definition ms_set_bind :: "file_id \<Rightarrow> root \<Rightarrow> mem_store \<Rightarrow> mem_store" where
  "ms_set_bind file r s =
     s\<lparr>ms_binds := AList.update (fi_key file) (fi_size file, fi_mtime file, r) (ms_binds s)\<rparr>"

definition ms_start_marking :: "mem_store \<Rightarrow> mem_store" where
  "ms_start_marking s = s\<lparr>ms_marks := Some []\<rparr>"

definition marks_or_none :: "chunk_address list option \<Rightarrow> chunk_address list" where
  "marks_or_none marks = (case marks of None \<Rightarrow> [] | Some hs \<Rightarrow> hs)"

lemma marks_or_none_simps [simp]: "marks_or_none None = []" "marks_or_none (Some hs) = hs"
  by (simp_all add: marks_or_none_def)

definition ms_mark :: "root \<Rightarrow> mem_store \<Rightarrow> chunk_error + mem_store" where
  "ms_mark r s =
     (case map_of (ms_maps s) r of
        None \<Rightarrow> Inl NoStoredMap
      | Some m \<Rightarrow> Inr (s\<lparr>ms_marks := Some (marks_or_none (ms_marks s) @ cm_leaves m)\<rparr>))"

definition ms_sweep :: "mem_store \<Rightarrow> nat \<times> mem_store" where
  "ms_sweep s =
     (let kept = marks_or_none (ms_marks s);
          before = length (ms_chunks s);
          chunks = filter (\<lambda>(h, _). h \<in> set kept) (ms_chunks s)
      in (min (before - length chunks) u64_max, s\<lparr>ms_marks := None, ms_chunks := chunks\<rparr>))"

definition ms_clear :: "chunk_address list \<Rightarrow> mem_store \<Rightarrow> mem_store" where
  "ms_clear hs s = s\<lparr>ms_chunks := fold AList.delete hs (ms_chunks s)\<rparr>"


subsection \<open>The store in memory keeps the contract\<close>

definition ms_inv :: "(bytes \<Rightarrow> bytes) \<Rightarrow> mem_store \<Rightarrow> bool" where
  "ms_inv H s \<longleftrightarrow>
     (\<forall>h b. map_of (ms_chunks s) h = Some b \<longrightarrow> chunk_hash H b = h) \<and>
     (\<forall>r m. map_of (ms_maps s) r = Some m \<longrightarrow> cm_wf H m \<and> cm_root m = r)"

definition ms_live :: "mem_store \<Rightarrow> chunk_address set" where
  "ms_live s = set (marks_or_none (ms_marks s))"

lemma map_of_fold_delete:
  "map_of (fold AList.delete ks al) k = (if k \<in> set ks then None else map_of al k)"
  by (induction ks arbitrary: al) (auto simp: delete_conv')

lemma map_of_filter_key:
  "map_of (filter (\<lambda>(h, _). h \<in> A) al) k = (if k \<in> A then map_of al k else None)"
  by (induction al) auto

lemma map_of_update: "map_of (AList.update k v al) k' = (if k' = k then Some v else map_of al k')"
  by (simp add: update_conv')

lemmas ms_defs = ms_get_def ms_has_def ms_map_def ms_coverage_def ms_put_def ms_put_map_def
  ms_start_marking_def ms_mark_def ms_sweep_def ms_clear_def ms_live_def

interpretation mem: chunk_store H "ms_inv H" ms_live ms_get ms_has ms_map ms_coverage "ms_put H"
  ms_put_map ms_start_marking ms_mark ms_sweep ms_clear for H
  by unfold_locales
    (auto simp: ms_inv_def ms_defs map_of_update map_of_filter_key map_of_fold_delete Let_def
      split: if_splits option.splits)

definition ms_exec :: "(bytes \<Rightarrow> bytes) \<Rightarrow> store_op \<Rightarrow> mem_store \<Rightarrow> mem_store" where
  "ms_exec H op s =
     (case op of
        SPut h b \<Rightarrow> (case ms_put H h b s of Inl e \<Rightarrow> s | Inr s' \<Rightarrow> s')
      | SPutMap m \<Rightarrow> ms_put_map m s
      | SSetBind file r \<Rightarrow> ms_set_bind file r s
      | SStartMarking \<Rightarrow> ms_start_marking s
      | SMark r \<Rightarrow> (case ms_mark r s of Inl e \<Rightarrow> s | Inr s' \<Rightarrow> s')
      | SSweep \<Rightarrow> snd (ms_sweep s)
      | SClear hs \<Rightarrow> ms_clear hs s)"


lemma ms_exec_inv:
  assumes "ms_inv H s" "case op of SPutMap m \<Rightarrow> cm_wf H m | _ \<Rightarrow> True"
  shows "ms_inv H (ms_exec H op s)"
proof (cases op)
  case (SPut h b)
  then show ?thesis
    using mem.put_stored [OF assms(1), of h b] assms(1) by (auto simp: ms_exec_def split: sum.splits)
next
  case (SMark r)
  then show ?thesis
    using mem.mark_refused [OF assms(1), of r] mem.mark_adds [OF assms(1), of r] assms(1)
    by (cases "map_of (ms_maps s) r") (auto simp: ms_exec_def ms_map_def split: sum.splits)
qed (use assms mem.put_row_stored mem.start_clears mem.sweep_keeps mem.clear_drops in
    \<open>auto simp: ms_exec_def ms_set_bind_def ms_inv_def [of H "s\<lparr>ms_binds := _\<rparr>"] ms_inv_def [of H s]\<close>)


lemma ms_exec_put: "ms_exec H (SPut h b) = mem.put_any H (h, b)"
  by (simp add: fun_eq_iff ms_exec_def mem.put_any_def)

lemma chunk_count_bound: "chunk_count n < 2 ^ 32 \<Longrightarrow> n < 2 ^ 64"
  using div_ceil_le_iff [of CHUNK_BYTES n "2 ^ 32"] by (simp add: chunk_count_def CHUNK_BYTES_def)

lemma cm_build_wf:
  assumes "\<forall>x. length (H x) = 32" "chunk_count (length bs) < 2 ^ 32" "cm_build H bs = Some m"
  shows "cm_wf H m"
proof -
  have "length bs < 2 ^ 64" using assms(2) by (rule chunk_count_bound)
  then have "cm_size m < 2 ^ 64" "length (cm_leaves m) < 2 ^ 32"
    "cm_from_leaves H (cm_leaves m) (cm_size m) = Inr m"
    using cm_build_spec [of bs H m] assms by (simp_all add: u64_max_def)
  moreover have "list_all (\<lambda>h. length (hash_bytes h) = 32) (cm_leaves m)"
    using assms(1,3) by (auto simp: cm_build_eq list_all_iff chunk_hash_def)
  ultimately show ?thesis by (simp add: cm_wf_def)
qed

subsection \<open>Properties\<close>

text \<open>C24: A peer that is sent the row of a file and then chunks, in any order, repeated, and forged
  ones among them, holds the file as soon as every chunk of it was among them: the coverage is
  complete and what is served at each place hashes like the file there.\<close>

theorem mem_store_receives:
  assumes "\<forall>x. length (H x) = 32" "chunk_count (length bs) < 2 ^ 32" "cm_build H bs = Some m"
    and "\<forall>k \<in> set (cm_leaves m). \<exists>b. (k, b) \<in> set xs \<and> chunk_hash H b = k"
    and "s = fold (ms_exec H) (SPutMap m # map (\<lambda>(h, b). SPut h b) xs) ms_new"
  shows "\<exists>c. ms_coverage (cm_root m) s = Inr c \<and> cov_is_complete c \<and>
    cov_len c = chunk_count (length bs) \<and>
    (\<forall>i < chunk_count (length bs). \<exists>b. ms_get (cm_leaves m ! i) s = Some b \<and>
      H b = H (slice (cm_range_of i m) bs))"
proof -
  have "fold (ms_exec H) (map (\<lambda>(h, b). SPut h b) xs) t = fold (mem.put_any H) xs t" for t
    by (induction xs arbitrary: t) (auto simp: ms_exec_put)
  then have s: "s = fold (mem.put_any H) xs (ms_put_map m ms_new)"
    by (simp add: assms(5) ms_exec_def)
  have bound: "length bs \<le> u64_max" using chunk_count_bound [OF assms(2)] by (simp add: u64_max_def)
  have "ms_inv H ms_new" by (simp add: ms_inv_def ms_new_def)
  moreover have "cm_wf H m" by (rule cm_build_wf [OF assms(1-3)])
  ultimately show ?thesis
    using mem.receive [of H ms_new m xs] assms(4) cm_build_spec [OF bound assms(3)] s by simp
qed

text \<open>A hash of 32 bytes for the witnesses.\<close>

definition demo_hash :: "bytes \<Rightarrow> bytes" where
  "demo_hash x = take 32 (x @ replicate 32 0)"

lemma demo_hash_length: "\<forall>x. length (demo_hash x) = 32"
  by (auto simp: demo_hash_def min_def)

definition demo_row :: chunk_map where
  "demo_row = \<lparr>cm_root = root_of demo_hash [chunk_hash demo_hash [1, 2, 3]] 3,
     cm_leaves = [chunk_hash demo_hash [1, 2, 3]], cm_size = 3\<rparr>"

lemma demo_build: "cm_build demo_hash [1, 2, 3] = Some demo_row"
proof -
  have "chunks_of CHUNK_BYTES [1, 2, 3] = [[1, 2, 3]]"
    by (subst chunks_of.simps, subst chunks_of.simps) (simp add: CHUNK_BYTES_def)
  then show ?thesis by (simp add: cm_build_eq demo_row_def numeral_3_eq_3)
qed

lemma demo_count: "chunk_count (length [1, 2, 3 :: byte]) = 1"
  by (simp add: chunk_count_def div_ceil_def CHUNK_BYTES_def)

theorem mem_store_receives_witness:
  "\<exists>s c. s = fold (ms_exec demo_hash) (SPutMap demo_row # map (\<lambda>(h, b). SPut h b)
      [(chunk_hash demo_hash [1, 2, 3], [9]), (chunk_hash demo_hash [1, 2, 3], [1, 2, 3])]) ms_new \<and>
     ms_coverage (cm_root demo_row) s = Inr c \<and> cov_is_complete c"
proof -
  let ?xs = "[(chunk_hash demo_hash [1, 2, 3], [9]), (chunk_hash demo_hash [1, 2, 3], [1, 2, 3])]"
  have "\<forall>k \<in> set (cm_leaves demo_row). \<exists>b. (k, b) \<in> set ?xs \<and> chunk_hash demo_hash b = k"
    by (auto simp: demo_row_def)
  then show ?thesis
    using mem_store_receives [OF demo_hash_length _ demo_build, of ?xs] demo_count by auto
qed

end
