(* ===== verification/FsStore.thy ===== *)
theory FsStore
  imports ChunkStore
begin

text \<open>
  The chunk store on a file system (\<open>FsStore\<close> of \<open>fofoca-chunks/src/fs.rs\<close>). The disk is an
  association list from paths below the store's directory to file contents; a path is the list of
  its components. File names and the table of bindings are UTF-8 bytes. Directories and errors of
  the disk other than a missing file are not modelled; a crash between the two steps of
  \<open>write_atomic\<close> is.
\<close>

type_synonym file_path = "bytes list"
type_synonym disk = "(file_path \<times> bytes) list"

abbreviation str :: "string \<Rightarrow> bytes" where
  "str \<equiv> map of_char"

subsection \<open>Writing files\<close>

definition temp_path :: "file_path \<Rightarrow> file_path" where
  "temp_path p = butlast p @ [46 # last p @ [46, 116, 109, 112]]"

definition write_temp :: "file_path \<Rightarrow> bytes \<Rightarrow> disk \<Rightarrow> disk" where
  "write_temp p bs d = AList.update (temp_path p) bs d"

definition rename_file :: "file_path \<Rightarrow> file_path \<Rightarrow> disk \<Rightarrow> disk" where
  "rename_file a b d =
     (case map_of d a of None \<Rightarrow> d | Some bs \<Rightarrow> AList.update b bs (AList.delete a d))"

definition write_atomic :: "file_path \<Rightarrow> bytes \<Rightarrow> disk \<Rightarrow> disk" where
  "write_atomic p bs d = rename_file (temp_path p) p (write_temp p bs d)"

subsection \<open>Leaf rows\<close>

definition encode_map :: "chunk_map \<Rightarrow> bytes" where
  "encode_map m =
     le_bytes 8 (cm_size m) @ le_bytes 4 (min (length (cm_leaves m)) u32_max) @
     concat (map hash_bytes (cm_leaves m))"

definition decode_map :: "(bytes \<Rightarrow> bytes) \<Rightarrow> bytes \<Rightarrow> chunk_error + chunk_map" where
  "decode_map H bs =
     (if length bs < 12 then Inl (MapTooShort (length bs))
      else let sz = le_nat (take 8 bs); count = le_nat (take 4 (drop 8 bs));
               expected = 12 + count * 32
           in if length bs < expected then Inl (LeavesTooShort count expected (length bs))
              else cm_from_leaves H
                     (map (\<lambda>i. ChunkHash (take 32 (drop (12 + i * 32) bs))) [0..<count]) sz)"

subsection \<open>The table of bindings\<close>

definition replace_byte :: "byte \<Rightarrow> bytes \<Rightarrow> bytes \<Rightarrow> bytes" where
  "replace_byte b new bs = concat (map (\<lambda>x. if x = b then new else [x]) bs)"

text \<open>Backslash is 92, tab 9, newline 10; \<open>t\<close> is 116 and \<open>n\<close> is 110.\<close>

definition escape :: "bytes \<Rightarrow> bytes" where
  "escape key = replace_byte 10 [92, 110] (replace_byte 9 [92, 116] (replace_byte 92 [92, 92] key))"

fun unescape :: "bytes \<Rightarrow> bytes" where
  "unescape [] = []"
| "unescape [c] = [c]"
| "unescape (c # x # rest) =
     (if c \<noteq> 92 then c # unescape (x # rest)
      else (if x = 116 then 9 else if x = 110 then 10 else x) # unescape rest)"

text \<open>Decimal numbers, as \<open>Display\<close> writes and \<open>parse\<close> reads them.\<close>

fun show_nat :: "nat \<Rightarrow> bytes" where
  "show_nat n = (if n < 10 then [48 + word_of_nat n]
                 else show_nat (n div 10) @ [48 + word_of_nat (n mod 10)])"

declare show_nat.simps [simp del]

definition show_int :: "int \<Rightarrow> bytes" where
  "show_int i = (if i < 0 then 45 # show_nat (nat (- i)) else show_nat (nat i))"

definition parse_digits :: "bytes \<Rightarrow> nat option" where
  "parse_digits bs =
     (if bs \<noteq> [] \<and> list_all (\<lambda>b. 48 \<le> b \<and> b \<le> 57) bs
      then Some (foldl (\<lambda>n b. 10 * n + unat (b - 48)) 0 bs) else None)"

definition parse_u64 :: "bytes \<Rightarrow> nat option" where
  "parse_u64 bs =
     (case parse_digits (if bs \<noteq> [] \<and> hd bs = 43 then tl bs else bs) of
        None \<Rightarrow> None
      | Some n \<Rightarrow> if n < 2 ^ 64 then Some n else None)"

definition parse_i64 :: "bytes \<Rightarrow> int option" where
  "parse_i64 bs =
     (let neg = (bs \<noteq> [] \<and> hd bs = 45) in
      case parse_digits (if neg \<or> (bs \<noteq> [] \<and> hd bs = 43) then tl bs else bs) of
        None \<Rightarrow> None
      | Some n \<Rightarrow>
          let i = (if neg then - int n else int n) in
          if - (2 ^ 63) \<le> i \<and> i < 2 ^ 63 then Some i else None)"

fun split_on :: "byte \<Rightarrow> bytes \<Rightarrow> bytes list" where
  "split_on b [] = [[]]"
| "split_on b (x # xs) =
     (if x = b then [] # split_on b xs
      else (x # hd (split_on b xs)) # tl (split_on b xs))"

text \<open>\<open>str::lines\<close>: the terminator is a newline, with a carriage return before it or not.\<close>

definition strip_cr :: "bytes \<Rightarrow> bytes" where
  "strip_cr l = (if l \<noteq> [] \<and> last l = 13 then butlast l else l)"

definition text_lines :: "bytes \<Rightarrow> bytes list" where
  "text_lines t =
     (let parts = split_on 10 t in
      map strip_cr (butlast parts) @ (if last parts = [] then [] else [last parts]))"

type_synonym bind_table = "(bytes \<times> nat \<times> int \<times> root) list"

definition bind_line :: "bytes \<times> nat \<times> int \<times> root \<Rightarrow> bytes" where
  "bind_line e =
     (case e of (key, sz, mtime, r) \<Rightarrow>
        escape key @ 9 # show_nat sz @ 9 # show_int mtime @ 9 # to_hex (root_bytes r) @ [10])"

definition bind_text :: "bind_table \<Rightarrow> bytes" where
  "bind_text binds = concat (map bind_line binds)"

definition load_line :: "bytes \<Rightarrow> bind_table \<Rightarrow> bind_table" where
  "load_line line binds =
     (case split_on 9 line of
        key # sz # mtime # r # _ \<Rightarrow>
          (case (parse_u64 sz, parse_i64 mtime, from_hex r) of
             (Some sz, Some mtime, Inr r) \<Rightarrow> AList.update (unescape key) (sz, mtime, Root r) binds
           | _ \<Rightarrow> binds)
      | _ \<Rightarrow> binds)"

definition load_binds :: "bytes option \<Rightarrow> bind_table" where
  "load_binds file = (case file of None \<Rightarrow> [] | Some t \<Rightarrow> fold load_line (text_lines t) [])"

subsection \<open>The store\<close>

record fs_store =
  fst_disk :: disk
  fst_binds :: bind_table
  fst_marks :: "chunk_address list option"

definition binds_path :: file_path where
  "binds_path = [str ''binds.tsv'']"

definition fst_open :: "disk \<Rightarrow> fs_store" where
  "fst_open d = \<lparr>fst_disk = d, fst_binds = load_binds (map_of d binds_path), fst_marks = None\<rparr>"

definition chunk_path :: "chunk_address \<Rightarrow> file_path" where
  "chunk_path h = (let hex = to_hex (hash_bytes h) in [str ''chunks'', take 2 hex, hex])"

definition map_path :: "root \<Rightarrow> file_path" where
  "map_path r = [str ''maps'', to_hex (root_bytes r)]"

text \<open>The walk of the shard directories: every file two levels below \<open>chunks\<close> whose name parses.\<close>

definition listed_chunk :: "file_path \<Rightarrow> chunk_address option" where
  "listed_chunk p =
     (case p of
        [dir, shard, name] \<Rightarrow>
          if dir = str ''chunks''
          then (case from_hex name of Inl _ \<Rightarrow> None | Inr bs \<Rightarrow> Some (ChunkHash bs)) else None
      | _ \<Rightarrow> None)"

definition fst_stored_chunks :: "fs_store \<Rightarrow> chunk_address list" where
  "fst_stored_chunks s = List.map_filter (\<lambda>(p, _). listed_chunk p) (fst_disk s)"

definition fst_flush_binds :: "fs_store \<Rightarrow> fs_store" where
  "fst_flush_binds s = s\<lparr>fst_disk := write_atomic binds_path (bind_text (fst_binds s)) (fst_disk s)\<rparr>"

definition fst_get :: "chunk_address \<Rightarrow> fs_store \<Rightarrow> bytes option" where
  "fst_get h s = map_of (fst_disk s) (chunk_path h)"

definition fst_has :: "chunk_address \<Rightarrow> fs_store \<Rightarrow> bool" where
  "fst_has h s = (map_of (fst_disk s) (chunk_path h) \<noteq> None)"

definition fst_map :: "(bytes \<Rightarrow> bytes) \<Rightarrow> root \<Rightarrow> fs_store \<Rightarrow> chunk_error + chunk_map option" where
  "fst_map H r s =
     (case map_of (fst_disk s) (map_path r) of
        None \<Rightarrow> Inr None
      | Some bs \<Rightarrow> (case decode_map H bs of Inl e \<Rightarrow> Inl e | Inr m \<Rightarrow> Inr (Some m)))"

definition fst_coverage :: "(bytes \<Rightarrow> bytes) \<Rightarrow> root \<Rightarrow> fs_store \<Rightarrow> chunk_error + coverage" where
  "fst_coverage H r s =
     (case fst_map H r s of
        Inl e \<Rightarrow> Inl e
      | Inr None \<Rightarrow> Inr (cov_empty 0)
      | Inr (Some m) \<Rightarrow> Inr (cov_scan (\<lambda>h. map_of (fst_disk s) (chunk_path h) \<noteq> None) m))"

definition fst_bind :: "file_id \<Rightarrow> fs_store \<Rightarrow> root option" where
  "fst_bind file s = bind_gate (fst_binds s) file"

definition fst_put :: "(bytes \<Rightarrow> bytes) \<Rightarrow> chunk_address \<Rightarrow> bytes \<Rightarrow> fs_store \<Rightarrow> chunk_error + fs_store" where
  "fst_put H h b s =
     (let actual = chunk_hash H b in
      if actual \<noteq> h then Inl (AddressMismatch actual h)
      else Inr (s\<lparr>fst_disk := write_atomic (chunk_path h) b (fst_disk s)\<rparr>))"

definition fst_put_map :: "chunk_map \<Rightarrow> fs_store \<Rightarrow> fs_store" where
  "fst_put_map m s = s\<lparr>fst_disk := write_atomic (map_path (cm_root m)) (encode_map m) (fst_disk s)\<rparr>"

definition fst_set_bind :: "file_id \<Rightarrow> root \<Rightarrow> fs_store \<Rightarrow> fs_store" where
  "fst_set_bind file r s =
     fst_flush_binds (s\<lparr>fst_binds :=
       AList.update (fi_key file) (fi_size file, fi_mtime file, r) (fst_binds s)\<rparr>)"

definition fst_start_marking :: "fs_store \<Rightarrow> fs_store" where
  "fst_start_marking s = s\<lparr>fst_marks := Some []\<rparr>"

definition fst_mark :: "(bytes \<Rightarrow> bytes) \<Rightarrow> root \<Rightarrow> fs_store \<Rightarrow> chunk_error + fs_store" where
  "fst_mark H r s =
     (case fst_map H r s of
        Inl e \<Rightarrow> Inl e
      | Inr None \<Rightarrow> Inl NoStoredMap
      | Inr (Some m) \<Rightarrow>
          Inr (s\<lparr>fst_marks := Some (marks_or_none (fst_marks s) @ cm_leaves m)\<rparr>))"

definition remove_chunk :: "chunk_address \<Rightarrow> nat \<times> disk \<Rightarrow> nat \<times> disk" where
  "remove_chunk h nd =
     (case nd of (n, d) \<Rightarrow>
        if map_of d (chunk_path h) \<noteq> None then (n + 1, AList.delete (chunk_path h) d) else (n, d))"

definition fst_sweep :: "fs_store \<Rightarrow> nat \<times> fs_store" where
  "fst_sweep s =
     (let kept = marks_or_none (fst_marks s);
          (dropped, d) = fold (\<lambda>h nd. if h \<in> set kept then nd else remove_chunk h nd)
            (fst_stored_chunks s) (0, fst_disk s)
      in (dropped, s\<lparr>fst_marks := None, fst_disk := d\<rparr>))"

definition fst_clear :: "chunk_address list \<Rightarrow> fs_store \<Rightarrow> fs_store" where
  "fst_clear hs s = s\<lparr>fst_disk := fold (\<lambda>h. AList.delete (chunk_path h)) hs (fst_disk s)\<rparr>"

definition fst_exec :: "(bytes \<Rightarrow> bytes) \<Rightarrow> store_op \<Rightarrow> fs_store \<Rightarrow> fs_store" where
  "fst_exec H op s =
     (case op of
        SPut h b \<Rightarrow> (case fst_put H h b s of Inl e \<Rightarrow> s | Inr s' \<Rightarrow> s')
      | SPutMap m \<Rightarrow> fst_put_map m s
      | SSetBind file r \<Rightarrow> fst_set_bind file r s
      | SStartMarking \<Rightarrow> fst_start_marking s
      | SMark r \<Rightarrow> (case fst_mark H r s of Inl e \<Rightarrow> s | Inr s' \<Rightarrow> s')
      | SSweep \<Rightarrow> snd (fst_sweep s)
      | SClear hs \<Rightarrow> fst_clear hs s)"

subsection \<open>Encodings\<close>

lemma concat_equal_slices:
  "\<forall>x \<in> set xss. length x = n \<Longrightarrow> i < length xss \<Longrightarrow> take n (drop (i * n) (concat xss)) = xss ! i"
proof (induction xss arbitrary: i)
  case (Cons x xss)
  then show ?case by (cases i) auto
qed simp

lemma concat_equal_length: "\<forall>x \<in> set xss. length x = n \<Longrightarrow> length (concat xss) = length xss * n"
  by (induction xss) auto

lemma decode_encode:
  assumes "cm_wf H m"
  shows "decode_map H (encode_map m) = Inr m"
proof -
  have size: "cm_size m < 256 ^ 8" using assms by (simp add: cm_wf_def)
  have len: "length (cm_leaves m) < 2 ^ 32" using assms by (simp add: cm_wf_def)
  then have count: "min (length (cm_leaves m)) u32_max = length (cm_leaves m)" by (simp add: u32_max_def)
  define xss where "xss = map hash_bytes (cm_leaves m)"
  have xss: "\<forall>x \<in> set xss. length x = 32" using assms by (auto simp: cm_wf_def list_all_iff xss_def)
  have bytes: "encode_map m = le_bytes 8 (cm_size m) @ le_bytes 4 (length (cm_leaves m)) @ concat xss"
    by (simp only: encode_map_def count xss_def)
  have leaf: "ChunkHash (take 32 (drop (12 + i * 32) (encode_map m))) = cm_leaves m ! i"
    if "i < length (cm_leaves m)" for i
  proof -
    have "take 32 (drop (12 + i * 32) (encode_map m)) = xss ! i"
      using concat_equal_slices [OF xss, of i] that by (simp add: bytes xss_def)
    then show ?thesis using that by (cases "cm_leaves m ! i") (simp add: xss_def)
  qed
  have leaves: "map (\<lambda>i. ChunkHash (take 32 (drop (12 + i * 32) (encode_map m))))
      [0..<length (cm_leaves m)] = cm_leaves m"
    using leaf by (intro nth_equalityI) simp_all
  have sz: "le_nat (take 8 (encode_map m)) = cm_size m"
    using size by (simp add: bytes le_nat_bytes)
  have ct: "le_nat (take 4 (drop 8 (encode_map m))) = length (cm_leaves m)"
    using len by (simp add: bytes le_nat_bytes)
  have total: "length (encode_map m) = 12 + length (cm_leaves m) * 32"
    using concat_equal_length [OF xss] by (simp add: bytes xss_def)
  show ?thesis unfolding decode_map_def Let_def sz ct leaves total
    using assms by (simp add: cm_wf_def)
qed

lemma escape_concat:
  "escape key = concat (map (\<lambda>c. if c = 92 then [92, 92] else if c = 9 then [92, 116]
     else if c = 10 then [92, 110] else [c]) key)"
  unfolding escape_def replace_byte_def by (induction key) auto

lemma unescape_plain: "c \<noteq> 92 \<Longrightarrow> unescape (c # rest) = c # unescape rest"
  by (cases rest) auto

lemma unescape_escape: "unescape (escape key) = key"
proof (induction key)
  case (Cons c key)
  then show ?case by (simp add: escape_concat unescape_plain)
qed (simp add: escape_concat)

lemma escape_clean: "9 \<notin> set (escape key)" "10 \<notin> set (escape key)"
  by (auto simp: escape_concat split: if_splits)

lemma digit_byte: "n < 10 \<Longrightarrow> unat (48 + word_of_nat n :: byte) = 48 + n"
  by (simp add: unat_word_ariths unat_of_nat)

lemma digit_minus: "n < 10 \<Longrightarrow> unat (48 + word_of_nat n - 48 :: byte) = n"
  by (simp add: unat_of_nat)

definition digit :: "byte \<Rightarrow> bool" where
  "digit b \<longleftrightarrow> 48 \<le> b \<and> b \<le> 57"

lemma digit_digit: "n < 10 \<Longrightarrow> digit (48 + word_of_nat n)"
  by (simp add: digit_def word_le_nat_alt digit_byte)

lemma show_nat_digits: "show_nat n \<noteq> [] \<and> list_all digit (show_nat n)"
proof (induction n rule: show_nat.induct)
  case (1 n)
  show ?case
  proof (cases "n < 10")
    case True
    then show ?thesis by (subst (1 2) show_nat.simps) (simp add: digit_digit)
  next
    case False
    then show ?thesis using 1 by (subst (1 2) show_nat.simps) (simp add: digit_digit)
  qed
qed

lemma show_nat_value: "foldl (\<lambda>n b. 10 * n + unat (b - 48)) 0 (show_nat n) = n"
proof (induction n rule: show_nat.induct)
  case (1 n)
  show ?case
  proof (cases "n < 10")
    case True
    then show ?thesis by (subst show_nat.simps) (simp add: digit_minus unat_of_nat)
  next
    case False
    have "foldl (\<lambda>n b. 10 * n + unat (b - 48)) 0 (show_nat n) = 10 * (n div 10) + n mod 10"
      using 1 False by (subst show_nat.simps) (simp add: digit_minus unat_of_nat)
    then show ?thesis by simp
  qed
qed

lemma parse_digits_show: "parse_digits (show_nat n) = Some n"
  using show_nat_digits [of n] by (simp add: parse_digits_def digit_def [abs_def] show_nat_value)

lemma show_nat_head: "digit (hd (show_nat n))"
  using show_nat_digits [of n] by (cases "show_nat n") auto

lemma digit_not: "digit b \<Longrightarrow> b \<noteq> 43 \<and> b \<noteq> 45 \<and> b \<noteq> 9 \<and> b \<noteq> 10 \<and> b \<noteq> 13"
  by (auto simp: digit_def)

lemma parse_u64_show: "n < 2 ^ 64 \<Longrightarrow> parse_u64 (show_nat n) = Some n"
  using digit_not [OF show_nat_head [of n]] by (simp add: parse_u64_def parse_digits_show)

lemma parse_i64_show: "- (2 ^ 63) \<le> i \<Longrightarrow> i < 2 ^ 63 \<Longrightarrow> parse_i64 (show_int i) = Some i"
  using digit_not [OF show_nat_head [of "nat i"]] show_nat_digits
  by (simp add: parse_i64_def show_int_def parse_digits_show Let_def)

lemma show_clean: "b \<in> {9, 10, 13} \<Longrightarrow> b \<notin> set (show_nat n) \<and> b \<notin> set (show_int i)"
proof -
  assume b: "b \<in> {9, 10, 13}"
  have "b \<notin> set (show_nat k)" for k
    using show_nat_digits [of k] digit_not [of b] b by (auto simp: list_all_iff)
  then show ?thesis using b by (auto simp: show_int_def)
qed

lemma to_hex_clean: "b \<in> {9, 10, 13, 46} \<Longrightarrow> b \<notin> set (to_hex bs)"
proof
  assume b: "b \<in> {9, 10, 13, 46}" and "b \<in> set (to_hex bs)"
  then obtain v where "v < 16" "b = hex_digit v"
    using nibble_bounds by (auto simp: to_hex_def)
  then have "hex_nibble b = Some v" by (simp add: hex_nibble_digit)
  then show False using b by (auto simp: hex_nibble_def)
qed

lemma split_on_free: "b \<notin> set xs \<Longrightarrow> split_on b xs = [xs]"
  by (induction xs) auto

lemma split_on_append: "b \<notin> set xs \<Longrightarrow> split_on b (xs @ b # ys) = xs # split_on b ys"
  by (induction xs) auto

lemma text_lines_append:
  assumes "10 \<notin> set l" "l = [] \<or> last l \<noteq> 13"
  shows "text_lines (l @ 10 # t) = l # text_lines t"
proof -
  have "split_on 10 t \<noteq> []" by (cases t) auto
  then show ?thesis using assms
    by (auto simp: text_lines_def split_on_append strip_cr_def Let_def)
qed

definition entry_ok :: "bytes \<times> nat \<times> int \<times> root \<Rightarrow> bool" where
  "entry_ok e \<longleftrightarrow> (case e of (key, sz, mtime, r) \<Rightarrow>
     sz < 2 ^ 64 \<and> - (2 ^ 63) \<le> mtime \<and> mtime < 2 ^ 63 \<and> length (root_bytes r) = 32)"

lemma load_line_entry:
  assumes "entry_ok (key, sz, mtime, r)"
  shows "load_line (escape key @ 9 # show_nat sz @ 9 # show_int mtime @ 9 # to_hex (root_bytes r)) binds =
    AList.update key (sz, mtime, r) binds"
proof -
  have "split_on 9 (escape key @ 9 # show_nat sz @ 9 # show_int mtime @ 9 # to_hex (root_bytes r)) =
      [escape key, show_nat sz, show_int mtime, to_hex (root_bytes r)]"
    using show_clean [of 9 sz mtime] to_hex_clean [of 9]
    by (simp add: split_on_append split_on_free escape_clean)
  moreover have "from_hex (to_hex (root_bytes r)) = Inr (root_bytes r)" "Root (root_bytes r) = r"
    using assms hex_pairs_to_hex [of "root_bytes r"] to_hex_length [of "root_bytes r"]
    by (cases r, simp add: from_hex_def entry_ok_def)+
  ultimately show ?thesis
    using assms by (simp add: load_line_def entry_ok_def parse_u64_show parse_i64_show unescape_escape)
qed

lemma load_bind_text:
  assumes "list_all entry_ok binds"
  shows "fold load_line (text_lines (bind_text binds)) acc = fold (\<lambda>(k, v). AList.update k v) binds acc"
  using assms
proof (induction binds arbitrary: acc)
  case Nil
  then show ?case by (simp add: bind_text_def text_lines_def)
next
  case (Cons e binds)
  obtain key sz mtime r where e: "e = (key, sz, mtime, r)" by (cases e) auto
  define l where "l = escape key @ 9 # show_nat sz @ 9 # show_int mtime @ 9 # to_hex (root_bytes r)"
  have ok: "entry_ok (key, sz, mtime, r)" using Cons.prems e by simp
  then have "to_hex (root_bytes r) \<noteq> []" using to_hex_length [of "root_bytes r"] by (auto simp: entry_ok_def)
  then have "last l \<noteq> 13" using to_hex_clean [of 13] last_in_set by (fastforce simp: l_def)
  moreover have "10 \<notin> set l"
    using show_clean [of 10] to_hex_clean [of 10] escape_clean by (auto simp: l_def)
  moreover have "bind_text (e # binds) = l @ 10 # bind_text binds"
    by (simp add: bind_text_def bind_line_def e l_def)
  ultimately have "text_lines (bind_text (e # binds)) = l # text_lines (bind_text binds)"
    by (simp add: text_lines_append)
  moreover have "load_line l acc = AList.update key (sz, mtime, r) acc"
    unfolding l_def by (rule load_line_entry [OF ok])
  ultimately show ?case using Cons e by simp
qed

lemma fold_update_map_of:
  "distinct (map fst al) \<Longrightarrow>
   map_of (fold (\<lambda>(k, v). AList.update k v) al acc) k =
     (case map_of al k of None \<Rightarrow> map_of acc k | Some v \<Rightarrow> Some v)"
proof (induction al arbitrary: acc)
  case (Cons e al)
  obtain k' v where e: "e = (k', v)" by (cases e)
  then have "k' \<notin> set (map fst al)" using Cons.prems by simp
  then have "map_of al k' = None" by (simp add: map_of_eq_None_iff)
  then show ?case using Cons e by (auto simp: map_of_update split: option.splits)
qed simp

subsection \<open>Paths\<close>

lemma to_hex_inject: "to_hex a = to_hex b \<longleftrightarrow> a = b"
  by (metis hex_pairs_to_hex option.inject)

lemma chunk_path_inject [simp]: "chunk_path h = chunk_path k \<longleftrightarrow> h = k"
  by (cases h; cases k) (auto simp: chunk_path_def Let_def to_hex_inject)

lemma map_path_inject [simp]: "map_path r = map_path q \<longleftrightarrow> r = q"
  by (cases r; cases q) (auto simp: map_path_def to_hex_inject)

lemma paths_differ [simp]:
  "chunk_path h \<noteq> map_path r" "map_path r \<noteq> chunk_path h" "chunk_path h \<noteq> binds_path"
  "binds_path \<noteq> chunk_path h" "map_path r \<noteq> binds_path" "binds_path \<noteq> map_path r"
  by (simp_all add: chunk_path_def map_path_def binds_path_def Let_def)

text \<open>No file of the store has a name that starts with a dot; every temporary file has.\<close>

definition plain_path :: "file_path \<Rightarrow> bool" where
  "plain_path p \<longleftrightarrow> p \<noteq> [] \<and> (last p = [] \<or> hd (last p) \<noteq> 46)"

lemma to_hex_plain: "to_hex bs = [] \<or> hd (to_hex bs) \<noteq> 46"
  using to_hex_clean [of 46 bs] hd_in_set by fastforce

lemma plain_paths [simp]: "plain_path (chunk_path h)" "plain_path (map_path r)" "plain_path binds_path"
  using to_hex_plain by (auto simp: plain_path_def chunk_path_def map_path_def binds_path_def Let_def)

lemma temp_not_plain [simp]: "\<not> plain_path (temp_path p)"
  by (simp add: plain_path_def temp_path_def)

lemma write_temp_plain: "plain_path q \<Longrightarrow> map_of (write_temp p bs d) q = map_of d q"
  by (auto simp: write_temp_def map_of_update)

lemma write_atomic_plain:
  assumes "plain_path q"
  shows "map_of (write_atomic p bs d) q = (if q = p then Some bs else map_of d q)"
proof -
  have "q \<noteq> temp_path p" using assms by auto
  then show ?thesis
    by (simp add: write_atomic_def rename_file_def write_temp_def map_of_update delete_conv')
qed

subsection \<open>The store on disk keeps the contract\<close>

definition fst_inv :: "(bytes \<Rightarrow> bytes) \<Rightarrow> fs_store \<Rightarrow> bool" where
  "fst_inv H s \<longleftrightarrow> (\<forall>x. length (H x) = 32) \<and>
     (\<forall>h b. map_of (fst_disk s) (chunk_path h) = Some b \<longrightarrow> chunk_hash H b = h) \<and>
     (\<forall>r b. map_of (fst_disk s) (map_path r) = Some b \<longrightarrow>
        (\<exists>m. b = encode_map m \<and> cm_wf H m \<and> cm_root m = r)) \<and>
     list_all entry_ok (fst_binds s) \<and> distinct (map fst (fst_binds s)) \<and>
     map_of (load_binds (map_of (fst_disk s) binds_path)) = map_of (fst_binds s)"

definition fst_live :: "fs_store \<Rightarrow> chunk_address set" where
  "fst_live s = set (marks_or_none (fst_marks s))"

text \<open>The invariant and the reads depend on the lookups alone.\<close>

lemma fst_inv_cong:
  assumes "fst_inv H s" "fst_binds t = fst_binds s"
    and "\<And>q. plain_path q \<Longrightarrow> map_of (fst_disk t) q = map_of (fst_disk s) q"
  shows "fst_inv H t"
  using assms unfolding fst_inv_def by simp

lemma fst_map_some:
  assumes "fst_inv H s" "map_of (fst_disk s) (map_path r) = Some b"
  shows "\<exists>m. fst_map H r s = Inr (Some m) \<and> cm_wf H m \<and> cm_root m = r"
  using assms decode_encode by (fastforce simp: fst_inv_def fst_map_def)

lemma fst_map_cases:
  assumes "fst_inv H s"
  shows "fst_map H r s = Inr None \<or> (\<exists>m. fst_map H r s = Inr (Some m) \<and> cm_wf H m \<and> cm_root m = r)"
  using fst_map_some [OF assms, of r] by (cases "map_of (fst_disk s) (map_path r)") (auto simp: fst_map_def)

lemma fst_map_cong:
  "map_of (fst_disk t) (map_path r) = map_of (fst_disk s) (map_path r) \<Longrightarrow> fst_map H r t = fst_map H r s"
  by (simp add: fst_map_def)

lemma fst_put_law:
  assumes "fst_inv H s" "fst_put H h b s = Inr s'"
  shows "fst_inv H s' \<and> fst_get k s' = (if k = h then Some b else fst_get k s) \<and>
    fst_map H r s' = fst_map H r s \<and> fst_live s' = fst_live s"
proof -
  have s': "s' = s\<lparr>fst_disk := write_atomic (chunk_path h) b (fst_disk s)\<rparr>" "chunk_hash H b = h"
    using assms(2) by (auto simp: fst_put_def Let_def split: if_splits)
  have "fst_inv H s'" using assms(1) s'
    by (auto simp: fst_inv_def write_atomic_plain split: if_splits)
  then show ?thesis using s'
    by (auto simp: fst_get_def fst_live_def write_atomic_plain intro: fst_map_cong)
qed

lemma fst_put_map_law:
  assumes "fst_inv H s" "cm_wf H m"
  shows "fst_inv H (fst_put_map m s) \<and> fst_get k (fst_put_map m s) = fst_get k s \<and>
    fst_live (fst_put_map m s) = fst_live s \<and>
    fst_map H r (fst_put_map m s) = (if r = cm_root m then Inr (Some m) else fst_map H r s)"
proof -
  have "fst_inv H (fst_put_map m s)" using assms
    unfolding fst_inv_def fst_put_map_def by (auto simp: write_atomic_plain split: if_splits)
  moreover have "fst_map H r (fst_put_map m s) = (if r = cm_root m then Inr (Some m) else fst_map H r s)"
    using decode_encode [OF assms(2)] by (simp add: fst_map_def fst_put_map_def write_atomic_plain)
  ultimately show ?thesis
    by (simp add: fst_get_def fst_live_def fst_put_map_def write_atomic_plain)
qed

lemma delete_chunks_inv:
  assumes "fst_inv H s" "\<And>q. (\<forall>h. q \<noteq> chunk_path h) \<Longrightarrow> map_of d q = map_of (fst_disk s) q"
    and "\<And>h. map_of d (chunk_path h) = None \<or> map_of d (chunk_path h) = map_of (fst_disk s) (chunk_path h)"
  shows "fst_inv H (s\<lparr>fst_marks := x, fst_disk := d\<rparr>)"
proof -
  have "map_of d (map_path r) = map_of (fst_disk s) (map_path r)"
    "map_of d binds_path = map_of (fst_disk s) binds_path" for r
    using assms(2) by simp_all
  then show ?thesis using assms(1,3) unfolding fst_inv_def by (simp; metis option.distinct(1))
qed

lemma remove_chunk_disk:
  "map_of (snd (remove_chunk h nd)) q = (if q = chunk_path h then None else map_of (snd nd) q)"
  by (cases nd) (auto simp: remove_chunk_def delete_conv')

lemma sweep_disk:
  "map_of (snd (fold (\<lambda>h nd. if h \<in> A then nd else remove_chunk h nd) hs nd)) q =
     (if \<exists>h \<in> set hs. h \<notin> A \<and> q = chunk_path h then None else map_of (snd nd) q)"
  by (induction hs arbitrary: nd) (auto simp: remove_chunk_disk)

lemma stored_chunk_listed:
  assumes "fst_inv H s" "map_of (fst_disk s) (chunk_path h) = Some b"
  shows "h \<in> set (fst_stored_chunks s)"
proof -
  obtain bs where h: "h = ChunkHash bs" by (cases h)
  have "chunk_hash H b = h" using assms unfolding fst_inv_def by blast
  then have "length bs = 32" using assms(1) h by (auto simp: fst_inv_def chunk_hash_def)
  then have "listed_chunk (chunk_path h) = Some h"
    using hex_pairs_to_hex [of bs] to_hex_length [of bs]
    by (simp add: h listed_chunk_def chunk_path_def Let_def from_hex_def)
  moreover have "(chunk_path h, b) \<in> set (fst_disk s)" using map_of_SomeD [OF assms(2)] .
  ultimately show ?thesis
    by (force simp: fst_stored_chunks_def List.map_filter_def intro!: image_eqI [of _ _ "(chunk_path h, b)"])
qed

lemma fst_sweep_law:
  assumes "fst_inv H s"
  shows "fst_inv H (snd (fst_sweep s)) \<and> fst_live (snd (fst_sweep s)) = {} \<and>
    fst_get k (snd (fst_sweep s)) = (if k \<in> fst_live s then fst_get k s else None) \<and>
    fst_map H r (snd (fst_sweep s)) = fst_map H r s"
proof -
  define d where "d = snd (fold (\<lambda>h nd. if h \<in> set (marks_or_none (fst_marks s)) then nd
    else remove_chunk h nd) (fst_stored_chunks s) (0, fst_disk s))"
  have s': "snd (fst_sweep s) = s\<lparr>fst_marks := None, fst_disk := d\<rparr>"
    by (simp add: fst_sweep_def d_def Let_def split_beta)
  have d: "map_of d q = (if \<exists>h \<in> set (fst_stored_chunks s). h \<notin> fst_live s \<and> q = chunk_path h
      then None else map_of (fst_disk s) q)" for q
    by (auto simp: d_def sweep_disk fst_live_def)
  have "fst_inv H (s\<lparr>fst_marks := None, fst_disk := d\<rparr>)"
    by (rule delete_chunks_inv [OF assms]) (auto simp: d)
  moreover have "map_of d (chunk_path k) = (if k \<in> fst_live s then map_of (fst_disk s) (chunk_path k) else None)"
    using stored_chunk_listed [OF assms, of k] by (cases "map_of (fst_disk s) (chunk_path k)") (auto simp: d)
  ultimately show ?thesis
    by (simp add: s' fst_live_def fst_get_def fst_map_def d)
qed

lemma clear_disk:
  "map_of (fold (\<lambda>h. AList.delete (chunk_path h)) hs d) q =
     (if \<exists>h \<in> set hs. q = chunk_path h then None else map_of d q)"
  by (induction hs arbitrary: d) (auto simp: delete_conv')

lemma fst_clear_law:
  assumes "fst_inv H s"
  shows "fst_inv H (fst_clear hs s) \<and> fst_live (fst_clear hs s) = fst_live s \<and>
    fst_get k (fst_clear hs s) = (if k \<in> set hs then None else fst_get k s) \<and>
    fst_map H r (fst_clear hs s) = fst_map H r s"
proof -
  have "fst_inv H (s\<lparr>fst_marks := fst_marks s, fst_disk := fst_disk (fst_clear hs s)\<rparr>)"
    by (rule delete_chunks_inv [OF assms]) (auto simp: fst_clear_def clear_disk)
  then show ?thesis
    by (auto simp: fst_clear_def fst_live_def fst_get_def fst_map_def clear_disk)
qed

lemma fst_mark_law:
  assumes "fst_inv H s" "fst_map H r s = Inr (Some m)"
  shows "\<exists>s'. fst_mark H r s = Inr s' \<and> fst_inv H s' \<and> fst_live s' = fst_live s \<union> set (cm_leaves m) \<and>
    (\<forall>k. fst_get k s' = fst_get k s) \<and> (\<forall>r. fst_map H r s' = fst_map H r s)"
  using assms(2) fst_inv_cong [OF assms(1), of "s\<lparr>fst_marks := _\<rparr>"]
  by (simp add: fst_mark_def fst_live_def fst_get_def fst_map_def)

lemma fst_start_law:
  assumes "fst_inv H s"
  shows "fst_inv H (fst_start_marking s) \<and> fst_live (fst_start_marking s) = {} \<and>
    fst_get k (fst_start_marking s) = fst_get k s \<and> fst_map H r (fst_start_marking s) = fst_map H r s"
  using fst_inv_cong [OF assms, of "fst_start_marking s"]
  by (simp add: fst_start_marking_def fst_live_def fst_get_def fst_map_def)

interpretation fs: chunk_store H "fst_inv H" fst_live fst_get fst_has "fst_map H" "fst_coverage H"
  "fst_put H" fst_put_map fst_start_marking "fst_mark H" fst_sweep fst_clear for H
proof (unfold_locales, goal_cases)
  case (1 s h)
  then show ?case by (simp add: fst_has_def fst_get_def)
next
  case (2 s h b)
  then show ?case by (simp add: fst_inv_def fst_get_def)
next
  case (3 s r)
  then show ?case using fst_map_cases by metis
next
  case (4 s r m)
  then show ?case using fst_map_cases [of H s r] by auto
next
  case (5 s r x)
  then show ?case by (simp add: fst_coverage_def fst_has_def split: option.splits)
next
  case (6 h b s e)
  then show ?case by (auto simp: fst_put_def Let_def)
next
  case (10 s r)
  then show ?case by (simp add: fst_mark_def)
qed (simp_all add: fst_put_law fst_put_map_law fst_start_law fst_sweep_law fst_clear_law fst_mark_law)


subsection \<open>Sequences of calls\<close>

definition op_ok :: "(bytes \<Rightarrow> bytes) \<Rightarrow> store_op \<Rightarrow> bool" where
  "op_ok H op =
     (case op of
        SPutMap m \<Rightarrow> cm_wf H m
      | SSetBind file r \<Rightarrow> entry_ok (fi_key file, fi_size file, fi_mtime file, r)
      | _ \<Rightarrow> True)"

lemma load_bind_text_map:
  assumes "list_all entry_ok binds" "distinct (map fst binds)"
  shows "map_of (load_binds (Some (bind_text binds))) = map_of binds"
  using load_bind_text [OF assms(1)] fold_update_map_of [OF assms(2)]
  by (auto simp: load_binds_def fun_eq_iff split: option.splits)

lemma update_entries:
  "list_all entry_ok binds \<Longrightarrow> entry_ok (k, v) \<Longrightarrow> list_all entry_ok (AList.update k v binds)"
  by (induction binds) auto

lemma set_bind_inv:
  assumes "fst_inv H s" "entry_ok (fi_key file, fi_size file, fi_mtime file, r)"
  shows "fst_inv H (fst_set_bind file r s)"
proof -
  define binds where "binds = AList.update (fi_key file) (fi_size file, fi_mtime file, r) (fst_binds s)"
  have "list_all entry_ok binds" "distinct (map fst binds)"
    using assms by (auto simp: binds_def fst_inv_def update_entries intro: distinct_update)
  moreover from this have "map_of (load_binds (Some (bind_text binds))) = map_of binds"
    by (rule load_bind_text_map)
  ultimately show ?thesis using assms(1)
    unfolding fst_inv_def fst_set_bind_def fst_flush_binds_def binds_def [symmetric]
    by (simp add: write_atomic_plain)
qed

lemma fst_exec_inv:
  assumes "fst_inv H s" "op_ok H op"
  shows "fst_inv H (fst_exec H op s)"
proof (cases op)
  case (SPut h b)
  then show ?thesis
    using fs.put_stored [OF assms(1), of h b] assms(1) by (auto simp: fst_exec_def split: sum.splits)
next
  case (SMark r)
  then show ?thesis
    using fs.mark_refused [OF assms(1), of r] fs.mark_adds [OF assms(1), of r] assms(1)
      fst_map_cases [OF assms(1), of r]
    by (auto simp: fst_exec_def split: sum.splits)
qed (use assms set_bind_inv fs.put_row_stored fs.start_clears fs.sweep_keeps fs.clear_drops in
    \<open>auto simp: fst_exec_def op_ok_def\<close>)

lemma fst_run_inv:
  assumes "fst_inv H s" "list_all (op_ok H) ops"
  shows "fst_inv H (fold (fst_exec H) ops s)"
  using assms by (induction ops arbitrary: s) (auto intro: fst_exec_inv)

lemma fst_open_inv:
  assumes "\<forall>x. length (H x) = 32"
  shows "fst_inv H (fst_open [])"
  using assms by (simp add: fst_inv_def fst_open_def load_binds_def)

lemma fst_marks_run:
  assumes "fst_inv H s" "\<forall>r \<in> set rs. \<exists>m. fst_map H r s = Inr (Some m)"
  shows "fs.mark_all H rs s = Inr (fold (fst_exec H) (map SMark rs) s)"
  using assms
proof (induction rs arbitrary: s)
  case (Cons r rs)
  obtain m where m: "fst_map H r s = Inr (Some m)" using Cons.prems(2) by auto
  obtain s1 where s1: "fst_mark H r s = Inr s1" "fst_inv H s1" "\<forall>r. fst_map H r s1 = fst_map H r s"
    using fs.mark_adds [OF Cons.prems(1) m] by blast
  then show ?case using Cons by (simp add: fst_exec_def)
qed simp

subsection \<open>Properties\<close>

lemma fst_reached:
  assumes "\<forall>x. length (H x) = 32" "list_all (op_ok H) ops"
  shows "fst_inv H (fold (fst_exec H) ops (fst_open []))"
  by (rule fst_run_inv [OF fst_open_inv [OF assms(1)] assms(2)])

text \<open>C25: Coverage never claims what cannot be served: after any sequence of calls on a new store,
  each chunk of a file that is in its coverage is returned by \<open>get\<close>, and the bytes returned verify
  against the row.\<close>

theorem fs_store_honest:
  assumes "\<forall>x. length (H x) = 32" "list_all (op_ok H) ops"
    and "s = fold (fst_exec H) ops (fst_open [])"
    and "fst_coverage H r s = Inr c" "i \<in> cov_set c"
  shows "\<exists>m b. fst_map H r s = Inr (Some m) \<and> cm_root m = r \<and> i < length (cm_leaves m) \<and>
    fst_get (cm_leaves m ! i) s = Some b \<and> cm_verify H i b m"
  by (rule fs.coverage_honest [OF _ assms(4,5)]) (use fst_reached assms(1-3) in simp)

definition demo_ops :: "store_op list" where
  "demo_ops = [SPutMap demo_row, SPut (chunk_hash demo_hash [1, 2, 3]) [1, 2, 3]]"

lemma demo_ops_ok: "list_all (op_ok demo_hash) demo_ops"
  using cm_build_wf [OF demo_hash_length _ demo_build] demo_count
  by (simp add: demo_ops_def op_ok_def)

abbreviation demo_store :: fs_store where
  "demo_store \<equiv> fold (fst_exec demo_hash) demo_ops (fst_open [])"

lemma demo_store_reads:
  "fst_map demo_hash (cm_root demo_row) demo_store = Inr (Some demo_row) \<and>
   fst_get (cm_leaves demo_row ! 0) demo_store = Some [1, 2, 3]"
proof -
  define h where "h = chunk_hash demo_hash [1, 2, 3]"
  define s1 where "s1 = fst_put_map demo_row (fst_open [])"
  have wf: "cm_wf demo_hash demo_row" using demo_ops_ok by (simp add: demo_ops_def op_ok_def)
  note row = fs.put_row_stored [OF fst_open_inv [OF demo_hash_length] wf, folded s1_def]
  have "fst_put demo_hash h [1, 2, 3] s1 \<noteq> Inl e" for e
    by (simp add: fs.put_refused h_def)
  then obtain s2 where s2: "fst_put demo_hash h [1, 2, 3] s1 = Inr s2"
    by (cases "fst_put demo_hash h [1, 2, 3] s1") auto
  have "demo_store = s2"
    using s2 by (simp add: demo_ops_def fst_exec_def s1_def h_def)
  moreover have "cm_leaves demo_row ! 0 = h" by (simp add: demo_row_def h_def)
  ultimately show ?thesis using fs.put_stored [OF conjunct1 [OF row] s2] row by simp
qed

lemma demo_store_coverage:
  "\<exists>c. fst_coverage demo_hash (cm_root demo_row) demo_store = Inr c \<and> 0 \<in> cov_set c"
proof -
  have inv: "fst_inv demo_hash demo_store" by (rule fst_reached [OF demo_hash_length demo_ops_ok])
  obtain c where c: "fst_coverage demo_hash (cm_root demo_row) demo_store = Inr c"
    using fs.coverage_row [OF inv] demo_store_reads by blast
  then have "0 \<in> cov_set c"
    using fs.coverage_set [OF inv _ c] demo_store_reads by (simp add: demo_row_def)
  then show ?thesis using c by blast
qed

theorem fs_store_honest_witness:
  "\<exists>m b. fst_map demo_hash (cm_root demo_row) demo_store = Inr (Some m) \<and>
     cm_root m = cm_root demo_row \<and> 0 < length (cm_leaves m) \<and>
     fst_get (cm_leaves m ! 0) demo_store = Some b \<and> cm_verify demo_hash 0 b m"
  using demo_store_coverage fs_store_honest [OF demo_hash_length demo_ops_ok refl] by blast



text \<open>A reclamation pass (start, mark some files, sweep) keeps exactly the chunks of the rows
  marked: they are served as before, every other chunk is gone, shared chunks staying with any
  marked file that has them.\<close>

theorem fs_store_reclaims:
  assumes "\<forall>x. length (H x) = 32" "list_all (op_ok H) ops"
    and "s = fold (fst_exec H) ops (fst_open [])"
    and "\<forall>r \<in> set rs. \<exists>m. fst_map H r s = Inr (Some m)"
  shows "fst_get h (fold (fst_exec H) (SStartMarking # map SMark rs @ [SSweep]) s) =
    (if \<exists>r m. r \<in> set rs \<and> fst_map H r s = Inr (Some m) \<and> h \<in> set (cm_leaves m)
     then fst_get h s else None)"
proof -
  have inv: "fst_inv H s" using fst_reached assms by blast
  then have "fs.mark_all H rs (fst_start_marking s) =
      Inr (fold (fst_exec H) (map SMark rs) (fst_start_marking s))"
    using fs.start_clears [OF inv] assms(4) by (intro fst_marks_run) auto
  from fs.reclaim [OF inv this] show ?thesis by (simp add: fst_exec_def)
qed

theorem fs_store_reclaims_witness:
  "fst_get (cm_leaves demo_row ! 0)
     (fold (fst_exec demo_hash) (SStartMarking # map SMark [cm_root demo_row] @ [SSweep]) demo_store) =
     Some [1, 2, 3] \<and>
   fst_get (cm_leaves demo_row ! 0)
     (fold (fst_exec demo_hash) (SStartMarking # map SMark [] @ [SSweep]) demo_store) = None"
proof -
  have leaf: "cm_leaves demo_row ! 0 \<in> set (cm_leaves demo_row)" by (simp add: demo_row_def)
  show ?thesis
    using fs_store_reclaims [OF demo_hash_length demo_ops_ok refl, of "[cm_root demo_row]" "cm_leaves demo_row ! 0"]
      fs_store_reclaims [OF demo_hash_length demo_ops_ok refl, of "[]" "cm_leaves demo_row ! 0"]
      demo_store_reads leaf by simp
qed

text \<open>What the store writes it reads back: a leaf row, and the table of bindings whatever bytes
  its keys are made of (tabs, newlines and backslashes are escaped).\<close>

theorem store_files_round_trip:
  assumes "cm_wf H m" "list_all entry_ok binds" "distinct (map fst binds)"
  shows "decode_map H (encode_map m) = Inr m \<and>
    map_of (load_binds (Some (bind_text binds))) = map_of binds"
  using decode_encode [OF assms(1)] load_bind_text_map [OF assms(2,3)] by blast

theorem store_files_round_trip_witness:
  "decode_map demo_hash (encode_map demo_row) = Inr demo_row \<and>
   map_of (load_binds (Some (bind_text
     [([9, 92, 10, 116], 5, - 3, Root (replicate 32 1)), ([], 0, 0, Root (replicate 32 2))]))) =
   map_of [([9, 92, 10, 116], 5, - 3, Root (replicate 32 1)), ([], 0, 0, Root (replicate 32 2))]"
proof (rule store_files_round_trip)
  show "cm_wf demo_hash demo_row" using demo_ops_ok by (simp add: demo_ops_def op_ok_def)
qed (simp_all add: entry_ok_def)

text \<open>A row on disk is not checked against the name it is stored under.\<close>

lemma fs_row_impersonates:
  assumes "cm_wf H m"
  shows "fst_map H r (s\<lparr>fst_disk := AList.update (map_path r) (encode_map m) (fst_disk s)\<rparr>) =
    Inr (Some m)"
  using decode_encode [OF assms] by (simp add: fst_map_def map_of_update)

end
