(* ===== verification/FsOrigin.thy ===== *)
theory FsOrigin
  imports FsStore
begin

text \<open>
  The source that serves a user's files in place (\<open>FsOrigin\<close> of \<open>fofoca-chunks/src/fs.rs\<close>). The
  file system is an argument of every operation that looks at it, so a property can let it change
  between two calls: a function from a path to the content and modification time of the file
  there. An error of the disk while a file that exists is read is not modelled, other than a file
  that is shorter than it should be (\<open>read_exact\<close>).
\<close>

record file_entry =
  fe_content :: bytes
  fe_mtime :: int

type_synonym file_system = "file_path \<Rightarrow> file_entry option"

datatype origin_error = NoSuchFile | FileChanged nat nat | UnexpectedEof

subsection \<open>Operations\<close>

record borrowed =
  bo_path :: file_path
  bo_file :: file_id
  bo_map :: chunk_map

record fs_origin =
  fo_files :: "(root \<times> borrowed) list"
  fo_locations :: "(chunk_address \<times> root \<times> nat) list"
  fo_binds :: bind_table

definition fo_new :: fs_origin where
  "fo_new = \<lparr>fo_files = [], fo_locations = [], fo_binds = []\<rparr>"

text \<open>The read loop of \<open>adopt\<close>: buffers filled to 64 KiB or the end of the file, until an empty or
  a short one. \<open>None\<close> is the panic of the builder.\<close>

function adopt_read :: "(bytes \<Rightarrow> bytes) \<Rightarrow> bytes \<Rightarrow> chunk_map_builder \<Rightarrow> chunk_map_builder option" where
  "adopt_read H rest b =
     (let filled = take CHUNK_BYTES rest in
      if length filled = 0 then Some b
      else case cb_push H filled b of
             None \<Rightarrow> None
           | Some b' \<Rightarrow> if length filled < CHUNK_BYTES then Some b'
                       else adopt_read H (drop CHUNK_BYTES rest) b')"
  by pat_completeness auto
termination
  by (relation "measure (\<lambda>(H, rest, b). length rest)") (auto simp: CHUNK_BYTES_def)

declare adopt_read.simps [simp del]

definition add_location :: "root \<Rightarrow> nat \<times> chunk_address \<Rightarrow> (chunk_address \<times> root \<times> nat) list \<Rightarrow>
    (chunk_address \<times> root \<times> nat) list" where
  "add_location r il locs =
     (case map_of locs (snd il) of
        None \<Rightarrow> AList.update (snd il) (r, fst il) locs
      | Some _ \<Rightarrow> locs)"

definition fo_adopt :: "(bytes \<Rightarrow> bytes) \<Rightarrow> file_system \<Rightarrow> file_id \<Rightarrow> file_path \<Rightarrow> fs_origin \<Rightarrow>
    ((origin_error + root) \<times> fs_origin) option" where
  "fo_adopt H fs file p o0 =
     (case fs p of
        None \<Rightarrow> Some (Inl NoSuchFile, o0)
      | Some e \<Rightarrow>
          (case adopt_read H (fe_content e) cb_new of
             None \<Rightarrow> None
           | Some b \<Rightarrow>
               let m = cb_finish H b in
               if cm_size m \<noteq> fi_size file then Some (Inl (FileChanged (cm_size m) (fi_size file)), o0)
               else let r = cm_root m in
                 Some (Inr r, o0\<lparr>
                   fo_locations := fold (add_location r) (enumerate 0 (cm_leaves m)) (fo_locations o0),
                   fo_files := AList.update r \<lparr>bo_path = p, bo_file = file, bo_map = m\<rparr> (fo_files o0),
                   fo_binds := AList.update (fi_key file) (fi_size file, fi_mtime file, r) (fo_binds o0)\<rparr>)))"

definition fo_forget :: "root \<Rightarrow> fs_origin \<Rightarrow> fs_origin" where
  "fo_forget r o0 = o0\<lparr>
     fo_files := AList.delete r (fo_files o0),
     fo_locations := filter (\<lambda>(_, owner, _). owner \<noteq> r) (fo_locations o0)\<rparr>"

text \<open>Seconds since 1970; a time before that or too large counts as 0.\<close>

definition mtime_secs :: "int \<Rightarrow> int" where
  "mtime_secs t = (if 0 \<le> t \<and> t < 2 ^ 63 then t else 0)"

definition still_current :: "file_system \<Rightarrow> borrowed \<Rightarrow> bool" where
  "still_current fs b =
     (case fs (bo_path b) of
        None \<Rightarrow> False
      | Some e \<Rightarrow> length (fe_content e) = fi_size (bo_file b) \<and>
          (fi_mtime (bo_file b) = 0 \<or> mtime_secs (fe_mtime e) = fi_mtime (bo_file b)))"

definition fo_borrowed :: "root \<Rightarrow> fs_origin \<Rightarrow> borrowed option" where
  "fo_borrowed r o0 = map_of (fo_files o0) r"

text \<open>The file can change between the check and the read: \<open>fs\<close> is what the check sees, \<open>fs'\<close> what
  the read does.\<close>

definition fo_get :: "(bytes \<Rightarrow> bytes) \<Rightarrow> file_system \<Rightarrow> file_system \<Rightarrow> chunk_address \<Rightarrow> fs_origin \<Rightarrow>
    origin_error + bytes option" where
  "fo_get H fs fs' h o0 =
     (case map_of (fo_locations o0) h of
        None \<Rightarrow> Inr None
      | Some (r, index) \<Rightarrow>
          (case fo_borrowed r o0 of
             None \<Rightarrow> Inr None
           | Some b \<Rightarrow>
               if \<not> still_current fs b then Inr None
               else let (start, stop) = cm_range_of index (bo_map b) in
                 case fs' (bo_path b) of
                   None \<Rightarrow> Inl NoSuchFile
                 | Some e \<Rightarrow>
                     let bytes = take (stop - start) (drop start (fe_content e)) in
                     if length bytes < stop - start then Inl UnexpectedEof
                     else if chunk_hash H bytes \<noteq> h then Inr None
                     else Inr (Some bytes)))"

definition fo_has :: "(bytes \<Rightarrow> bytes) \<Rightarrow> file_system \<Rightarrow> file_system \<Rightarrow> chunk_address \<Rightarrow> fs_origin \<Rightarrow>
    origin_error + bool" where
  "fo_has H fs fs' h o0 =
     (case fo_get H fs fs' h o0 of Inl e \<Rightarrow> Inl e | Inr x \<Rightarrow> Inr (x \<noteq> None))"

definition fo_map :: "root \<Rightarrow> fs_origin \<Rightarrow> chunk_map option" where
  "fo_map r o0 = map_option bo_map (fo_borrowed r o0)"

definition fo_coverage :: "file_system \<Rightarrow> root \<Rightarrow> fs_origin \<Rightarrow> coverage" where
  "fo_coverage fs r o0 =
     (case fo_borrowed r o0 of
        None \<Rightarrow> cov_empty 0
      | Some b \<Rightarrow>
          if still_current fs b then cov_complete (length (cm_leaves (bo_map b)))
          else cov_empty (length (cm_leaves (bo_map b))))"

definition fo_bind :: "file_id \<Rightarrow> fs_origin \<Rightarrow> root option" where
  "fo_bind file o0 = bind_gate (fo_binds o0) file"

subsection \<open>Adopting a file\<close>

text \<open>The streaming loop builds the row of the whole file.\<close>

lemma adopt_read_chunks:
  "adopt_read H rest b = cb_push_all H (chunks_of CHUNK_BYTES rest) b"
proof (induction H rest b rule: adopt_read.induct)
  case (1 H rest b)
  show ?case
  proof (cases "rest = []")
    case True
    then show ?thesis by (subst adopt_read.simps, subst chunks_of.simps) simp
  next
    case False
    have pos: "0 < CHUNK_BYTES" by (simp add: CHUNK_BYTES_def)
    have cs: "chunks_of CHUNK_BYTES rest = take CHUNK_BYTES rest # chunks_of CHUNK_BYTES (drop CHUNK_BYTES rest)"
      using False pos by (subst chunks_of.simps) simp
    show ?thesis
    proof (cases "cb_push H (take CHUNK_BYTES rest) b")
      case None
      then show ?thesis using False pos by (subst adopt_read.simps) (simp add: cs Let_def)
    next
      case (Some b')
      show ?thesis
      proof (cases "length rest < CHUNK_BYTES")
        case True
        then have "chunks_of CHUNK_BYTES (drop CHUNK_BYTES rest) = []" by (subst chunks_of.simps) simp
        then show ?thesis using Some False True pos
          by (subst adopt_read.simps) (simp add: cs Let_def)
      next
        case long: False
        then have "adopt_read H (drop CHUNK_BYTES rest) b' =
            cb_push_all H (chunks_of CHUNK_BYTES (drop CHUNK_BYTES rest)) b'"
          using 1 [OF refl _ Some] False pos by simp
        then show ?thesis using Some False long pos
          by (subst adopt_read.simps) (simp add: cs Let_def min_absorb2)
      qed
    qed
  qed
qed

lemma adopt_read_build:
  "map_option (cb_finish H) (adopt_read H bs cb_new) = cm_build H bs"
  by (simp add: adopt_read_chunks cm_build_def)

lemma add_locations_map:
  "map_of (fold (add_location r) ils locs) h =
     (case map_of locs h of
        Some x \<Rightarrow> Some x
      | None \<Rightarrow> map_option (\<lambda>il. (r, fst il)) (find (\<lambda>il. snd il = h) ils))"
  by (induction ils arbitrary: locs) (auto simp: add_location_def map_of_update split: option.splits)


text \<open>The row \<open>adopt\<close> computes for the file at a path, and when the file is as described.\<close>

definition file_row :: "(bytes \<Rightarrow> bytes) \<Rightarrow> file_system \<Rightarrow> file_path \<Rightarrow> chunk_map option" where
  "file_row H fs p = (case fs p of None \<Rightarrow> None | Some e \<Rightarrow> cm_build H (fe_content e))"

lemma fo_adopt_eq:
  "fo_adopt H fs file p o0 =
     (case fs p of
        None \<Rightarrow> Some (Inl NoSuchFile, o0)
      | Some e \<Rightarrow>
          (case cm_build H (fe_content e) of
             None \<Rightarrow> None
           | Some m \<Rightarrow>
               if cm_size m \<noteq> fi_size file then Some (Inl (FileChanged (cm_size m) (fi_size file)), o0)
               else Some (Inr (cm_root m), o0\<lparr>
                   fo_locations := fold (add_location (cm_root m)) (enumerate 0 (cm_leaves m)) (fo_locations o0),
                   fo_files := AList.update (cm_root m) \<lparr>bo_path = p, bo_file = file, bo_map = m\<rparr> (fo_files o0),
                   fo_binds := AList.update (fi_key file) (fi_size file, fi_mtime file, cm_root m) (fo_binds o0)\<rparr>)))"
  unfolding fo_adopt_def adopt_read_build [symmetric] Let_def
  by (auto split: option.splits)

definition fo_good :: "(bytes \<Rightarrow> bytes) \<Rightarrow> file_system \<Rightarrow> file_path set \<Rightarrow> fs_origin \<Rightarrow> bool" where
  "fo_good H fs P o0 \<longleftrightarrow>
     (\<forall>r b. map_of (fo_files o0) r = Some b \<longrightarrow> bo_path b \<in> P \<and>
        file_row H fs (bo_path b) = Some (bo_map b) \<and> cm_root (bo_map b) = r \<and> still_current fs b) \<and>
     (\<forall>h r i. map_of (fo_locations o0) h = Some (r, i) \<longrightarrow>
        (\<exists>b. map_of (fo_files o0) r = Some b \<and> i < length (cm_leaves (bo_map b)) \<and>
          cm_leaves (bo_map b) ! i = h)) \<and>
     (\<forall>r b i. map_of (fo_files o0) r = Some b \<longrightarrow> i < length (cm_leaves (bo_map b)) \<longrightarrow>
        map_of (fo_locations o0) (cm_leaves (bo_map b) ! i) \<noteq> None)"

definition described :: "file_system \<Rightarrow> file_id \<Rightarrow> file_path \<Rightarrow> bool" where
  "described fs file p \<longleftrightarrow>
     (\<forall>e. fs p = Some e \<longrightarrow> fi_mtime file = 0 \<or> mtime_secs (fe_mtime e) = fi_mtime file)"

definition roots_apart :: "(bytes \<Rightarrow> bytes) \<Rightarrow> file_system \<Rightarrow> file_path set \<Rightarrow> bool" where
  "roots_apart H fs P \<longleftrightarrow>
     (\<forall>p \<in> P. \<forall>q \<in> P. \<forall>m m'. file_row H fs p = Some m \<longrightarrow> file_row H fs q = Some m' \<longrightarrow>
        cm_root m = cm_root m' \<longrightarrow> m = m')"

lemma find_enumerate:
  "i < length xs \<Longrightarrow> \<exists>j < length xs. find (\<lambda>il. snd il = xs ! i) (enumerate 0 xs) = Some (j, xs ! j) \<and>
     xs ! j = xs ! i"
proof -
  assume i: "i < length xs"
  then have "(i, xs ! i) \<in> set (enumerate 0 xs)" by (simp add: in_set_enumerate_eq)
  then have "find (\<lambda>il. snd il = xs ! i) (enumerate 0 xs) \<noteq> None" by (auto simp: find_None_iff)
  then obtain jx where "find (\<lambda>il. snd il = xs ! i) (enumerate 0 xs) = Some jx" by blast
  moreover from this have "jx \<in> set (enumerate 0 xs)" "snd jx = xs ! i"
    by (auto simp: find_Some_iff)
  ultimately show ?thesis by (cases jx) (auto simp: in_set_enumerate_eq)
qed

lemma find_enumerate_some:
  "find (\<lambda>il. snd il = h) (enumerate 0 xs) = Some (j, x) \<Longrightarrow> j < length xs \<and> xs ! j = h \<and> x = h"
proof -
  assume "find (\<lambda>il. snd il = h) (enumerate 0 xs) = Some (j, x)"
  then obtain i where "i < length (enumerate 0 xs)" "snd (enumerate 0 xs ! i) = h"
    "(j, x) = enumerate 0 xs ! i"
    unfolding find_Some_iff by blast
  then have "(j, x) \<in> set (enumerate 0 xs)" "x = h" by (metis nth_mem, metis snd_conv)
  then show ?thesis by (auto simp: in_set_enumerate_eq)
qed


lemma fo_adopt_good:
  assumes good: "fo_good H fs P o0" and apart: "roots_apart H fs P" and p: "p \<in> P"
    and desc: "described fs file p" and small: "\<And>e. fs p = Some e \<Longrightarrow> length (fe_content e) \<le> u64_max"
    and run: "fo_adopt H fs file p o0 = Some (res, o1)"
  shows "fo_good H fs P o1"
proof (cases "o1 = o0")
  case False
  then obtain e m where e: "fs p = Some e" and m: "cm_build H (fe_content e) = Some m"
    and size: "cm_size m = fi_size file"
    and o1: "o1 = o0\<lparr>fo_locations := fold (add_location (cm_root m)) (enumerate 0 (cm_leaves m)) (fo_locations o0),
       fo_files := AList.update (cm_root m) \<lparr>bo_path = p, bo_file = file, bo_map = m\<rparr> (fo_files o0),
       fo_binds := AList.update (fi_key file) (fi_size file, fi_mtime file, cm_root m) (fo_binds o0)\<rparr>"
    using run unfolding fo_adopt_eq by (auto split: option.splits if_splits)
  let ?b = "\<lparr>bo_path = p, bo_file = file, bo_map = m\<rparr>"
  have row: "file_row H fs p = Some m" using e m by (simp add: file_row_def)
  have files: "map_of (fo_files o1) r = (if r = cm_root m then Some ?b else map_of (fo_files o0) r)" for r
    by (simp add: o1 map_of_update)
  have locs: "map_of (fo_locations o1) h = (case map_of (fo_locations o0) h of Some x \<Rightarrow> Some x
      | None \<Rightarrow> map_option (\<lambda>il. (cm_root m, fst il)) (find (\<lambda>il. snd il = h) (enumerate 0 (cm_leaves m))))" for h
    by (simp add: o1 add_locations_map)
  have same: "bo_map b = m" if "map_of (fo_files o0) (cm_root m) = Some b" for b
    using good apart that p row unfolding fo_good_def roots_apart_def by metis
  have cur: "still_current fs ?b"
    using desc e m size cm_build_spec(1) [OF small [OF e] m]
    by (simp add: still_current_def described_def)
  have 1: "bo_path b \<in> P \<and> file_row H fs (bo_path b) = Some (bo_map b) \<and> cm_root (bo_map b) = r \<and>
      still_current fs b" if "map_of (fo_files o1) r = Some b" for r b
    using that good cur row p unfolding fo_good_def files by (auto split: if_splits)
  have 2: "\<exists>b. map_of (fo_files o1) r = Some b \<and> i < length (cm_leaves (bo_map b)) \<and>
      cm_leaves (bo_map b) ! i = h" if "map_of (fo_locations o1) h = Some (r, i)" for h r i
  proof (cases "map_of (fo_locations o0) h")
    case None
    then have "r = cm_root m" "i < length (cm_leaves m)" "cm_leaves m ! i = h"
      using that find_enumerate_some unfolding locs by fastforce+
    then show ?thesis by (simp add: files)
  next
    case (Some x)
    then have "map_of (fo_locations o0) h = Some (r, i)" using that by (simp add: locs)
    then obtain b where "map_of (fo_files o0) r = Some b" "i < length (cm_leaves (bo_map b))"
      "cm_leaves (bo_map b) ! i = h"
      using good unfolding fo_good_def by blast
    then show ?thesis using same by (auto simp: files)
  qed
  have 3: "map_of (fo_locations o1) (cm_leaves (bo_map b) ! i) \<noteq> None"
    if b: "map_of (fo_files o1) r = Some b" and i: "i < length (cm_leaves (bo_map b))" for r b i
  proof (cases "r = cm_root m")
    case True
    then have "bo_map b = m" using b by (auto simp: files)
    then show ?thesis using i find_enumerate [of i "cm_leaves m"] by (auto simp: locs split: option.splits)
  next
    case False
    then have "map_of (fo_locations o0) (cm_leaves (bo_map b) ! i) \<noteq> None"
      using good b i unfolding fo_good_def files by simp
    then show ?thesis by (auto simp: locs)
  qed
  show ?thesis unfolding fo_good_def using 1 2 3 by blast
qed (use good in simp)

text \<open>Adopting one file after the other; a file that cannot be adopted is left out.\<close>

fun fo_adopt_all :: "(bytes \<Rightarrow> bytes) \<Rightarrow> file_system \<Rightarrow> (file_id \<times> file_path) list \<Rightarrow> fs_origin \<Rightarrow>
    fs_origin option" where
  "fo_adopt_all H fs [] o0 = Some o0"
| "fo_adopt_all H fs ((file, p) # fps) o0 =
     (case fo_adopt H fs file p o0 of
        None \<Rightarrow> None
      | Some (_, o1) \<Rightarrow> fo_adopt_all H fs fps o1)"

lemma fo_adopt_all_good:
  "fo_good H fs P o0 \<Longrightarrow> roots_apart H fs P \<Longrightarrow>
   \<forall>(file, p) \<in> set fps. p \<in> P \<and> described fs file p \<and>
     (\<forall>e. fs p = Some e \<longrightarrow> length (fe_content e) \<le> u64_max) \<Longrightarrow>
   \<exists>o1. fo_adopt_all H fs fps o0 = Some o1 \<and> fo_good H fs P o1"
proof (induction fps arbitrary: o0)
  case (Cons fp fps)
  obtain fid p where fp: "fp = (fid, p)" by (cases fp)
  have "fo_adopt H fs fid p o0 \<noteq> None"
    by (simp add: fo_adopt_eq cm_build_eq split: option.split)
  then obtain x where "fo_adopt H fs fid p o0 = Some x" by blast
  then obtain res o1 where run: "fo_adopt H fs fid p o0 = Some (res, o1)" by (cases x) simp
  have "fo_good H fs P o1"
    by (rule fo_adopt_good [OF Cons.prems(1,2) _ _ _ run]) (use Cons.prems(3) fp in auto)
  then show ?case using Cons.IH [OF _ Cons.prems(2)] Cons.prems(3) run fp by simp
qed simp

lemma fo_good_get:
  assumes good: "fo_good H fs P o0" and m: "fo_map r o0 = Some m" and i: "i < length (cm_leaves m)"
    and small: "\<And>p e. p \<in> P \<Longrightarrow> fs p = Some e \<Longrightarrow> length (fe_content e) \<le> u64_max"
  shows "\<exists>bs. fo_get H fs fs (cm_leaves m ! i) o0 = Inr (Some bs) \<and> cm_verify H i bs m"
proof -
  let ?h = "cm_leaves m ! i"
  obtain b where b: "map_of (fo_files o0) r = Some b" "bo_map b = m"
    using m by (auto simp: fo_map_def fo_borrowed_def)
  then obtain q j where loc: "map_of (fo_locations o0) ?h = Some (q, j)"
    using good i unfolding fo_good_def by fastforce
  then obtain c where c: "map_of (fo_files o0) q = Some c" "j < length (cm_leaves (bo_map c))"
    "cm_leaves (bo_map c) ! j = ?h"
    using good unfolding fo_good_def by blast
  then have P: "bo_path c \<in> P" and row: "file_row H fs (bo_path c) = Some (bo_map c)"
    and cur: "still_current fs c"
    using good unfolding fo_good_def by blast+
  then obtain e where e: "fs (bo_path c) = Some e" and build: "cm_build H (fe_content e) = Some (bo_map c)"
    by (auto simp: file_row_def split: option.splits)
  note spec = cm_build_spec [OF small [OF P e] build]
  define bs where "bs = slice (cm_range_of j (bo_map c)) (fe_content e)"
  obtain start stop where range: "cm_range_of j (bo_map c) = (start, stop)" by (cases "cm_range_of j (bo_map c)")
  have bounds: "start \<le> stop" "stop \<le> length (fe_content e)"
    using range cm_range_of_eq [of "bo_map c" j] spec(1) small [OF P e] by auto
  have "cm_verify H j bs (bo_map c)" using spec(2,4) c(2) by (simp add: bs_def)
  then have hash: "chunk_hash H bs = ?h" using c(3) by (simp add: cm_verify_def)
  have "bs = take (stop - start) (drop start (fe_content e))"
    using bounds by (simp add: bs_def range slice_def)
  moreover have "length bs = stop - start" using bounds calculation by simp
  ultimately have "fo_get H fs fs ?h o0 = Inr (Some bs)"
    using loc c(1) cur e hash by (simp add: fo_get_def fo_borrowed_def range)
  then show ?thesis using hash i by (auto simp: cm_verify_def)
qed


subsection \<open>Properties\<close>

text \<open>An origin serves what it adopted: when the files are as described and stay so, adopting
  any list of them never fails hard, and then every chunk of every row the origin knows is served
  and verifies, also when files share chunks; their coverage is complete.\<close>

theorem fo_serves_adopted:
  assumes "roots_apart H fs (snd ` set fps)"
    and "\<forall>(fid, p) \<in> set fps. described fs fid p \<and> (\<forall>e. fs p = Some e \<longrightarrow> length (fe_content e) \<le> u64_max)"
    and "fo_adopt_all H fs fps fo_new = res"
  shows "\<exists>o1. res = Some o1 \<and> (\<forall>r m. fo_map r o1 = Some m \<longrightarrow>
    fo_coverage fs r o1 = cov_complete (length (cm_leaves m)) \<and>
    (\<forall>i < length (cm_leaves m). \<exists>bs. fo_get H fs fs (cm_leaves m ! i) o1 = Inr (Some bs) \<and>
       cm_verify H i bs m))"
proof -
  have "fo_good H fs (snd ` set fps) fo_new" by (simp add: fo_good_def fo_new_def)
  moreover have "\<forall>(fid, p) \<in> set fps. p \<in> snd ` set fps \<and> described fs fid p \<and>
      (\<forall>e. fs p = Some e \<longrightarrow> length (fe_content e) \<le> u64_max)"
    using assms(2) by force
  ultimately obtain o1 where o1: "fo_adopt_all H fs fps fo_new = Some o1" "fo_good H fs (snd ` set fps) o1"
    using fo_adopt_all_good [OF _ assms(1)] by blast
  have "fo_coverage fs r o1 = cov_complete (length (cm_leaves m))" if "fo_map r o1 = Some m" for r m
    using that o1(2) by (auto simp: fo_map_def fo_coverage_def fo_good_def fo_borrowed_def)
  moreover have "\<exists>bs. fo_get H fs fs (cm_leaves m ! i) o1 = Inr (Some bs) \<and> cm_verify H i bs m"
    if "fo_map r o1 = Some m" "i < length (cm_leaves m)" for r m i
    by (rule fo_good_get [OF o1(2) that]) (use assms(2) in force)
  ultimately show ?thesis using o1(1) assms(3) by blast
qed

definition demo_fs :: file_system where
  "demo_fs p = (if p = [[1]] then Some \<lparr>fe_content = [1, 2, 3], fe_mtime = 5\<rparr> else None)"

definition demo_file :: file_id where
  "demo_file = \<lparr>fi_key = [7], fi_size = 3, fi_mtime = 5\<rparr>"

lemma demo_adopted:
  "\<exists>o1. fo_adopt_all demo_hash demo_fs [(demo_file, [[1]])] fo_new = Some o1 \<and>
     fo_map (cm_root demo_row) o1 = Some demo_row"
  by (simp add: fo_adopt_eq demo_fs_def demo_build demo_file_def fo_new_def fo_map_def fo_borrowed_def)
    (simp add: demo_row_def)

theorem fo_serves_adopted_witness:
  "\<exists>o1 bs. fo_adopt_all demo_hash demo_fs [(demo_file, [[1]])] fo_new = Some o1 \<and>
     fo_get demo_hash demo_fs demo_fs (cm_leaves demo_row ! 0) o1 = Inr (Some bs) \<and>
     cm_verify demo_hash 0 bs demo_row"
proof -
  have "roots_apart demo_hash demo_fs (snd ` set [(demo_file, [[1]])])"
    by (simp add: roots_apart_def)
  moreover have "\<forall>(fid, p) \<in> set [(demo_file, [[1]])]. described demo_fs fid p \<and>
      (\<forall>e. demo_fs p = Some e \<longrightarrow> length (fe_content e) \<le> u64_max)"
    by (simp add: described_def demo_fs_def demo_file_def mtime_secs_def u64_max_def)
  moreover have "0 < length (cm_leaves demo_row)" by (simp add: demo_row_def)
  ultimately show ?thesis
    using fo_serves_adopted [of demo_hash demo_fs "[(demo_file, [[1]])]"] demo_adopted by fastforce
qed

lemma add_locations_distinct:
  "distinct (map fst locs) \<Longrightarrow> distinct (map fst (fold (add_location r) ils locs))"
  by (induction ils arbitrary: locs) (auto simp: add_location_def distinct_update split: option.splits)

lemma forgotten_location:
  assumes "distinct (map fst locs)" "map_of locs h = Some (r, j)"
  shows "map_of (filter (\<lambda>(_, owner, _). owner \<noteq> r) locs) h = None"
proof (rule ccontr)
  assume "\<not> ?thesis"
  then obtain q k where "map_of (filter (\<lambda>(_, owner, _). owner \<noteq> r) locs) h = Some (q, k)" by auto
  from map_of_SomeD [OF this] have "(h, q, k) \<in> set locs" "q \<noteq> r" by auto
  then show False using map_of_is_SomeI [OF assms(1)] assms(2) by fastforce
qed

text \<open>C37: Of two files that share a chunk only the one adopted first is asked for it. When that
  file goes away, the chunk is not served any more, although the other file still has it, is still
  what it was, and its coverage still claims every chunk; forgetting the first file has the same
  effect.\<close>

theorem fo_shared_chunk_lost:
  assumes "fo_adopt H fs fid p fo_new = Some (Inr ra, o1)"
    and "fo_adopt H fs fid' p' o1 = Some (Inr rb, o2)"
    and "ra \<noteq> rb" "fo_map ra o2 = Some ma" "fo_map rb o2 = Some mb"
    and "h \<in> set (cm_leaves ma)" "h \<in> set (cm_leaves mb)"
    and "fs' p = None" "fs' p' = fs p'" "described fs fid' p'"
    and "\<And>e. fs p' = Some e \<Longrightarrow> length (fe_content e) \<le> u64_max"
  shows "fo_coverage fs' rb o2 = cov_complete (length (cm_leaves mb)) \<and>
    fo_get H fs' fs' h o2 = Inr None \<and>
    fo_coverage fs rb (fo_forget ra o2) = cov_complete (length (cm_leaves mb)) \<and>
    fo_get H fs fs h (fo_forget ra o2) = Inr None"
proof -
  obtain e m where e: "fs p = Some e" and m: "cm_build H (fe_content e) = Some m"
    and ra: "ra = cm_root m" and o1: "fo_files o1 = [(ra, \<lparr>bo_path = p, bo_file = fid, bo_map = m\<rparr>)]"
    "fo_locations o1 = fold (add_location ra) (enumerate 0 (cm_leaves m)) []"
    using assms(1) unfolding fo_adopt_eq fo_new_def by (auto split: option.splits if_splits)
  obtain e' m' where e': "fs p' = Some e'" and m': "cm_build H (fe_content e') = Some m'"
    and size: "cm_size m' = fi_size fid'" and rb: "rb = cm_root m'"
    and o2: "fo_files o2 = AList.update rb \<lparr>bo_path = p', bo_file = fid', bo_map = m'\<rparr> (fo_files o1)"
    "fo_locations o2 = fold (add_location rb) (enumerate 0 (cm_leaves m')) (fo_locations o1)"
    using assms(2) unfolding fo_adopt_eq by (auto split: option.splits if_splits)
  have files: "map_of (fo_files o2) ra = Some \<lparr>bo_path = p, bo_file = fid, bo_map = m\<rparr>"
    "map_of (fo_files o2) rb = Some \<lparr>bo_path = p', bo_file = fid', bo_map = m'\<rparr>"
    using assms(3) by (simp_all add: o1 o2 map_of_update)
  then have ma: "ma = m" and mb: "mb = m'" using assms(4,5) by (simp_all add: fo_map_def fo_borrowed_def)
  obtain i where "i < length (cm_leaves m)" "cm_leaves m ! i = h"
    using assms(6) ma by (metis in_set_conv_nth)
  then obtain j where "map_of (fo_locations o1) h = Some (ra, j)"
    using find_enumerate [of i "cm_leaves m"] by (auto simp: o1 add_locations_map)
  then have loc: "map_of (fo_locations o2) h = Some (ra, j)" by (simp add: o2 add_locations_map)
  have cur: "still_current g \<lparr>bo_path = p', bo_file = fid', bo_map = m'\<rparr>" if "g p' = fs p'" for g
    using that e' size assms(10) cm_build_spec(1) [OF assms(11) [OF e'] m']
    by (simp add: still_current_def described_def)
  have "fo_get H fs' fs' h o2 = Inr None"
    using loc files assms(8) by (simp add: fo_get_def fo_borrowed_def still_current_def)
  moreover have "distinct (map fst (fo_locations o2))" by (simp add: o1 o2 add_locations_distinct)
  from forgotten_location [OF this loc]
  have "map_of (fo_locations (fo_forget ra o2)) h = None" by (simp add: fo_forget_def)
  moreover have "map_of (fo_files (fo_forget ra o2)) rb =
      Some \<lparr>bo_path = p', bo_file = fid', bo_map = m'\<rparr>"
    using files assms(3) by (simp add: fo_forget_def delete_conv')
  ultimately show ?thesis
    using files mb cur assms(9) by (simp add: fo_coverage_def fo_get_def fo_borrowed_def)
qed

text \<open>Two files that begin with the same chunk.\<close>

definition demo_shared_fs :: file_system where
  "demo_shared_fs p =
     (if p = [[1]] then Some \<lparr>fe_content = replicate CHUNK_BYTES 0, fe_mtime = 5\<rparr>
      else if p = [[2]] then Some \<lparr>fe_content = replicate CHUNK_BYTES 0 @ [1], fe_mtime = 5\<rparr>
      else None)"

definition shared_chunk :: chunk_address where
  "shared_chunk = chunk_hash demo_hash (replicate CHUNK_BYTES 0)"

lemma adopted_chunks_full:
  "length a = CHUNK_BYTES \<Longrightarrow> chunks_of CHUNK_BYTES (a @ bs) = a # chunks_of CHUNK_BYTES bs"
  by (subst chunks_of.simps) (auto simp: CHUNK_BYTES_def)

lemma adopted_chunks_nil: "chunks_of n [] = []"
  by (subst chunks_of.simps) simp

lemma adopted_chunks_short: "bs \<noteq> [] \<Longrightarrow> length bs \<le> CHUNK_BYTES \<Longrightarrow> chunks_of CHUNK_BYTES bs = [bs]"
  by (subst chunks_of.simps) (auto simp: CHUNK_BYTES_def adopted_chunks_nil)

lemma demo_shared_rows:
  "cm_build demo_hash (replicate CHUNK_BYTES 0) =
     Some \<lparr>cm_root = root_of demo_hash [shared_chunk] CHUNK_BYTES, cm_leaves = [shared_chunk],
       cm_size = CHUNK_BYTES\<rparr>"
  "cm_build demo_hash (replicate CHUNK_BYTES 0 @ [1]) =
     Some \<lparr>cm_root = root_of demo_hash [shared_chunk, chunk_hash demo_hash [1]] (Suc CHUNK_BYTES),
       cm_leaves = [shared_chunk, chunk_hash demo_hash [1]], cm_size = Suc CHUNK_BYTES\<rparr>"
proof -
  have pos: "1 \<le> CHUNK_BYTES" by (simp add: CHUNK_BYTES_def)
  then show "cm_build demo_hash (replicate CHUNK_BYTES 0) =
     Some \<lparr>cm_root = root_of demo_hash [shared_chunk] CHUNK_BYTES, cm_leaves = [shared_chunk],
       cm_size = CHUNK_BYTES\<rparr>"
    using adopted_chunks_full [of "replicate CHUNK_BYTES 0" "[]"]
    by (simp add: cm_build_eq shared_chunk_def adopted_chunks_nil)
  show "cm_build demo_hash (replicate CHUNK_BYTES 0 @ [1]) =
     Some \<lparr>cm_root = root_of demo_hash [shared_chunk, chunk_hash demo_hash [1]] (Suc CHUNK_BYTES),
       cm_leaves = [shared_chunk, chunk_hash demo_hash [1]], cm_size = Suc CHUNK_BYTES\<rparr>"
    using adopted_chunks_full [of "replicate CHUNK_BYTES 0" "[1]"] adopted_chunks_short [of "[1]"] pos
    by (simp add: cm_build_eq shared_chunk_def)
qed

lemma demo_roots_differ:
  "root_of demo_hash [shared_chunk] CHUNK_BYTES \<noteq>
   root_of demo_hash [shared_chunk, chunk_hash demo_hash [1]] (Suc CHUNK_BYTES)"
proof -
  have "take 29 (demo_hash (ROOT_CONTEXT @ le_bytes 8 n @ xs)) = ROOT_CONTEXT @ le_bytes 8 n" for n xs
    by (simp add: demo_hash_def ROOT_CONTEXT_def)
  moreover have "le_bytes 8 CHUNK_BYTES \<noteq> le_bytes 8 (Suc CHUNK_BYTES)"
  proof
    assume "le_bytes 8 CHUNK_BYTES = le_bytes 8 (Suc CHUNK_BYTES)"
    then have "le_nat (le_bytes 8 CHUNK_BYTES) = le_nat (le_bytes 8 (Suc CHUNK_BYTES))" by simp
    then show False by (simp add: le_nat_bytes CHUNK_BYTES_def)
  qed
  ultimately show ?thesis unfolding root_of_def by (metis root.inject same_append_eq)
qed

definition demo_id :: "nat \<Rightarrow> file_id" where
  "demo_id n = \<lparr>fi_key = [7], fi_size = n, fi_mtime = 0\<rparr>"

theorem fo_shared_chunk_lost_witness:
  "\<exists>o2 rb c. fo_coverage (demo_shared_fs([[1]] := None)) rb o2 = c \<and> cov_is_complete c \<and>
     cov_len c = 2 \<and>
     fo_get demo_hash (demo_shared_fs([[1]] := None)) (demo_shared_fs([[1]] := None)) shared_chunk o2 = Inr None"
proof -
  let ?ma = "\<lparr>cm_root = root_of demo_hash [shared_chunk] CHUNK_BYTES, cm_leaves = [shared_chunk],
       cm_size = CHUNK_BYTES\<rparr>"
  let ?mb = "\<lparr>cm_root = root_of demo_hash [shared_chunk, chunk_hash demo_hash [1]] (Suc CHUNK_BYTES),
       cm_leaves = [shared_chunk, chunk_hash demo_hash [1]], cm_size = Suc CHUNK_BYTES\<rparr>"
  have fs: "demo_shared_fs [[1]] = Some \<lparr>fe_content = replicate CHUNK_BYTES 0, fe_mtime = 5\<rparr>"
    "demo_shared_fs [[2]] = Some \<lparr>fe_content = replicate CHUNK_BYTES 0 @ [1], fe_mtime = 5\<rparr>"
    by (simp_all add: demo_shared_fs_def)
  obtain o1 where o1: "fo_adopt demo_hash demo_shared_fs (demo_id CHUNK_BYTES) [[1]] fo_new =
      Some (Inr (cm_root ?ma), o1)"
    "fo_files o1 = [(cm_root ?ma, \<lparr>bo_path = [[1]], bo_file = demo_id CHUNK_BYTES, bo_map = ?ma\<rparr>)]"
    by (simp add: fo_adopt_eq fs demo_shared_rows demo_id_def fo_new_def)
  obtain o2 where o2: "fo_adopt demo_hash demo_shared_fs (demo_id (Suc CHUNK_BYTES)) [[2]] o1 =
      Some (Inr (cm_root ?mb), o2)"
    "fo_files o2 = AList.update (cm_root ?mb)
       \<lparr>bo_path = [[2]], bo_file = demo_id (Suc CHUNK_BYTES), bo_map = ?mb\<rparr> (fo_files o1)"
    by (simp add: fo_adopt_eq fs demo_shared_rows demo_id_def)
  have lost: "fo_coverage (demo_shared_fs([[1]] := None)) (cm_root ?mb) o2 =
      cov_complete (length (cm_leaves ?mb)) \<and>
    fo_get demo_hash (demo_shared_fs([[1]] := None)) (demo_shared_fs([[1]] := None)) shared_chunk o2 = Inr None"
    using fo_shared_chunk_lost [OF o1(1) o2(1), of ?ma ?mb shared_chunk "demo_shared_fs([[1]] := None)"]
      demo_roots_differ
    by (simp add: fo_map_def fo_borrowed_def o1 o2 described_def demo_id_def fs map_of_update
        u64_max_def CHUNK_BYTES_def)
  have "cov_is_complete (cov_complete 2)" "cov_len (cov_complete 2) = 2" by code_simp+
  then show ?thesis using lost by (intro exI) (auto simp: numeral_2_eq_2)
qed

end
