(* ===== verification/Lobby.thy ===== *)
theory Lobby
  imports Prelude "HOL-Library.List_Lexorder"
begin

text \<open>
  Agreeing who plays, before a match starts (\<open>fofoca-netplay/src/mesh/lobby.rs\<close>). Public keys
  and nicknames are UTF-8 bytes, which Rust compares as the lexicographic order does; the
  \<open>BTreeMap\<close> of the peers present is an association list sorted by key. Epochs and match ids are
  64-bit words. JSON is the parameter \<open>decode\<close>.
\<close>

unbundle bit_operations_syntax

subsection \<open>State\<close>

datatype lobby_message =
    Present bytes
  | Start "64 word" "64 word" "bytes list"

datatype lobby_error = NotEnoughPlayers | DuplicateNickname bytes

record started_match =
  sm_epoch :: "64 word"
  sm_session_id :: "64 word"
  sm_players :: "bytes list"
  sm_local_handle :: nat

record presence =
  pr_nick :: bytes
  pr_last_seen :: nat

record lobby =
  lb_my_pubkey :: bytes
  lb_my_nick :: bytes
  lb_present :: "(bytes \<times> presence) list"
  lb_started :: "started_match option"
  lb_epoch :: "64 word"

subsection \<open>Operations\<close>

definition lb_new :: "bytes \<Rightarrow> bytes \<Rightarrow> lobby" where
  "lb_new my_pubkey my_nick =
     \<lparr>lb_my_pubkey = my_pubkey, lb_my_nick = my_nick,
      lb_present = [(my_pubkey, \<lparr>pr_nick = my_nick, pr_last_seen = 0\<rparr>)],
      lb_started = None, lb_epoch = 0\<rparr>"

definition lb_presence :: "lobby \<Rightarrow> lobby_message" where
  "lb_presence lb = Present (lb_my_nick lb)"

definition lb_roster :: "lobby \<Rightarrow> (bytes \<times> bytes) list" where
  "lb_roster lb = map (\<lambda>(pubkey, seen). (pubkey, pr_nick seen)) (lb_present lb)"

fun first_duplicate :: "bytes set \<Rightarrow> bytes list \<Rightarrow> bytes option" where
  "first_duplicate seen [] = None"
| "first_duplicate seen (n # ns) =
     (if n \<in> seen then Some n else first_duplicate (insert n seen) ns)"

definition lb_blocker :: "lobby \<Rightarrow> lobby_error option" where
  "lb_blocker lb =
     (if length (lb_present lb) < 2 then None
      else map_option DuplicateNickname (first_duplicate {} (map (pr_nick \<circ> snd) (lb_present lb))))"

text \<open>Subtraction of natural numbers saturates, as \<open>saturating_sub\<close> does.\<close>

definition lb_expire :: "nat \<Rightarrow> nat \<Rightarrow> lobby \<Rightarrow> lobby" where
  "lb_expire now ttl lb =
     lb\<lparr>lb_present := filter (\<lambda>(pubkey, seen). pubkey = lb_my_pubkey lb \<or> now - pr_last_seen seen \<le> ttl)
          (lb_present lb)\<rparr>"

definition lb_announcement :: "lobby \<Rightarrow> lobby_message option" where
  "lb_announcement lb =
     map_option (\<lambda>current. Start (sm_epoch current) (sm_session_id current) (sm_players current))
       (lb_started lb)"

definition lb_adopt :: "64 word \<Rightarrow> 64 word \<Rightarrow> bytes list \<Rightarrow> lobby \<Rightarrow> lobby" where
  "lb_adopt epoch session_id players lb =
     (if lb_my_pubkey lb \<notin> set players then lb
      else if epoch < lb_epoch lb then lb
      else if (case lb_started lb of
                 None \<Rightarrow> False
               | Some current \<Rightarrow> epoch = lb_epoch lb \<and> sm_session_id current \<le> session_id)
      then lb
      else case find_idx (\<lambda>key. key = lb_my_pubkey lb) players of
             None \<Rightarrow> lb
           | Some local_handle \<Rightarrow>
               lb\<lparr>lb_epoch := epoch,
                  lb_started := Some \<lparr>sm_epoch = epoch, sm_session_id = session_id,
                    sm_players = players, sm_local_handle = local_handle\<rparr>\<rparr>)"

definition lb_on_message :: "('raw \<Rightarrow> lobby_message option) \<Rightarrow> bytes \<Rightarrow> 'raw \<Rightarrow> nat \<Rightarrow> lobby \<Rightarrow> lobby" where
  "lb_on_message decode pubkey raw now lb =
     (case decode raw of
        None \<Rightarrow> lb
      | Some (Present nick) \<Rightarrow>
          lb\<lparr>lb_present := bt_insert pubkey \<lparr>pr_nick = nick, pr_last_seen = now\<rparr> (lb_present lb)\<rparr>
      | Some (Start epoch session_id players) \<Rightarrow> lb_adopt epoch session_id players lb)"

text \<open>FNV-1a on 64 bits; \<open>epoch_bytes\<close> is \<open>to_le_bytes\<close>.\<close>

definition epoch_bytes :: "64 word \<Rightarrow> bytes" where
  "epoch_bytes epoch = map (\<lambda>i. ucast (drop_bit (8 * i) epoch)) [0..<8]"

definition fnv_eat :: "bytes \<Rightarrow> 64 word \<Rightarrow> 64 word" where
  "fnv_eat bs hash = fold (\<lambda>b h. (h XOR ucast b) * 0x100000001B3) bs hash"

definition session_id_for :: "bytes list \<Rightarrow> bytes \<Rightarrow> 64 word \<Rightarrow> 64 word" where
  "session_id_for players proposer epoch =
     (let hash = fold (\<lambda>player h. fnv_eat [58] (fnv_eat player h)) players 0xcbf29ce484222325
      in fnv_eat (epoch_bytes epoch) (fnv_eat [35] (fnv_eat proposer (fnv_eat [64] hash))))"

text \<open>The addition wraps, as it does in a release build; a debug build panics there.\<close>

definition lb_propose :: "lobby \<Rightarrow> (lobby_error + lobby_message) \<times> lobby" where
  "lb_propose lb =
     (if length (lb_present lb) < 2 then (Inl NotEnoughPlayers, lb)
      else case lb_blocker lb of
             Some e \<Rightarrow> (Inl e, lb)
           | None \<Rightarrow>
               let players = map fst (lb_present lb);
                   epoch = lb_epoch lb + 1;
                   session_id = session_id_for players (lb_my_pubkey lb) epoch
               in (Inr (Start epoch session_id players), lb_adopt epoch session_id players lb))"


subsection \<open>A lobby at work\<close>

text \<open>What happens to a lobby: a packet, the roster aged, the local player pressing start. The
  clock only matters to who is present.\<close>

datatype 'raw lobby_event = Packet bytes 'raw nat | Expire nat nat | Press_start

definition lb_step :: "('raw \<Rightarrow> lobby_message option) \<Rightarrow> 'raw lobby_event \<Rightarrow> lobby \<Rightarrow> lobby" where
  "lb_step decode ev lb =
     (case ev of
        Packet pubkey raw now \<Rightarrow> lb_on_message decode pubkey raw now lb
      | Expire now ttl \<Rightarrow> lb_expire now ttl lb
      | Press_start \<Rightarrow> snd (lb_propose lb))"

text \<open>The proposals a lobby has seen: those received and its own.\<close>

definition proposed :: "('raw \<Rightarrow> lobby_message option) \<Rightarrow> 'raw lobby_event \<Rightarrow> lobby \<Rightarrow>
    (64 word \<times> 64 word \<times> bytes list) list" where
  "proposed decode ev lb =
     (case ev of
        Packet pubkey raw now \<Rightarrow> (case decode raw of Some (Start e s ps) \<Rightarrow> [(e, s, ps)] | _ \<Rightarrow> [])
      | Expire now ttl \<Rightarrow> []
      | Press_start \<Rightarrow> (case fst (lb_propose lb) of Inr (Start e s ps) \<Rightarrow> [(e, s, ps)] | _ \<Rightarrow> []))"

fun lb_run :: "('raw \<Rightarrow> lobby_message option) \<Rightarrow> 'raw lobby_event list \<Rightarrow> lobby \<Rightarrow>
    lobby \<times> (64 word \<times> 64 word \<times> bytes list) list" where
  "lb_run decode [] lb = (lb, [])"
| "lb_run decode (ev # evs) lb =
     (let (lb', props) = lb_run decode evs (lb_step decode ev lb) in (lb', proposed decode ev lb @ props))"

subsection \<open>Invariants\<close>

definition lb_inv :: "lobby \<Rightarrow> bool" where
  "lb_inv lb \<longleftrightarrow> sorted_wrt (<) (map fst (lb_present lb)) \<and> lb_my_pubkey lb \<in> set (map fst (lb_present lb)) \<and>
     (case lb_started lb of
        None \<Rightarrow> lb_epoch lb = 0
      | Some m \<Rightarrow> sm_epoch m = lb_epoch lb \<and> sm_local_handle m < length (sm_players m) \<and>
          sm_players m ! sm_local_handle m = lb_my_pubkey lb)"

text \<open>A match outranks another: a later epoch, or the same and a lower id.\<close>

definition outranks :: "64 word \<times> 64 word \<Rightarrow> 64 word \<times> 64 word \<Rightarrow> bool" where
  "outranks p q \<longleftrightarrow> fst q < fst p \<or> fst q = fst p \<and> snd p \<le> snd q"

text \<open>The current match is the best of the proposals so far that list the local player.\<close>

definition best_seen :: "(64 word \<times> 64 word \<times> bytes list) set \<Rightarrow> lobby \<Rightarrow> bool" where
  "best_seen P lb \<longleftrightarrow>
     (case lb_started lb of
        None \<Rightarrow> \<forall>(e, s, ps) \<in> P. lb_my_pubkey lb \<notin> set ps
      | Some m \<Rightarrow> (sm_epoch m, sm_session_id m, sm_players m) \<in> P \<and> lb_my_pubkey lb \<in> set (sm_players m) \<and>
          (\<forall>(e, s, ps) \<in> P. lb_my_pubkey lb \<in> set ps \<longrightarrow> outranks (sm_epoch m, sm_session_id m) (e, s)))"

lemma lb_adopt_frame [simp]:
  "lb_my_pubkey (lb_adopt e s ps lb) = lb_my_pubkey lb" "lb_present (lb_adopt e s ps lb) = lb_present lb"
  "lb_my_nick (lb_adopt e s ps lb) = lb_my_nick lb"
  by (simp_all add: lb_adopt_def split: option.splits)

lemma lb_adopt_cases:
  "lb_adopt e s ps lb = lb \<and>
     (lb_my_pubkey lb \<notin> set ps \<or> e < lb_epoch lb \<or>
      (\<exists>m. lb_started lb = Some m \<and> e = lb_epoch lb \<and> sm_session_id m \<le> s)) \<or>
   (\<exists>k. k < length ps \<and> ps ! k = lb_my_pubkey lb \<and> lb_epoch lb \<le> e \<and>
      (\<forall>m. lb_started lb = Some m \<longrightarrow> e \<noteq> lb_epoch lb \<or> s < sm_session_id m) \<and>
      lb_adopt e s ps lb = lb\<lparr>lb_epoch := e, lb_started := Some \<lparr>sm_epoch = e, sm_session_id = s,
        sm_players = ps, sm_local_handle = k\<rparr>\<rparr>)"
proof (cases "find_idx (\<lambda>key. key = lb_my_pubkey lb) ps")
  case None
  then show ?thesis by (auto simp: lb_adopt_def find_idx_None)
next
  case (Some k)
  then have k: "k < length ps" "ps ! k = lb_my_pubkey lb" by (simp_all add: find_idx_Some)
  then have "lb_my_pubkey lb \<in> set ps" by (metis nth_mem)
  show ?thesis
  proof (cases "e < lb_epoch lb \<or> (\<exists>m. lb_started lb = Some m \<and> e = lb_epoch lb \<and> sm_session_id m \<le> s)")
    case True
    then have "lb_adopt e s ps lb = lb" by (auto simp: lb_adopt_def)
    then show ?thesis using True by blast
  next
    case False
    then have "lb_adopt e s ps lb = lb\<lparr>lb_epoch := e, lb_started := Some \<lparr>sm_epoch = e, sm_session_id = s,
        sm_players = ps, sm_local_handle = k\<rparr>\<rparr>"
      using Some \<open>lb_my_pubkey lb \<in> set ps\<close> by (auto simp: lb_adopt_def split: option.splits)
    then show ?thesis using False k by (intro disjI2 exI [of _ k]) auto
  qed
qed

lemma lb_adopt_inv: "lb_inv lb \<Longrightarrow> lb_inv (lb_adopt e s ps lb)"
  using lb_adopt_cases [of e s ps lb] by (elim disjE exE conjE) (simp_all add: lb_inv_def)

lemma lb_adopt_best:
  assumes "best_seen P lb" "lb_inv lb"
  shows "best_seen (insert (e, s, ps) P) (lb_adopt e s ps lb)"
  using lb_adopt_cases [of e s ps lb]
proof (elim disjE exE conjE)
  assume same: "lb_adopt e s ps lb = lb"
    and "lb_my_pubkey lb \<notin> set ps"
  then show ?thesis using assms(1) by (auto simp: best_seen_def split: option.splits)
next
  assume same: "lb_adopt e s ps lb = lb" and "e < lb_epoch lb"
  then show ?thesis using assms by (auto simp: best_seen_def lb_inv_def outranks_def split: option.splits)
next
  fix m assume same: "lb_adopt e s ps lb = lb" and "lb_started lb = Some m" "e = lb_epoch lb"
    "sm_session_id m \<le> s"
  then show ?thesis using assms by (auto simp: best_seen_def lb_inv_def outranks_def)
next
  fix k assume k: "k < length ps" "ps ! k = lb_my_pubkey lb" and e: "lb_epoch lb \<le> e"
    and better: "\<forall>m. lb_started lb = Some m \<longrightarrow> e \<noteq> lb_epoch lb \<or> s < sm_session_id m"
    and new: "lb_adopt e s ps lb = lb\<lparr>lb_epoch := e, lb_started := Some \<lparr>sm_epoch = e,
      sm_session_id = s, sm_players = ps, sm_local_handle = k\<rparr>\<rparr>"
  have "lb_my_pubkey lb \<in> set ps" using k by (metis nth_mem)
  moreover have "outranks (e, s) (e', s')" if "(e', s', ps') \<in> P" "lb_my_pubkey lb \<in> set ps'" for e' s' ps'
  proof (cases "lb_started lb")
    case None
    then show ?thesis using assms(1) that by (auto simp: best_seen_def)
  next
    case (Some m)
    then have "outranks (sm_epoch m, sm_session_id m) (e', s')" "sm_epoch m = lb_epoch lb"
      using assms that by (auto simp: best_seen_def lb_inv_def)
    then show ?thesis using better Some e by (auto simp: outranks_def)
  qed
  ultimately show ?thesis unfolding best_seen_def new by (auto simp: outranks_def)
qed


lemma lb_step_adopts:
  "\<exists>lb0. lb_my_pubkey lb0 = lb_my_pubkey lb \<and> lb_started lb0 = lb_started lb \<and> lb_epoch lb0 = lb_epoch lb \<and>
     (lb_inv lb \<longrightarrow> lb_inv lb0) \<and>
     lb_step decode ev lb = fold (\<lambda>(e, s, ps). lb_adopt e s ps) (proposed decode ev lb) lb0"
proof (cases ev)
  case (Packet pubkey raw now)
  have "lb_inv (lb\<lparr>lb_present := bt_insert pubkey v (lb_present lb)\<rparr>)" if "lb_inv lb" for v
    using that bt_insert_sorted [of "lb_present lb" pubkey v] bt_insert_keys [of pubkey v "lb_present lb"]
    by (simp add: lb_inv_def cong: option.case_cong)
  then show ?thesis
    by (cases "decode raw"; cases "the (decode raw)")
      (force simp: Packet lb_step_def proposed_def lb_on_message_def)+
next
  case (Expire now ttl)
  have "lb_inv (lb_expire now ttl lb)" if "lb_inv lb"
  proof -
    have "sorted_wrt (<) (map fst (lb_present (lb_expire now ttl lb)))"
      using that by (auto simp: lb_inv_def lb_expire_def sorted_wrt_map intro: sorted_wrt_filter)
    moreover have "lb_my_pubkey lb \<in> fst ` set (lb_present (lb_expire now ttl lb))"
      using that by (force simp: lb_inv_def lb_expire_def)
    ultimately show ?thesis using that by (simp add: lb_inv_def lb_expire_def cong: option.case_cong)
  qed
  then show ?thesis
    by (intro exI [of _ "lb_expire now ttl lb"])
      (simp add: Expire lb_step_def proposed_def, simp add: lb_expire_def)
next
  case Press_start
  show ?thesis
    by (intro exI [of _ lb])
      (simp add: Press_start lb_step_def proposed_def lb_propose_def Let_def split: option.split)
qed

lemma lb_fold_adopt:
  "lb_inv lb \<Longrightarrow> best_seen P lb \<Longrightarrow>
   lb_inv (fold (\<lambda>(e, s, ps). lb_adopt e s ps) xs lb) \<and>
   best_seen (P \<union> set xs) (fold (\<lambda>(e, s, ps). lb_adopt e s ps) xs lb) \<and>
   lb_my_pubkey (fold (\<lambda>(e, s, ps). lb_adopt e s ps) xs lb) = lb_my_pubkey lb"
proof (induction xs arbitrary: P lb)
  case (Cons x xs)
  obtain e s ps where x: "x = (e, s, ps)" by (cases x)
  show ?case
    using Cons.IH [OF lb_adopt_inv [OF Cons.prems(1)] lb_adopt_best [OF Cons.prems(2,1)], of e s ps]
    by (simp add: x)
qed simp

lemma lb_step_best:
  assumes "lb_inv lb" "best_seen P lb"
  shows "lb_inv (lb_step decode ev lb) \<and> best_seen (P \<union> set (proposed decode ev lb)) (lb_step decode ev lb) \<and>
    lb_my_pubkey (lb_step decode ev lb) = lb_my_pubkey lb"
proof -
  obtain lb0 where lb0: "lb_my_pubkey lb0 = lb_my_pubkey lb" "lb_started lb0 = lb_started lb" "lb_inv lb0"
    "lb_step decode ev lb = fold (\<lambda>(e, s, ps). lb_adopt e s ps) (proposed decode ev lb) lb0"
    using lb_step_adopts assms(1) by metis
  have "best_seen P lb0" using assms(2) by (simp add: best_seen_def lb0 cong: option.case_cong)
  then show ?thesis using lb_fold_adopt [OF lb0(3)] lb0 by metis
qed

lemma lb_run_best:
  "lb_inv lb \<Longrightarrow> best_seen P lb \<Longrightarrow>
   lb_inv (fst (lb_run decode evs lb)) \<and> best_seen (P \<union> set (snd (lb_run decode evs lb))) (fst (lb_run decode evs lb)) \<and>
   lb_my_pubkey (fst (lb_run decode evs lb)) = lb_my_pubkey lb"
proof (induction evs arbitrary: P lb)
  case (Cons ev evs)
  note step = lb_step_best [OF Cons.prems, of decode ev]
  show ?case
    using Cons.IH [OF conjunct1 [OF step] conjunct1 [OF conjunct2 [OF step]]] step
    by (simp add: split_beta Let_def Un_assoc)
qed simp

lemma lb_new_best: "lb_inv (lb_new a na) \<and> best_seen {} (lb_new a na) \<and> lb_my_pubkey (lb_new a na) = a"
  by (simp add: lb_inv_def best_seen_def lb_new_def)

lemma lb_run_new:
  "lb_run decode evs (lb_new a na) = (lb, ps) \<Longrightarrow> lb_inv lb \<and> best_seen (set ps) lb \<and> lb_my_pubkey lb = a"
  using lb_run_best [of "lb_new a na" "{}" decode evs] lb_new_best [of a na] by simp

lemma outranks_antisym: "outranks p q \<Longrightarrow> outranks q p \<Longrightarrow> p = q"
  by (cases p; cases q) (auto simp: outranks_def)

lemma best_seen_some:
  assumes "best_seen P lb" "(e, s, ps) \<in> P" "lb_my_pubkey lb \<in> set ps"
  shows "\<exists>m. lb_started lb = Some m \<and> (sm_epoch m, sm_session_id m, sm_players m) \<in> P \<and>
    lb_my_pubkey lb \<in> set (sm_players m) \<and> outranks (sm_epoch m, sm_session_id m) (e, s)"
proof (cases "lb_started lb")
  case None
  then have "\<forall>(e, s, ps) \<in> P. lb_my_pubkey lb \<notin> set ps" using assms(1) by (simp add: best_seen_def)
  then show ?thesis using assms(2,3) by fast
next
  case (Some m)
  then show ?thesis using assms by (auto simp: best_seen_def)
qed

lemma best_seen_none:
  "best_seen P lb \<Longrightarrow> lb_started lb = Some m \<Longrightarrow>
   (sm_epoch m, sm_session_id m, sm_players m) \<in> P \<and> lb_my_pubkey lb \<in> set (sm_players m)"
  by (simp add: best_seen_def)

lemma best_seen_agree:
  assumes "best_seen P la" "best_seen P lb"
    and both: "\<And>e s ps. (e, s, ps) \<in> P \<Longrightarrow> lb_my_pubkey la \<in> set ps \<longleftrightarrow> lb_my_pubkey lb \<in> set ps"
    and same: "\<And>e s ps ps'. (e, s, ps) \<in> P \<Longrightarrow> (e, s, ps') \<in> P \<Longrightarrow> ps = ps'"
  shows "map_option (\<lambda>m. (sm_epoch m, sm_session_id m, sm_players m)) (lb_started la) =
    map_option (\<lambda>m. (sm_epoch m, sm_session_id m, sm_players m)) (lb_started lb)"
proof (cases "lb_started la")
  case None
  have "lb_started lb \<noteq> Some m" for m
    using best_seen_none [OF assms(2), of m] best_seen_some [OF assms(1)] both None by fastforce
  then show ?thesis using None by (cases "lb_started lb") auto
next
  case (Some m)
  note m = best_seen_none [OF assms(1) Some]
  then obtain n where n: "lb_started lb = Some n" "(sm_epoch n, sm_session_id n, sm_players n) \<in> P"
    "lb_my_pubkey lb \<in> set (sm_players n)" "outranks (sm_epoch n, sm_session_id n) (sm_epoch m, sm_session_id m)"
    using best_seen_some [OF assms(2), of "sm_epoch m" "sm_session_id m" "sm_players m"] both by blast
  then have "outranks (sm_epoch m, sm_session_id m) (sm_epoch n, sm_session_id n)"
    using best_seen_some [OF assms(1) n(2)] both Some by auto
  from outranks_antisym [OF this n(4)] have "sm_epoch m = sm_epoch n" "sm_session_id m = sm_session_id n"
    by simp_all
  moreover from this have "sm_players m = sm_players n" using same m n(2) by metis
  ultimately show ?thesis using Some n(1) by simp
qed

lemma first_duplicate_None: "first_duplicate A ns = None \<longleftrightarrow> distinct ns \<and> set ns \<inter> A = {}"
  by (induction ns arbitrary: A) auto


lemma word_less_next: "w < w + 1" if "w \<noteq> - 1" for w :: "64 word"
proof -
  have "unat w + 1 < 2 ^ 64"
  proof (rule ccontr)
    assume "\<not> ?thesis"
    moreover have "unat w < 2 ^ 64" by (rule order_less_le_trans [OF unsigned_less]) simp
    ultimately have "unat w = 2 ^ 64 - 1" by simp
    then have "unat w = unat (- 1 :: 64 word)" by (simp add: unsigned_minus_1_eq_mask mask_eq_exp_minus_1)
    then show False using that unsigned_word_eqI by blast
  qed
  then have "unat (w + 1) = unat w + 1" by (simp add: unat_word_ariths)
  then show ?thesis by (simp add: word_less_nat_alt)
qed

subsection \<open>Properties\<close>


text \<open>In the witness each of two peers hears the other, both press start at once, and each proposal
  reaches the other peer. Packets are decoded already.\<close>

abbreviation race_a :: "lobby_message lobby_event list" where
  "race_a \<equiv> [Packet [2] (Present [20]) 0, Press_start,
     Packet [2] (Start 1 (session_id_for [[1], [2]] [2] 1) [[1], [2]]) 1]"

abbreviation race_b :: "lobby_message lobby_event list" where
  "race_b \<equiv> [Packet [1] (Present [10]) 0, Press_start,
     Packet [1] (Start 1 (session_id_for [[1], [2]] [1] 1) [[1], [2]]) 1]"

lemma race_ids: "session_id_for [[1], [2]] [1] 1 \<noteq> session_id_for [[1], [2]] [2] 1"
  by code_simp

lemma race_proposals:
  "snd (lb_run Some race_a (lb_new [1] [10])) =
     [(1, session_id_for [[1], [2]] [1] 1, [[1], [2]]), (1, session_id_for [[1], [2]] [2] 1, [[1], [2]])]"
  "snd (lb_run Some race_b (lb_new [2] [20])) =
     [(1, session_id_for [[1], [2]] [2] 1, [[1], [2]]), (1, session_id_for [[1], [2]] [1] 1, [[1], [2]])]"
  by code_simp+


text \<open>Pressing start succeeds exactly when two peers or more are present and no two of them
  share a nickname; the proposer is then in a match of the next epoch with everyone present, in
  key order. It needs the epoch not to be the last one.\<close>

theorem lobby_propose_spec:
  assumes "lb_inv lb" "lb_epoch lb \<noteq> - 1"
  shows "let nicks = map (pr_nick \<circ> snd) (lb_present lb); players = map fst (lb_present lb) in
    case lb_propose lb of
      (Inl e, lb') \<Rightarrow> lb' = lb \<and> (length players < 2 \<and> e = NotEnoughPlayers \<or>
        2 \<le> length players \<and> \<not> distinct nicks \<and> (\<exists>n. e = DuplicateNickname n))
    | (Inr msg, lb') \<Rightarrow> 2 \<le> length players \<and> distinct nicks \<and> sorted_wrt (<) players \<and>
        lb_announcement lb' = Some msg \<and> lb_epoch lb' = lb_epoch lb + 1 \<and>
        (\<exists>m. lb_started lb' = Some m \<and> sm_players m = players \<and> sm_epoch m = lb_epoch lb + 1 \<and>
          players ! sm_local_handle m = lb_my_pubkey lb)"
proof -
  let ?nicks = "map (pr_nick \<circ> snd) (lb_present lb)"
  let ?players = "map fst (lb_present lb)"
  let ?sid = "session_id_for ?players (lb_my_pubkey lb) (lb_epoch lb + 1)"
  have later: "lb_epoch lb < lb_epoch lb + 1"
    using assms(2) by (rule word_less_next)
  have me: "lb_my_pubkey lb \<in> set ?players" using assms(1) unfolding lb_inv_def by blast
  obtain k where k: "find_idx (\<lambda>key. key = lb_my_pubkey lb) ?players = Some k"
    using me find_idx_None [of "\<lambda>key. key = lb_my_pubkey lb" ?players] by auto
  then have "?players ! k = lb_my_pubkey lb" by (simp add: find_idx_Some)
  have adopted: "lb_adopt (lb_epoch lb + 1) ?sid ?players lb = lb\<lparr>lb_epoch := lb_epoch lb + 1,
      lb_started := Some \<lparr>sm_epoch = lb_epoch lb + 1, sm_session_id = ?sid, sm_players = ?players,
        sm_local_handle = k\<rparr>\<rparr>"
    using me k later by (auto simp: lb_adopt_def split: option.split)
  have block: "lb_blocker lb = (if length ?players < 2 then None
      else map_option DuplicateNickname (first_duplicate {} ?nicks))"
    by (simp add: lb_blocker_def)
  show ?thesis
  proof (cases "length ?players < 2 \<or> \<not> distinct ?nicks")
    case True
    then have "first_duplicate {} ?nicks \<noteq> None \<or> length ?players < 2"
      by (auto simp: first_duplicate_None)
    then show ?thesis
      using True by (auto simp: lb_propose_def block Let_def)
  next
    case False
    then have "first_duplicate {} ?nicks = None" by (simp add: first_duplicate_None)
    then have "lb_propose lb = (Inr (Start (lb_epoch lb + 1) ?sid ?players),
        lb_adopt (lb_epoch lb + 1) ?sid ?players lb)"
      using False by (simp add: lb_propose_def block Let_def)
    then show ?thesis
      using False assms(1) \<open>?players ! k = lb_my_pubkey lb\<close>
      by (simp add: adopted lb_announcement_def lb_inv_def not_less)
  qed
qed

theorem lobby_propose_spec_witness:
  "\<exists>m. lb_started (snd (lb_propose (lb_step Some (Packet [2] (Present [20]) 0) (lb_new [1] [10])))) = Some m \<and>
     sm_players m = [[1], [2]] \<and> sm_epoch m = 1"
proof -
  let ?lb = "lb_step Some (Packet [2] (Present [20]) 0) (lb_new [1] [10])"
  have "lb_inv ?lb" using lb_step_best [of "lb_new [1] [10]" "{}"] lb_new_best by blast
  moreover have lb: "lb_epoch ?lb = 0" "map fst (lb_present ?lb) = [[1], [2]]"
    "map (pr_nick \<circ> snd) (lb_present ?lb) = [[10], [20]]" by code_simp+
  ultimately show ?thesis
    using lobby_propose_spec [of ?lb]
    by (cases "lb_propose ?lb"; cases "fst (lb_propose ?lb)") (auto simp: Let_def)
qed

text \<open>The last epoch is a dead end: once a lobby has adopted a match of epoch \<open>2 ^ 64 - 1\<close> (any
  peer can propose one), pressing start never starts another match, although it goes on to
  broadcast proposals, of epoch 0, which no peer in that match adopts.\<close>

theorem lobby_epoch_exhausted:
  assumes "lb_epoch lb = - 1" "lb_started lb = Some m"
  shows "snd (lb_propose lb) = lb \<and>
    (case fst (lb_propose lb) of Inl e \<Rightarrow> True | Inr msg \<Rightarrow> (\<exists>s ps. msg = Start 0 s ps)) \<and>
    lb_adopt 0 s xs lb = lb"
proof -
  have keep: "lb_adopt 0 s xs lb = lb" for s xs
  proof -
    have "(0 :: 64 word) < - 1" by (simp add: word_gt_0)
    then show ?thesis using assms(1) by (simp add: lb_adopt_def)
  qed
  show ?thesis
    unfolding lb_propose_def using keep assms(1) by (auto simp: Let_def split: option.split)
qed

theorem lobby_epoch_exhausted_witness:
  "\<exists>m. lb_started (lb_step Some (Packet [2] (Start (- 1) 0 [[1], [2]]) 0) (lb_new [1] [10])) = Some m \<and>
     snd (lb_propose (lb_step Some (Packet [2] (Start (- 1) 0 [[1], [2]]) 0) (lb_new [1] [10]))) =
     lb_step Some (Packet [2] (Start (- 1) 0 [[1], [2]]) 0) (lb_new [1] [10])"
proof -
  let ?lb = "lb_step Some (Packet [2] (Start (- 1) 0 [[1], [2]]) 0) (lb_new [1] [10])"
  have "lb_epoch ?lb = - 1" "lb_started ?lb \<noteq> None" by code_simp+
  then show ?thesis using lobby_epoch_exhausted [of ?lb] by blast
qed

end
