(* ===== verification/MeshTransport.thy ===== *)
theory MeshTransport
  imports Prelude "HOL-Library.AList"
begin

text \<open>
  Between the frame loop and the node's event loop (\<open>fofoca-netplay/src/mesh/driver.rs\<close> and
  \<open>mesh/transport.rs\<close>): mailboxes for what arrives, a bounded channel for what is sent. JSON is a
  parameter (\<open>encode\<close>, \<open>decode\<close>), and so is the engine's \<open>send_app\<close>: what it is asked to send is
  returned as a list, whether it succeeds is the argument \<open>accepted\<close>. A poisoned lock is not
  modelled.
\<close>

subsection \<open>State\<close>

datatype outbound = Rollback bytes bytes | Lobby bytes

record 'm mailboxes =
  mb_inbound :: "(bytes \<times> 'm) list"
  mb_lobby :: "(bytes \<times> bytes) list"
  mb_local_pubkey :: "bytes option"
  mb_directory :: "(bytes \<times> bytes) list"

definition mb_new :: "'m mailboxes" where
  "mb_new = \<lparr>mb_inbound = [], mb_lobby = [], mb_local_pubkey = None, mb_directory = []\<rparr>"

definition ROLLBACK_TAG :: bytes where "ROLLBACK_TAG = [114, 98, 95, 105, 110, 112, 117, 116]"
definition LOBBY_TAG :: bytes where "LOBBY_TAG = [114, 98, 95, 108, 111, 98, 98, 121]"

record app_class =
  ac_loggable :: bool
  ac_beat :: bool
  ac_chained :: bool
  ac_sealed :: bool
  ac_valid :: bool

text \<open>The parts of an inbound frame the driver reads.\<close>

record app_frame =
  af_tag :: "bytes option"
  af_pubkey :: bytes
  af_author :: bytes
  af_body :: bytes

subsection \<open>The driver\<close>

definition md_classify :: "bytes option \<Rightarrow> app_class" where
  "md_classify tag =
     \<lparr>ac_loggable = False, ac_beat = False, ac_chained = False, ac_sealed = False,
      ac_valid = (tag = Some ROLLBACK_TAG \<or> tag = Some LOBBY_TAG)\<rparr>"

definition md_on_app_frame :: "(bytes \<Rightarrow> 'm option) \<Rightarrow> app_frame \<Rightarrow> 'm mailboxes \<Rightarrow> 'm mailboxes" where
  "md_on_app_frame decode frame mb =
     (case af_tag frame of
        None \<Rightarrow> mb
      | Some tag \<Rightarrow>
          let mb1 = mb\<lparr>mb_directory := AList.update (af_pubkey frame) (af_author frame) (mb_directory mb)\<rparr> in
          if tag = ROLLBACK_TAG
          then (case decode (af_body frame) of
                  None \<Rightarrow> mb1
                | Some m \<Rightarrow> mb1\<lparr>mb_inbound := mb_inbound mb1 @ [(af_pubkey frame, m)]\<rparr>)
          else if tag = LOBBY_TAG
          then mb1\<lparr>mb_lobby := mb_lobby mb1 @ [(af_pubkey frame, af_body frame)]\<rparr>
          else mb1)"

definition md_on_startup :: "bytes \<Rightarrow> 'm mailboxes \<Rightarrow> 'm mailboxes" where
  "md_on_startup our_pubkey mb = mb\<lparr>mb_local_pubkey := Some our_pubkey\<rparr>"

text \<open>A request to \<open>send_app\<close>: tag, recipient, body. A body the protocol refuses is not sent.\<close>

type_synonym app_send = "bytes \<times> bytes \<times> bytes"

definition md_send :: "(bytes \<Rightarrow> bool) \<Rightarrow> (app_send \<Rightarrow> bool) \<Rightarrow> bytes \<Rightarrow> bytes \<Rightarrow> bytes \<Rightarrow>
    bool \<times> app_send list" where
  "md_send valid_body accepted tag recipient payload =
     (if \<not> valid_body payload then (False, [])
      else (accepted (tag, recipient, payload), [(tag, recipient, payload)]))"

definition md_handle_session :: "(bytes \<Rightarrow> bool) \<Rightarrow> (app_send \<Rightarrow> bool) \<Rightarrow> outbound \<Rightarrow> bytes list \<Rightarrow>
    'm mailboxes \<Rightarrow> bool \<times> app_send list" where
  "md_handle_session valid_body accepted req roster mb =
     (case req of
        Rollback recipient payload \<Rightarrow>
          (case map_of (mb_directory mb) recipient of
             None \<Rightarrow> (False, [])
           | Some nickname \<Rightarrow> md_send valid_body accepted ROLLBACK_TAG nickname payload)
      | Lobby payload \<Rightarrow>
          fold (\<lambda>peer (delivered, sent).
              let (d, s) = md_send valid_body accepted LOBBY_TAG peer payload
              in (delivered \<or> d, sent @ s))
            roster (False, []))"

subsection \<open>The transport\<close>

definition try_send :: "nat \<Rightarrow> outbound \<Rightarrow> outbound list \<Rightarrow> outbound list" where
  "try_send capacity x outbox = (if length outbox < capacity then outbox @ [x] else outbox)"

definition mt_broadcast_lobby :: "('v \<Rightarrow> bytes option) \<Rightarrow> nat \<Rightarrow> 'v \<Rightarrow> outbound list \<Rightarrow> outbound list" where
  "mt_broadcast_lobby encode capacity v outbox =
     (case encode v of None \<Rightarrow> outbox | Some payload \<Rightarrow> try_send capacity (Lobby payload) outbox)"

definition mt_drain_lobby :: "'m mailboxes \<Rightarrow> (bytes \<times> bytes) list \<times> 'm mailboxes" where
  "mt_drain_lobby mb = (mb_lobby mb, mb\<lparr>mb_lobby := []\<rparr>)"

definition mt_local_pubkey :: "'m mailboxes \<Rightarrow> bytes option" where
  "mt_local_pubkey mb = mb_local_pubkey mb"

definition mt_knows :: "bytes \<Rightarrow> 'm mailboxes \<Rightarrow> bool" where
  "mt_knows pubkey mb = (map_of (mb_directory mb) pubkey \<noteq> None)"

definition mt_known_peers :: "'m mailboxes \<Rightarrow> (bytes \<times> bytes) list" where
  "mt_known_peers mb = mb_directory mb"

definition mt_send_to :: "('m \<Rightarrow> bytes option) \<Rightarrow> nat \<Rightarrow> 'm \<Rightarrow> bytes \<Rightarrow> outbound list \<Rightarrow> outbound list" where
  "mt_send_to encode capacity m addr outbox =
     (case encode m of None \<Rightarrow> outbox | Some payload \<Rightarrow> try_send capacity (Rollback addr payload) outbox)"

definition mt_receive_all :: "'m mailboxes \<Rightarrow> (bytes \<times> 'm) list \<times> 'm mailboxes" where
  "mt_receive_all mb = (mb_inbound mb, mb\<lparr>mb_inbound := []\<rparr>)"

subsection \<open>The two loops interleaved\<close>

datatype mail_event = Frame app_frame | Receive | Drain_lobby | Startup bytes

text \<open>The mailboxes, all packets received and all lobby packets drained so far.\<close>

definition mail_step :: "(bytes \<Rightarrow> 'm option) \<Rightarrow> mail_event \<Rightarrow>
    'm mailboxes \<times> (bytes \<times> 'm) list \<times> (bytes \<times> bytes) list \<Rightarrow>
    'm mailboxes \<times> (bytes \<times> 'm) list \<times> (bytes \<times> bytes) list" where
  "mail_step decode ev st =
     (case st of (mb, received, drained) \<Rightarrow>
        case ev of
          Frame f \<Rightarrow> (md_on_app_frame decode f mb, received, drained)
        | Receive \<Rightarrow> (let (xs, mb') = mt_receive_all mb in (mb', received @ xs, drained))
        | Drain_lobby \<Rightarrow> (let (xs, mb') = mt_drain_lobby mb in (mb', received, drained @ xs))
        | Startup key \<Rightarrow> (md_on_startup key mb, received, drained))"

definition packets_in :: "(bytes \<Rightarrow> 'm option) \<Rightarrow> mail_event list \<Rightarrow> (bytes \<times> 'm) list" where
  "packets_in decode evs = List.map_filter (\<lambda>ev. case ev of
      Frame f \<Rightarrow> if af_tag f = Some ROLLBACK_TAG
        then map_option (Pair (af_pubkey f)) (decode (af_body f)) else None
    | _ \<Rightarrow> None) evs"

definition lobby_in :: "mail_event list \<Rightarrow> (bytes \<times> bytes) list" where
  "lobby_in evs = List.map_filter (\<lambda>ev. case ev of
      Frame f \<Rightarrow> if af_tag f = Some LOBBY_TAG then Some (af_pubkey f, af_body f) else None
    | _ \<Rightarrow> None) evs"

definition names_in :: "mail_event list \<Rightarrow> (bytes \<times> bytes) list" where
  "names_in evs = List.map_filter (\<lambda>ev. case ev of
      Frame f \<Rightarrow> if af_tag f = None then None else Some (af_pubkey f, af_author f)
    | _ \<Rightarrow> None) evs"

lemma tags_differ [simp]: "ROLLBACK_TAG \<noteq> LOBBY_TAG" "LOBBY_TAG \<noteq> ROLLBACK_TAG"
  by (simp_all add: ROLLBACK_TAG_def LOBBY_TAG_def)

lemma mail_run_append:
  "fold (mail_step decode) (evs @ [ev]) st = mail_step decode ev (fold (mail_step decode) evs st)"
  by simp

lemma mail_run:
  "fold (mail_step decode) evs (mb_new, [], []) = (mb, received, drained) \<Longrightarrow>
   received @ mb_inbound mb = packets_in decode evs \<and> drained @ mb_lobby mb = lobby_in evs \<and>
   map_of (mb_directory mb) k = map_of (rev (names_in evs)) k"
proof (induction evs arbitrary: mb received drained rule: rev_induct)
  case Nil
  then show ?case by (auto simp: mb_new_def packets_in_def lobby_in_def names_in_def map_filter_simps)
next
  case (snoc ev evs)
  obtain mb0 r0 d0 where st: "fold (mail_step decode) evs (mb_new, [], []) = (mb0, r0, d0)"
    by (cases "fold (mail_step decode) evs (mb_new, [], [])") auto
  note IH = snoc.IH [OF st]
  have step: "mail_step decode ev (mb0, r0, d0) = (mb, received, drained)"
    using snoc.prems st by simp
  show ?case
  proof (cases ev)
    case (Frame f)
    then show ?thesis
      using IH step
      by (auto simp: mail_step_def md_on_app_frame_def packets_in_def lobby_in_def names_in_def
          map_filter_def update_conv' Let_def split: option.splits if_splits)
  qed (use IH step in \<open>auto simp: mail_step_def packets_in_def lobby_in_def names_in_def map_filter_def
      mt_receive_all_def mt_drain_lobby_def md_on_startup_def\<close>)
qed

subsection \<open>Properties\<close>

text \<open>However the frame loop and the event loop interleave, nothing in the mailboxes is lost,
  repeated or reordered: what was received and what is still waiting are the rollback packets of
  the frames so far that could be decoded, each with its signer's key, and the same holds of the
  lobby packets. A packet for a peer goes to the nickname on that peer's last frame, and to
  nobody when there was none.\<close>

theorem mailboxes_deliver:
  assumes "fold (mail_step decode) evs (mb_new, [], []) = (mb, received, drained)"
  shows "received @ fst (mt_receive_all mb) = packets_in decode evs \<and>
    drained @ fst (mt_drain_lobby mb) = lobby_in evs \<and>
    snd (md_handle_session valid accepted (Rollback k payload) roster mb) =
      (case map_of (rev (names_in evs)) k of
         None \<Rightarrow> []
       | Some nick \<Rightarrow> if valid payload then [(ROLLBACK_TAG, nick, payload)] else [])"
  using mail_run [OF assms, of k]
  by (auto simp: mt_receive_all_def mt_drain_lobby_def md_handle_session_def md_send_def
      split: option.split)

theorem mailboxes_deliver_witness:
  "\<exists>mb received drained.
     fold (mail_step Some) [Frame \<lparr>af_tag = Some ROLLBACK_TAG, af_pubkey = [1], af_author = [10], af_body = [7]\<rparr>,
       Receive, Frame \<lparr>af_tag = Some ROLLBACK_TAG, af_pubkey = [1], af_author = [11], af_body = [8]\<rparr>]
       (mb_new, [], []) = (mb, received, drained) \<and>
     received @ fst (mt_receive_all mb) = [([1], [7]), ([1], [8])] \<and>
     snd (md_handle_session (\<lambda>_. True) (\<lambda>_. True) (Rollback [1] [5]) [] mb) = [(ROLLBACK_TAG, [11], [5])]"
proof -
  let ?evs = "[Frame \<lparr>af_tag = Some ROLLBACK_TAG, af_pubkey = [1], af_author = [10], af_body = [7]\<rparr>,
       Receive, Frame \<lparr>af_tag = Some ROLLBACK_TAG, af_pubkey = [1], af_author = [11], af_body = [8]\<rparr>]"
  obtain mb received drained where run:
    "fold (mail_step Some) ?evs (mb_new, [], []) = (mb, received, drained)"
    by (cases "fold (mail_step Some) ?evs (mb_new, [], [])") auto
  have "packets_in Some ?evs = [([1], [7]), ([1], [8])]" "map_of (rev (names_in ?evs)) [1] = Some [11]"
    by (simp_all add: packets_in_def names_in_def map_filter_def)
  then show ?thesis using mailboxes_deliver [OF run, of "\<lambda>_. True" "\<lambda>_. True" "[1]" "[5]" "[]"] run
    by (metis option.simps(5))
qed

end
