(* ===== verification/MultihopGraph.thy ===== *)
theory MultihopGraph
  imports Prelude "HOL-Library.AList"
begin

text \<open>
  Source routes over the link-state graph: \<open>metric.rs\<close> and \<open>graph.rs\<close> of
  \<open>fofoca-iroh-multihop-transport/src\<close>. Nodes are of any type \<open>'n\<close>; a \<open>HashMap\<close> that is only looked up
  and inserted into is a partial function, the graph itself an association list. The \<open>BinaryHeap\<close> is a list from which an entry of
  least cost is taken; among equal costs the list takes the first, where the order of the Rust
  heap is unspecified, and nothing proved here depends on it.
\<close>

subsection \<open>Link costs\<close>

text \<open>A \<open>LinkMetric\<close> is a \<open>u32\<close>; \<open>INFINITE\<close> is the largest.\<close>

definition INFINITE :: nat where "INFINITE = u32_max"

definition metric_add :: "nat \<Rightarrow> nat \<Rightarrow> nat" where
  "metric_add a rest = sat_add32 a rest"

definition is_usable :: "nat \<Rightarrow> bool" where
  "is_usable m = (m \<noteq> INFINITE)"

subsection \<open>The graph\<close>

type_synonym 'n graph = "('n \<times> ('n \<times> nat) list) list"

definition adj :: "'n graph \<Rightarrow> 'n \<Rightarrow> ('n \<times> nat) list" where
  "adj g n = (case map_of g n of None \<Rightarrow> [] | Some es \<Rightarrow> es)"

record 'n path =
  pa_hops :: "'n list"
  pa_cost :: nat

definition insert_link :: "'n \<Rightarrow> 'n \<Rightarrow> nat \<Rightarrow> 'n graph \<Rightarrow> 'n graph" where
  "insert_link src dst cost g = (if is_usable cost then AList.update src (adj g src @ [(dst, cost)]) g else g)"

subsection \<open>Shortest paths\<close>

text \<open>Taking an entry of least cost from the heap.\<close>

fun heap_pop :: "(nat \<times> 'n) list \<Rightarrow> ((nat \<times> 'n) \<times> (nat \<times> 'n) list) option" where
  "heap_pop [] = None"
| "heap_pop (e # es) =
     (case heap_pop es of
        None \<Rightarrow> Some (e, [])
      | Some (m, rest) \<Rightarrow> if fst e \<le> fst m then Some (e, es) else Some (m, e # rest))"

type_synonym 'n search_state = "('n \<Rightarrow> nat option) \<times> ('n \<Rightarrow> 'n option) \<times> (nat \<times> 'n) list"

definition relax :: "'n set \<Rightarrow> 'n \<Rightarrow> 'n \<Rightarrow> nat \<Rightarrow> 'n \<times> nat \<Rightarrow> 'n search_state \<Rightarrow> 'n search_state" where
  "relax blocked dst node cost edge st =
     (case (edge, st) of ((nxt, weight), (best, prev, heap)) \<Rightarrow>
        if nxt \<noteq> dst \<and> nxt \<in> blocked then st
        else let next_cost = metric_add cost weight in
          if (case best nxt of Some known \<Rightarrow> \<not> next_cost < known | None \<Rightarrow> False) then st
          else (best(nxt \<mapsto> next_cost), prev(nxt \<mapsto> node), heap @ [(next_cost, nxt)]))"

text \<open>The walk of \<open>reconstruct\<close> back along \<open>prev\<close>; \<open>None\<close> is a walk that never ends.\<close>

partial_function (option) walk_back :: "('n \<Rightarrow> 'n option) \<Rightarrow> 'n \<Rightarrow> 'n \<Rightarrow> 'n list \<Rightarrow> 'n list option" where
  [code]: "walk_back prev src cur hops =
     (case prev cur of
        None \<Rightarrow> Some hops
      | Some parent \<Rightarrow>
          if parent = src then Some hops else walk_back prev src parent (parent # hops))"

definition reconstruct :: "('n \<Rightarrow> 'n option) \<Rightarrow> 'n \<Rightarrow> 'n \<Rightarrow> 'n list option" where
  "reconstruct prev src dst = walk_back prev src dst [dst]"

text \<open>The sum that shows the search ends: every push goes with a better cost for a node that some
  link leads to.\<close>

definition cost_value :: "nat option \<Rightarrow> nat" where
  "cost_value c = (case c of None \<Rightarrow> u32_max + 1 | Some k \<Rightarrow> k)"

definition targets :: "('n \<times> nat) list \<Rightarrow> 'n set" where
  "targets es = fst ` set es"

definition search_size :: "'n set \<Rightarrow> 'n search_state \<Rightarrow> nat" where
  "search_size N st = (case st of (best, prev, heap) \<Rightarrow>
     2 * (\<Sum>n \<in> N. cost_value (best n)) + length heap)"

lemma relax_size:
  assumes "finite N" "fst e \<in> N"
  shows "search_size N (relax blocked dst node cost e st) \<le> search_size N st"
proof -
  obtain nxt w best prev heap where e: "e = (nxt, w)" "st = (best, prev, heap)" by (cases e; cases st) auto
  define k where "k = metric_add cost w"
  show ?thesis
  proof (cases "relax blocked dst node cost e st = st")
    case False
    then have r: "relax blocked dst node cost e st = (best(nxt \<mapsto> k), prev(nxt \<mapsto> node), heap @ [(k, nxt)])"
      and better: "cost_value (Some k) < cost_value (best nxt)"
      by (auto simp: relax_def e k_def Let_def cost_value_def metric_add_def sat_add32_def
          split: if_splits option.splits)
    have "(\<Sum>n \<in> N. cost_value ((best(nxt \<mapsto> k)) n)) < (\<Sum>n \<in> N. cost_value (best n))"
      by (rule sum_strict_mono_ex1) (use assms e better in auto)
    then show ?thesis unfolding r [unfolded e(1)] e(1) unfolding e(2) search_size_def by (simp add: r [unfolded e])
  qed simp
qed

lemma fold_relax_size:
  "finite N \<Longrightarrow> targets es \<subseteq> N \<Longrightarrow>
   search_size N (fold (relax blocked dst node cost) es st) \<le> search_size N st"
proof (induction es arbitrary: st)
  case (Cons e es)
  have "search_size N (fold (relax blocked dst node cost) es (relax blocked dst node cost e st)) \<le>
      search_size N (relax blocked dst node cost e st)"
    using Cons by (simp add: targets_def)
  also have "\<dots> \<le> search_size N st" using Cons.prems by (intro relax_size) (auto simp: targets_def)
  finally show ?case by simp
qed simp

lemma heap_pop_some:
  "heap_pop heap = Some (m, rest) \<Longrightarrow> m \<in> set heap \<and> length heap = Suc (length rest) \<and>
     set heap = insert m (set rest) \<and> (\<forall>e \<in> set heap. fst m \<le> fst e)"
proof (induction heap arbitrary: m rest)
  case (Cons e es)
  show ?case
  proof (cases "heap_pop es")
    case None
    then have "es = []" by (cases es) (auto split: option.splits prod.splits if_splits)
    then show ?thesis using Cons.prems None by simp
  next
    case (Some mr)
    obtain m' rest' where mr: "mr = (m', rest')" by (cases mr)
    note IH = Cons.IH [OF Some [unfolded mr]]
    show ?thesis using Cons.prems Some mr IH by (fastforce split: if_splits)
  qed
qed simp

lemma heap_pop_none: "heap_pop heap = None \<longleftrightarrow> heap = []"
  by (cases heap) (auto split: option.splits prod.splits)

definition nodes :: "'n graph \<Rightarrow> 'n set" where
  "nodes g = (\<Union>(n, es) \<in> set g. targets es)"

lemma nodes_finite [simp]: "finite (nodes g)"
  by (auto simp: nodes_def targets_def)

lemma adj_targets: "targets (adj g n) \<subseteq> nodes g"
proof (cases "map_of g n")
  case (Some es)
  then have "(n, es) \<in> set g" by (rule map_of_SomeD)
  then show ?thesis using Some by (force simp: adj_def nodes_def)
qed (simp add: adj_def targets_def)

text \<open>The search: \<open>None\<close> is a search that does not return, \<open>Some None\<close> one that found nothing.\<close>

function search :: "'n graph \<Rightarrow> 'n \<Rightarrow> 'n \<Rightarrow> 'n set \<Rightarrow> 'n search_state \<Rightarrow> 'n path option option" where
  "search g src dst blocked (best, prev, heap) =
     (case heap_pop heap of
        None \<Rightarrow> Some None
      | Some ((cost, node), rest) \<Rightarrow>
          if node = dst
          then (case reconstruct prev src dst of
                  None \<Rightarrow> None
                | Some hops \<Rightarrow> Some (Some \<lparr>pa_hops = hops, pa_cost = cost\<rparr>))
          else if (case best node of Some known \<Rightarrow> known < cost | None \<Rightarrow> False)
          then search g src dst blocked (best, prev, rest)
          else search g src dst blocked
                 (fold (relax blocked dst node cost) (adj g node) (best, prev, rest)))"
  by pat_completeness auto
termination
proof (relation "measure (\<lambda>(g, src, dst, blocked, st). search_size (nodes g) st)", goal_cases)
  case (2 g src dst blocked best prev heap x c rest cost node)
  then show ?case using heap_pop_some [of heap] by (auto simp: search_size_def)
next
  case (3 g src dst blocked best prev heap x c rest cost node)
  then have pop: "length heap = Suc (length rest)" using heap_pop_some [of heap] by auto
  have "search_size (nodes g) (fold (relax blocked dst cost rest) (adj g cost) (best, prev, node)) \<le>
      search_size (nodes g) (best, prev, node)" for cost rest node
    by (rule fold_relax_size [OF nodes_finite adj_targets])
  then show ?case using pop by (fastforce simp: search_size_def intro: le_less_trans)
qed simp

declare search.simps [simp del]

definition shortest_path_avoiding :: "'n graph \<Rightarrow> 'n \<Rightarrow> 'n \<Rightarrow> 'n set \<Rightarrow> 'n path option option" where
  "shortest_path_avoiding g src dst blocked =
     search g src dst blocked ([src \<mapsto> 0], Map.empty, [(0, src)])"

subsection \<open>Walks\<close>

text \<open>\<open>walk g blocked dst u vs c\<close>: from \<open>u\<close> the links lead through the nodes \<open>vs\<close>, at a total cost of
  \<open>c\<close>, and only \<open>dst\<close> may be a blocked node.\<close>

inductive walk :: "'n graph \<Rightarrow> 'n set \<Rightarrow> 'n \<Rightarrow> 'n \<Rightarrow> 'n list \<Rightarrow> nat \<Rightarrow> bool" for g blocked dst where
  walk_nil: "walk g blocked dst u [] 0"
| walk_step: "(v, w) \<in> set (adj g u) \<Longrightarrow> v = dst \<or> v \<notin> blocked \<Longrightarrow> walk g blocked dst v vs c \<Longrightarrow>
    walk g blocked dst u (v # vs) (w + c)"

inductive_cases walk_consE: "walk g blocked dst u (v # vs) c"
inductive_simps walk_nil_simps [simp]: "walk g blocked dst u [] c"

lemma walk_snoc:
  "walk g blocked dst u vs c \<Longrightarrow> (v, w) \<in> set (adj g (last (u # vs))) \<Longrightarrow> v = dst \<or> v \<notin> blocked \<Longrightarrow>
   walk g blocked dst u (vs @ [v]) (c + w)"
proof (induction u vs c rule: walk.induct)
  case (walk_nil u)
  then show ?case using walk.walk_step [OF _ _ walk.walk_nil, of v w g u dst blocked] by simp
next
  case (walk_step v' w' u vs c)
  then have "walk g blocked dst v' (vs @ [v]) (c + w)" by simp
  then show ?case using walk.walk_step [OF walk_step(1,2)] by (metis add.assoc append_Cons)
qed

lemma metric_add_min: "metric_add (min u32_max a) b = min u32_max (a + b)"
  by (auto simp: metric_add_def sat_add32_def min_def)

subsection \<open>The invariant of the search\<close>

text \<open>\<open>S\<close> holds the nodes whose links have been followed, in that order, \<open>c\<close> is the cost of the
  last of them.\<close>

definition dj_core :: "'n graph \<Rightarrow> 'n \<Rightarrow> 'n \<Rightarrow> 'n set \<Rightarrow> 'n list \<Rightarrow> nat \<Rightarrow> 'n search_state \<Rightarrow> bool" where
  "dj_core g src dst blocked S c st \<longleftrightarrow> (case st of (best, prev, heap) \<Rightarrow>
     best src = Some 0 \<and> prev src = None \<and> distinct S \<and> dst \<notin> set S \<and>
     (\<forall>n k. best n = Some k \<longrightarrow> k \<le> u32_max \<and> (n \<in> set S \<or> (k, n) \<in> set heap) \<and>
        (n \<noteq> src \<longrightarrow> prev n \<noteq> None)) \<and>
     (\<forall>k n. (k, n) \<in> set heap \<longrightarrow> c \<le> k \<and> (\<exists>k' \<le> k. best n = Some k')) \<and>
     (\<forall>n \<in> set S. \<exists>k \<le> c. best n = Some k) \<and>
     (\<forall>n p. prev n = Some p \<longrightarrow> p \<in> set S \<and> n \<noteq> src \<and> (n = dst \<or> n \<notin> blocked) \<and>
        (\<exists>w k. (n, w) \<in> set (adj g p) \<and> best p = Some k \<and> best n = Some (metric_add k w))) \<and>
     (\<forall>i < length S. \<forall>p. prev (S ! i) = Some p \<longrightarrow> (\<exists>j < i. S ! j = p)))"

lemma dj_coreD:
  assumes "dj_core g src dst blocked S c (best, prev, heap)"
  shows "best src = Some 0" "prev src = None" "distinct S" "dst \<notin> set S"
    "\<forall>n k. best n = Some k \<longrightarrow> k \<le> u32_max \<and> (n \<in> set S \<or> (k, n) \<in> set heap) \<and>
       (n \<noteq> src \<longrightarrow> prev n \<noteq> None)"
    "\<forall>k n. (k, n) \<in> set heap \<longrightarrow> c \<le> k \<and> (\<exists>k' \<le> k. best n = Some k')"
    "\<forall>n \<in> set S. \<exists>k \<le> c. best n = Some k"
    "\<forall>n p. prev n = Some p \<longrightarrow> p \<in> set S \<and> n \<noteq> src \<and> (n = dst \<or> n \<notin> blocked) \<and>
       (\<exists>w k. (n, w) \<in> set (adj g p) \<and> best p = Some k \<and> best n = Some (metric_add k w))"
    "\<forall>i < length S. \<forall>p. prev (S ! i) = Some p \<longrightarrow> (\<exists>j < i. S ! j = p)"
  using assms unfolding dj_core_def prod.case by - (elim conjE, assumption)+

text \<open>The links of \<open>m\<close> have been followed.\<close>

definition followed :: "'n graph \<Rightarrow> 'n \<Rightarrow> 'n set \<Rightarrow> 'n \<Rightarrow> ('n \<times> nat) set \<Rightarrow> ('n \<Rightarrow> nat option) \<Rightarrow> bool" where
  "followed g dst blocked m es best \<longleftrightarrow>
     (\<forall>v w. (v, w) \<in> es \<longrightarrow> v = dst \<or> v \<notin> blocked \<longrightarrow>
        (\<exists>k kv. best m = Some k \<and> best v = Some kv \<and> kv \<le> metric_add k w))"

lemma relax_core:
  assumes core: "dj_core g src dst blocked S c (best, prev, heap)"
    and n: "n \<in> set S" "best n = Some c" and e: "(v, w) \<in> set (adj g n)"
    and r: "relax blocked dst n c (v, w) (best, prev, heap) = (best', prev', heap')"
  shows "dj_core g src dst blocked S c (best', prev', heap')"
    and "\<And>m. m \<in> set S \<Longrightarrow> best' m = best m"
    and "\<And>m k. best m = Some k \<Longrightarrow> \<exists>k' \<le> k. best' m = Some k'"
    and "followed g dst blocked n {(v, w)} best'"
proof -
  have le: "c \<le> u32_max" using core n unfolding dj_core_def by fastforce
  then have up: "c \<le> metric_add c w" by (simp add: metric_add_def sat_add32_def)
  have settled: "\<exists>k \<le> c. best m = Some k" if "m \<in> set S" for m
    using core that unfolding dj_core_def by blast
  let ?same = "(v \<noteq> dst \<and> v \<in> blocked) \<or> (\<exists>k. best v = Some k \<and> k \<le> metric_add c w)"
  have "dj_core g src dst blocked S c (best', prev', heap') \<and> (\<forall>m \<in> set S. best' m = best m) \<and>
    (\<forall>m k. best m = Some k \<longrightarrow> (\<exists>k' \<le> k. best' m = Some k')) \<and> followed g dst blocked n {(v, w)} best'"
  proof (cases ?same)
    case True
    then have "relax blocked dst n c (v, w) (best, prev, heap) = (best, prev, heap)"
      by (auto simp: relax_def Let_def)
    then have [simp]: "best' = best" "prev' = prev" "heap' = heap" using r by simp_all
    show ?thesis using core n True by (auto simp: followed_def)
  next
    case False
    then have ok: "v = dst \<or> v \<notin> blocked" and better: "\<And>k. best v = Some k \<Longrightarrow> metric_add c w < k" by force+
    then have new: "best' = best(v \<mapsto> metric_add c w)" "prev' = prev(v \<mapsto> n)"
      "heap' = heap @ [(metric_add c w, v)]"
      using r by (auto simp: relax_def Let_def split: option.splits)
    have v: "v \<notin> set S" using settled [of v] better up by fastforce
    have src: "v \<noteq> src" using core better [of 0] unfolding dj_core_def by auto
    have vn: "v \<noteq> n" using v n(1) by blast
    have parents: "p \<noteq> v" if "prev m = Some p" for m p
      using core that v unfolding dj_core_def by blast
    have bound: "metric_add c w \<le> u32_max" by (simp add: metric_add_def sat_add32_def)
    have "dj_core g src dst blocked S c (best', prev', heap')"
      unfolding dj_core_def prod.case
    proof (intro conjI)
      show "best' src = Some 0" "prev' src = None" "distinct S" "dst \<notin> set S"
        using core src new unfolding dj_core_def by auto
      show "\<forall>m k. best' m = Some k \<longrightarrow> k \<le> u32_max \<and> (m \<in> set S \<or> (k, m) \<in> set heap') \<and>
          (m \<noteq> src \<longrightarrow> prev' m \<noteq> None)"
        using core bound unfolding new dj_core_def by auto
      show "\<forall>k m. (k, m) \<in> set heap' \<longrightarrow> c \<le> k \<and> (\<exists>k' \<le> k. best' m = Some k')"
      proof (intro allI impI conjI)
        fix k m assume km: "(k, m) \<in> set heap'"
        show "c \<le> k" using core up km unfolding new dj_core_def by auto
        show "\<exists>k' \<le> k. best' m = Some k'"
        proof (cases "m = v")
          case True
          then have "(k, m) = (metric_add c w, v) \<or> (\<exists>k' \<le> k. best v = Some k')"
            using core km unfolding new dj_core_def by auto
          then show ?thesis using better True by (auto simp: new dest: less_imp_le)
        next
          case False
          then show ?thesis using core km unfolding new dj_core_def by auto
        qed
      qed
      show "\<forall>m \<in> set S. \<exists>k \<le> c. best' m = Some k" using settled v unfolding new by auto
      show "\<forall>m p. prev' m = Some p \<longrightarrow> p \<in> set S \<and> m \<noteq> src \<and> (m = dst \<or> m \<notin> blocked) \<and>
          (\<exists>w k. (m, w) \<in> set (adj g p) \<and> best' p = Some k \<and> best' m = Some (metric_add k w))"
      proof (intro allI impI)
        fix m p assume p: "prev' m = Some p"
        show "p \<in> set S \<and> m \<noteq> src \<and> (m = dst \<or> m \<notin> blocked) \<and>
          (\<exists>w k. (m, w) \<in> set (adj g p) \<and> best' p = Some k \<and> best' m = Some (metric_add k w))"
        proof (cases "m = v")
          case True
          then show ?thesis using p n e src ok vn unfolding new by auto
        next
          case False
          then have "prev m = Some p" using p by (simp add: new)
          then show ?thesis using core parents [of m p] False unfolding new dj_core_def by force
        qed
      qed
      show "\<forall>i < length S. \<forall>p. prev' (S ! i) = Some p \<longrightarrow> (\<exists>j < i. S ! j = p)"
        using core v unfolding new dj_core_def by (auto simp: in_set_conv_nth)
    qed
    moreover have "\<forall>m \<in> set S. best' m = best m" using v by (auto simp: new)
    moreover have "\<forall>m k. best m = Some k \<longrightarrow> (\<exists>k' \<le> k. best' m = Some k')"
      using better by (auto simp: new intro: less_imp_le)
    moreover have "followed g dst blocked n {(v, w)} best'" using n vn by (simp add: followed_def new)
    ultimately show ?thesis by blast
  qed
  then show "dj_core g src dst blocked S c (best', prev', heap')"
    "\<And>m. m \<in> set S \<Longrightarrow> best' m = best m"
    "\<And>m k. best m = Some k \<Longrightarrow> \<exists>k' \<le> k. best' m = Some k'"
    "followed g dst blocked n {(v, w)} best'" by blast+
qed

lemma followed_mono:
  assumes "followed g dst blocked m es best" "best' m = best m"
    and "\<And>v k. best v = Some k \<Longrightarrow> \<exists>k' \<le> k. best' v = Some k'"
  shows "followed g dst blocked m es best'"
  using assms unfolding followed_def by (metis order_trans)

lemma fold_relax_core:
  assumes "dj_core g src dst blocked S c st" "n \<in> set S" "fst st n = Some c" "set es \<subseteq> set (adj g n)"
    and "st' = fold (relax blocked dst n c) es st"
  shows "dj_core g src dst blocked S c st' \<and> (\<forall>m \<in> set S. fst st' m = fst st m) \<and>
    (\<forall>m k. fst st m = Some k \<longrightarrow> (\<exists>k' \<le> k. fst st' m = Some k')) \<and>
    followed g dst blocked n (set es) (fst st')"
  using assms
proof (induction es arbitrary: st)
  case Nil
  then show ?case by (auto simp: followed_def)
next
  case (Cons e es)
  obtain v w where e: "e = (v, w)" by (cases e)
  obtain best prev heap where st: "st = (best, prev, heap)" by (cases st) auto
  obtain best1 prev1 heap1 where r: "relax blocked dst n c (v, w) (best, prev, heap) = (best1, prev1, heap1)"
    by (cases "relax blocked dst n c (v, w) (best, prev, heap)") auto
  have step: "dj_core g src dst blocked S c (best1, prev1, heap1)" "\<And>m. m \<in> set S \<Longrightarrow> best1 m = best m"
    "\<And>m k. best m = Some k \<Longrightarrow> \<exists>k' \<le> k. best1 m = Some k'" "followed g dst blocked n {(v, w)} best1"
    using relax_core [OF _ _ _ _ r, of g src S] Cons.prems e st by auto
  have "st' = fold (relax blocked dst n c) es (best1, prev1, heap1)"
    using Cons.prems(5) r by (simp add: e st)
  from Cons.IH [OF step(1) Cons.prems(2) _ _ this] step(2) [OF Cons.prems(2)] Cons.prems(3,4) st
  have rest: "dj_core g src dst blocked S c st'" "\<And>m. m \<in> set S \<Longrightarrow> fst st' m = best1 m"
    "\<And>m k. best1 m = Some k \<Longrightarrow> \<exists>k' \<le> k. fst st' m = Some k'" "followed g dst blocked n (set es) (fst st')"
    by auto
  have "followed g dst blocked n {(v, w)} (fst st')"
    by (rule followed_mono [OF step(4)]) (use rest(2) [OF Cons.prems(2)] rest(3) in auto)
  then have "followed g dst blocked n (set (e # es)) (fst st')"
    using rest(4) by (auto simp: followed_def e)
  moreover have "\<exists>k' \<le> k. fst st' m = Some k'" if "best m = Some k" for m k
    using step(3) [OF that] rest(3) by (meson order_trans)
  ultimately show ?case using rest(1,2) step(2) st by simp
qed


subsection \<open>Tracing the route back\<close>

lemma walk_back_settled:
  assumes core: "dj_core g src dst blocked S c (best, prev, heap)"
    and "i < length S" "S ! i \<noteq> src"
  shows "\<exists>hs s. (\<forall>acc. walk_back prev src (S ! i) (S ! i # acc) = Some (hs @ acc)) \<and>
    walk g blocked dst src hs s \<and> hs \<noteq> [] \<and> last hs = S ! i \<and> best (S ! i) = Some (min u32_max s) \<and>
    distinct hs \<and> set hs \<subseteq> set (take (Suc i) S) \<and> src \<notin> set hs"
  using assms(2,3)
proof (induction i rule: less_induct)
  case (less i)
  let ?m = "S ! i"
  have "?m \<in> set S" using less.prems(1) by simp
  then have "best ?m \<noteq> None" using core unfolding dj_core_def by fastforce
  then obtain p where p: "prev ?m = Some p" using core less.prems(2) unfolding dj_core_def by fastforce
  then obtain j where j: "j < i" "S ! j = p" using core less.prems(1) unfolding dj_core_def by blast
  obtain w k where w: "(?m, w) \<in> set (adj g p)" "best p = Some k" "best ?m = Some (metric_add k w)"
    and ok: "?m = dst \<or> ?m \<notin> blocked"
    using core p unfolding dj_core_def by blast
  have unfold: "walk_back prev src ?m (?m # acc) =
      (if p = src then Some (?m # acc) else walk_back prev src p (p # ?m # acc))" for acc
    by (subst walk_back.simps) (simp add: p)
  have here: "?m \<in> set (take (Suc i) S)" using less.prems(1) by (simp add: take_Suc_conv_app_nth)
  show ?case
  proof (cases "p = src")
    case True
    then have "k = 0" using w(2) core unfolding dj_core_def by auto
    then have "best ?m = Some (min u32_max (w + 0))" using w(3) by (simp add: metric_add_def sat_add32_def)
    moreover have "walk g blocked dst src [?m] (w + 0)"
      using walk_step [OF w(1) ok walk_nil] True by simp
    ultimately show ?thesis
      using unfold True here less.prems(2) by (intro exI [of _ "[?m]"] exI [of _ "w + 0"]) simp
  next
    case False
    obtain hs s where hs: "\<And>acc. walk_back prev src p (p # acc) = Some (hs @ acc)"
      "walk g blocked dst src hs s" "hs \<noteq> []" "last hs = p" "best p = Some (min u32_max s)"
      "distinct hs" "set hs \<subseteq> set (take (Suc j) S)" "src \<notin> set hs"
      using less.IH [OF j(1)] j less.prems(1) False by auto
    have "distinct S" using core unfolding dj_core_def by simp
    then have new: "?m \<notin> set (take i S)" using less.prems(1)
      by (metis distinct_take id_take_nth_drop not_distinct_conv_prefix distinct_append disjoint_insert(1) list.set(2))
    have sub: "set (take (Suc j) S) \<subseteq> set (take i S)" using j(1) by (intro set_take_subset_set_take) simp
    have "k = min u32_max s" using w(2) hs(5) by simp
    then have "best ?m = Some (min u32_max (s + w))" using w(3) by (simp add: metric_add_min)
    moreover have "walk g blocked dst src (hs @ [?m]) (s + w)"
      using walk_snoc [OF hs(2), of ?m w] w(1) ok hs(3,4) by simp
    moreover have "set (hs @ [?m]) \<subseteq> set (take (Suc i) S)"
      using hs(7) sub here set_take_subset_set_take [of i "Suc i" S] by auto
    ultimately show ?thesis
      using unfold False hs new sub less.prems(2)
      by (intro exI [of _ "hs @ [?m]"] exI [of _ "s + w"]) auto
  qed
qed

lemma reconstruct_found:
  assumes core: "dj_core g src dst blocked S c (best, prev, heap)" and "src \<noteq> dst" "best dst = Some k"
  shows "\<exists>hs s. reconstruct prev src dst = Some hs \<and> walk g blocked dst src hs s \<and> hs \<noteq> [] \<and>
    last hs = dst \<and> k = min u32_max s \<and> distinct (src # hs)"
proof -
  obtain p where p: "prev dst = Some p" using core assms(2,3) unfolding dj_core_def by fastforce
  then obtain w kp where w: "(dst, w) \<in> set (adj g p)" "best p = Some kp" "best dst = Some (metric_add kp w)"
    and S: "p \<in> set S"
    using core unfolding dj_core_def by blast
  have unfold: "reconstruct prev src dst = (if p = src then Some [dst] else walk_back prev src p [p, dst])"
    unfolding reconstruct_def by (subst walk_back.simps) (simp add: p)
  show ?thesis
  proof (cases "p = src")
    case True
    then have "kp = 0" using w(2) core unfolding dj_core_def by auto
    then have "k = min u32_max (w + 0)" using w(3) assms(3) by (simp add: metric_add_def sat_add32_def)
    moreover have "walk g blocked dst src [dst] (w + 0)" using walk_step [OF w(1) _ walk_nil] True by simp
    ultimately show ?thesis using unfold True assms(2)
      by (intro exI [of _ "[dst]"] exI [of _ "w + 0"]) simp
  next
    case False
    obtain i where i: "i < length S" "S ! i = p" using S by (auto simp: in_set_conv_nth)
    obtain hs s where hs: "\<And>acc. walk_back prev src p (p # acc) = Some (hs @ acc)"
      "walk g blocked dst src hs s" "hs \<noteq> []" "last hs = p" "best p = Some (min u32_max s)"
      "distinct hs" "set hs \<subseteq> set (take (Suc i) S)" "src \<notin> set hs"
      using walk_back_settled [OF core i(1)] i(2) False by auto
    have "dst \<notin> set hs" using core hs(7) set_take_subset [of "Suc i" S] unfolding dj_core_def by auto
    moreover have "k = metric_add kp w" "kp = min u32_max s" using w assms(3) hs(5) by simp_all
    then have "k = min u32_max (s + w)" by (simp only: metric_add_min)
    moreover have "walk g blocked dst src (hs @ [dst]) (s + w)"
      using walk_snoc [OF hs(2), of dst w] w(1) hs(3,4) by simp
    ultimately show ?thesis using unfold False hs assms(2)
      by (intro exI [of _ "hs @ [dst]"] exI [of _ "s + w"]) auto
  qed
qed

subsection \<open>The search is optimal\<close>

lemma frontier:
  assumes core: "dj_core g src dst blocked S c (best, prev, heap)"
    and fol: "\<And>m. m \<in> set S \<Longrightarrow> followed g dst blocked m (set (adj g m)) best"
  shows "walk g blocked dst u ws s \<Longrightarrow> last (u # ws) = dst \<Longrightarrow> u \<in> set S \<Longrightarrow> best u = Some k \<Longrightarrow>
    \<exists>kv v. (kv, v) \<in> set heap \<and> kv \<le> min u32_max (k + s)"
proof (induction u ws s arbitrary: k rule: walk.induct)
  case (walk_nil u)
  then show ?case using core unfolding dj_core_def by simp
next
  case (walk_step v w u vs s)
  then obtain kv where kv: "best v = Some kv" "kv \<le> metric_add k w"
    using fol [OF walk_step.prems(2)] unfolding followed_def by fastforce
  show ?case
  proof (cases "v \<in> set S")
    case True
    then obtain k' v' where "(k', v') \<in> set heap" "k' \<le> min u32_max (kv + s)"
      using walk_step.IH kv(1) walk_step.prems(1) by auto
    moreover have "min u32_max (kv + s) \<le> min u32_max (k + (w + s))"
      using kv(2) unfolding metric_add_def sat_add32_def by linarith
    ultimately show ?thesis by (meson order_trans)
  next
    case False
    then have "(kv, v) \<in> set heap" using core kv(1) unfolding dj_core_def by blast
    moreover have "kv \<le> min u32_max (k + (w + s))"
      using kv(2) unfolding metric_add_def sat_add32_def by linarith
    ultimately show ?thesis by blast
  qed
qed

lemma frontier_src:
  assumes core: "dj_core g src dst blocked S c (best, prev, heap)"
    and fol: "\<And>m. m \<in> set S \<Longrightarrow> followed g dst blocked m (set (adj g m)) best"
    and "walk g blocked dst src ws s" "last (src # ws) = dst"
  shows "\<exists>kv v. (kv, v) \<in> set heap \<and> kv \<le> min u32_max s"
proof -
  have src: "best src = Some 0" using core unfolding dj_core_def by simp
  show ?thesis
  proof (cases "src \<in> set S")
    case True
    then show ?thesis using frontier [OF core fol assms(3,4) True src] by simp
  next
    case False
    then have "(0, src) \<in> set heap" using core src unfolding dj_core_def by blast
    then show ?thesis by blast
  qed
qed

definition best_route :: "'n graph \<Rightarrow> 'n \<Rightarrow> 'n \<Rightarrow> 'n set \<Rightarrow> 'n path option \<Rightarrow> bool" where
  "best_route g src dst blocked r \<longleftrightarrow>
     (case r of
        None \<Rightarrow> \<forall>ws s. walk g blocked dst src ws s \<longrightarrow> last (src # ws) \<noteq> dst
      | Some p \<Rightarrow> pa_hops p \<noteq> [] \<and> last (pa_hops p) = dst \<and> distinct (src # pa_hops p) \<and>
          (\<exists>s. walk g blocked dst src (pa_hops p) s \<and> pa_cost p = min u32_max s) \<and>
          (\<forall>ws s. walk g blocked dst src ws s \<longrightarrow> last (src # ws) = dst \<longrightarrow> pa_cost p \<le> min u32_max s))"

lemma drop_core:
  assumes core: "dj_core g src dst blocked S c (best, prev, heap)"
    and pop: "set heap = insert (cost, node) (set rest)"
    and known: "best node = Some known" "known < cost"
  shows "dj_core g src dst blocked S c (best, prev, rest)"
proof -
  have rest: "(k, n) \<in> set rest" if "best n = Some k" "(k, n) \<in> set heap" for n k
    using that pop known by auto
  show ?thesis unfolding dj_core_def prod.case
  proof (intro conjI)
    show "\<forall>n k. best n = Some k \<longrightarrow> k \<le> u32_max \<and> (n \<in> set S \<or> (k, n) \<in> set rest) \<and>
        (n \<noteq> src \<longrightarrow> prev n \<noteq> None)"
      using dj_coreD(5) [OF core] rest by blast
    show "\<forall>k n. (k, n) \<in> set rest \<longrightarrow> c \<le> k \<and> (\<exists>k' \<le> k. best n = Some k')"
      using core pop unfolding dj_core_def by auto
  qed (fact dj_coreD [OF core])+
qed

lemma settle_core:
  assumes core: "dj_core g src dst blocked S c (best, prev, heap)"
    and pop: "set heap = insert (cost, node) (set rest)" "\<And>k v. (k, v) \<in> set heap \<Longrightarrow> cost \<le> k"
    and known: "best node = Some known" "node \<noteq> dst" "known = cost" and cost: "c \<le> cost"
  shows "dj_core g src dst blocked (if node \<in> set S then S else S @ [node]) cost (best, prev, rest)"
proof -
  let ?S = "if node \<in> set S then S else S @ [node]"
  have S: "set ?S = insert node (set S)" by auto
  have order: "\<exists>j < i. ?S ! j = p" if i: "i < length ?S" and p: "prev (?S ! i) = Some p" for i p
  proof (cases "i < length S")
    case True
    then have "?S ! i = S ! i" by (simp add: nth_append)
    then obtain j where "j < i" "S ! j = p" using dj_coreD(9) [OF core] True p by metis
    then show ?thesis using True by (intro exI [of _ j]) (simp add: nth_append)
  next
    case False
    then have new: "node \<notin> set S" "i = length S" using i by (auto split: if_splits)
    have "p \<in> set S" using core p unfolding dj_core_def by blast
    then obtain j where "j < length S" "S ! j = p" by (auto simp: in_set_conv_nth)
    then show ?thesis using new by (intro exI [of _ j]) (simp add: nth_append)
  qed
  show ?thesis unfolding dj_core_def prod.case S
  proof (intro conjI)
    show "best src = Some 0" "prev src = None" "distinct ?S" "dst \<notin> insert node (set S)"
      using core known(2) unfolding dj_core_def by auto
    show "\<forall>n k. best n = Some k \<longrightarrow> k \<le> u32_max \<and> (n \<in> insert node (set S) \<or> (k, n) \<in> set rest) \<and>
        (n \<noteq> src \<longrightarrow> prev n \<noteq> None)"
      using core pop(1) unfolding dj_core_def by auto
    show "\<forall>k n. (k, n) \<in> set rest \<longrightarrow> cost \<le> k \<and> (\<exists>k' \<le> k. best n = Some k')"
      using core pop unfolding dj_core_def by auto
    show "\<forall>n \<in> insert node (set S). \<exists>k \<le> cost. best n = Some k"
      using core known cost unfolding dj_core_def by (auto intro: order_trans)
    show "\<forall>n p. prev n = Some p \<longrightarrow> p \<in> insert node (set S) \<and> n \<noteq> src \<and> (n = dst \<or> n \<notin> blocked) \<and>
        (\<exists>w k. (n, w) \<in> set (adj g p) \<and> best p = Some k \<and> best n = Some (metric_add k w))"
      using dj_coreD(8) [OF core] by auto
    show "\<forall>i < length ?S. \<forall>p. prev (?S ! i) = Some p \<longrightarrow> (\<exists>j < i. ?S ! j = p)" using order by blast
  qed
qed

lemma search_best:
  assumes "src \<noteq> dst" "dj_core g src dst blocked S c st"
    and "\<And>m. m \<in> set S \<Longrightarrow> followed g dst blocked m (set (adj g m)) (fst st)"
  shows "\<exists>r. search g src dst blocked st = Some r \<and> best_route g src dst blocked r"
  using assms
proof (induction g src dst blocked st arbitrary: S c rule: search.induct)
  case (1 g src dst blocked best prev heap)
  note core = "1.prems"(2) and fol = "1.prems"(3) [simplified]
  show ?case
  proof (cases "heap_pop heap")
    case None
    then have "heap = []" by (simp add: heap_pop_none)
    have "last (src # ws) \<noteq> dst" if "walk g blocked dst src ws s" for ws s
      using frontier_src [OF core fol that] \<open>heap = []\<close> by auto
    then have "best_route g src dst blocked None" by (simp add: best_route_def)
    then show ?thesis using None by (subst search.simps) simp
  next
    case (Some mr)
    obtain cost node rest where mr: "mr = ((cost, node), rest)" by (cases mr) auto
    have pop: "(cost, node) \<in> set heap" "set heap = insert (cost, node) (set rest)"
      "\<And>k v. (k, v) \<in> set heap \<Longrightarrow> cost \<le> k"
      using heap_pop_some [OF Some [unfolded mr]] by fastforce+
    obtain known where known: "best node = Some known" "known \<le> cost"
      using core pop(1) unfolding dj_core_def by blast
    have cost: "c \<le> cost" using core pop(1) unfolding dj_core_def by blast
    consider "node = dst" | "node \<noteq> dst" "known < cost" | "node \<noteq> dst" "known = cost"
      using known(2) by linarith
    then show ?thesis
    proof cases
      case 1
      have "dst \<notin> set S" using core unfolding dj_core_def by simp
      then have "(known, node) \<in> set heap" using core known(1) 1 unfolding dj_core_def by blast
      then have "known = cost" using pop(3) known(2) by fastforce
      then have "best dst = Some cost" using known(1) 1 by simp
      then obtain hs s where hs: "reconstruct prev src dst = Some hs" "walk g blocked dst src hs s"
        "hs \<noteq> []" "last hs = dst" "cost = min u32_max s" "distinct (src # hs)"
        using reconstruct_found [OF core "1.prems"(1)] by blast
      have "cost \<le> min u32_max t" if "walk g blocked dst src ws t" "last (src # ws) = dst" for ws t
        using frontier_src [OF core fol that] pop(3) by (meson order_trans)
      then have "best_route g src dst blocked (Some \<lparr>pa_hops = hs, pa_cost = cost\<rparr>)"
        using hs by (auto simp: best_route_def)
      then show ?thesis using Some mr 1 hs(1) by (subst search.simps) simp
    next
      case 2
      have "dj_core g src dst blocked S c (best, prev, rest)"
        by (rule drop_core [OF core pop(2) known(1) 2(2)])
      from "1.IH"(1) [OF Some mr [symmetric] refl 2(1) _ "1.prems"(1) this] "1.prems"(3) known(1) 2(2)
      obtain r where "search g src dst blocked (best, prev, rest) = Some r" "best_route g src dst blocked r"
        by auto
      then show ?thesis using Some mr 2 known(1) by (subst search.simps) simp
    next
      case 3
      define S' where "S' = (if node \<in> set S then S else S @ [node])"
      have S': "set S' = insert node (set S)" by (auto simp: S'_def)
      have core': "dj_core g src dst blocked S' cost (best, prev, rest)"
        using settle_core [OF core pop(2,3) known(1) 3 cost] by (simp add: S'_def)
      define st' where "st' = fold (relax blocked dst node cost) (adj g node) (best, prev, rest)"
      have relaxed: "dj_core g src dst blocked S' cost st'" "\<And>m. m \<in> set S' \<Longrightarrow> fst st' m = best m"
        "\<And>m k. best m = Some k \<Longrightarrow> \<exists>k' \<le> k. fst st' m = Some k'"
        "followed g dst blocked node (set (adj g node)) (fst st')"
        using fold_relax_core [OF core' _ _ _ st'_def] S' known(1) 3(2) by auto
      have fol': "followed g dst blocked m (set (adj g m)) (fst st')" if "m \<in> set S'" for m
      proof (cases "m = node")
        case False
        then have m: "m \<in> set S" using that S' by simp
        show ?thesis by (rule followed_mono [OF fol [OF m]]) (use relaxed(2,3) that in auto)
      qed (use relaxed(4) in simp)
      from "1.IH"(2) [OF Some mr [symmetric] refl 3(1) _ "1.prems"(1) relaxed(1) [unfolded st'_def]] fol' known(1) 3(2)
      obtain r where "search g src dst blocked st' = Some r" "best_route g src dst blocked r"
        by (auto simp: st'_def)
      then show ?thesis using Some mr 3 known(1) by (subst search.simps) (simp add: st'_def)
    qed
  qed
qed

lemma search_optimal:
  assumes "src \<noteq> dst"
  shows "\<exists>r. shortest_path_avoiding g src dst blocked = Some r \<and> best_route g src dst blocked r"
proof -
  have "dj_core g src dst blocked [] 0 ([src \<mapsto> 0], Map.empty, [(0, src)])"
    by (simp add: dj_core_def)
  moreover have "followed g dst blocked m (set (adj g m)) b" if "m \<in> set []" for m b using that by simp
  ultimately show ?thesis unfolding shortest_path_avoiding_def by (rule search_best [OF assms])
qed

subsection \<open>Disjoint paths\<close>

text \<open>\<open>None\<close> is a search that does not return.\<close>

fun disjoint_loop :: "'n graph \<Rightarrow> 'n \<Rightarrow> 'n \<Rightarrow> 'n set \<Rightarrow> nat \<Rightarrow> 'n path list option" where
  "disjoint_loop g src dst blocked 0 = Some []"
| "disjoint_loop g src dst blocked (Suc n) =
     (case shortest_path_avoiding g src dst blocked of
        None \<Rightarrow> None
      | Some None \<Rightarrow> Some []
      | Some (Some p) \<Rightarrow>
          let interior = drop 1 (rev (pa_hops p)) in
          if interior = [] then Some [p]
          else map_option (Cons p) (disjoint_loop g src dst (blocked \<union> set interior) n))"

definition disjoint_paths :: "'n graph \<Rightarrow> 'n \<Rightarrow> 'n \<Rightarrow> nat \<Rightarrow> 'n path list option" where
  "disjoint_paths g src dst max_paths = disjoint_loop g src dst {} max_paths"

text \<open>The nodes between the ends.\<close>

definition interior :: "'n path \<Rightarrow> 'n set" where
  "interior p = set (butlast (pa_hops p))"

lemma interior_rev: "set (drop 1 (rev hops)) = set (butlast hops)"
  by (cases hops rule: rev_cases) auto

lemma walk_unblock:
  "walk g blocked dst u vs c \<Longrightarrow> B \<subseteq> blocked \<Longrightarrow> walk g B dst u vs c"
  by (induction u vs c rule: walk.induct) (auto intro: walk.intros)

lemma walk_avoids:
  "walk g blocked dst u vs c \<Longrightarrow> v \<in> set vs \<Longrightarrow> v \<noteq> dst \<Longrightarrow> v \<notin> blocked"
  by (induction u vs c rule: walk.induct) auto

definition good_path :: "'n graph \<Rightarrow> 'n \<Rightarrow> 'n \<Rightarrow> 'n path \<Rightarrow> bool" where
  "good_path g src dst p \<longleftrightarrow> pa_hops p \<noteq> [] \<and> last (pa_hops p) = dst \<and> distinct (src # pa_hops p) \<and>
     (\<exists>s. walk g {} dst src (pa_hops p) s \<and> pa_cost p = min u32_max s)"

lemma best_route_good:
  assumes "best_route g src dst blocked (Some p)"
  shows "good_path g src dst p \<and> interior p \<inter> blocked = {}"
proof -
  obtain s where p: "pa_hops p \<noteq> []" "last (pa_hops p) = dst" "distinct (src # pa_hops p)"
    "walk g blocked dst src (pa_hops p) s" "pa_cost p = min u32_max s"
    using assms unfolding best_route_def by auto
  have "v \<notin> blocked" if "v \<in> interior p" for v
  proof -
    obtain bs where "pa_hops p = bs @ [dst]" using p(1,2) by (metis append_butlast_last_id)
    then have "v \<noteq> dst" "v \<in> set (pa_hops p)" using that p(3) by (auto simp: interior_def)
    then show ?thesis using walk_avoids [OF p(4)] by blast
  qed
  then show ?thesis using p walk_unblock [OF p(4)] unfolding good_path_def by blast
qed

lemma disjoint_loop_spec:
  assumes "src \<noteq> dst"
  shows "\<exists>ps. disjoint_loop g src dst blocked k = Some ps \<and> length ps \<le> k \<and>
    (\<forall>p \<in> set ps. good_path g src dst p \<and> interior p \<inter> blocked = {}) \<and>
    sorted_wrt (\<lambda>p q. interior p \<inter> interior q = {} \<and> pa_cost p \<le> pa_cost q) ps \<and>
    (ps \<noteq> [] \<longrightarrow> best_route g src dst blocked (Some (hd ps))) \<and>
    (length ps = k \<or> (ps \<noteq> [] \<and> interior (last ps) = {}) \<or>
     best_route g src dst (blocked \<union> \<Union>(interior ` set ps)) None)"
proof (induction k arbitrary: blocked)
  case (Suc k)
  obtain r where r: "shortest_path_avoiding g src dst blocked = Some r" "best_route g src dst blocked r"
    using search_optimal [OF assms] by blast
  show ?case
  proof (cases r)
    case None
    then show ?thesis using r by simp
  next
    case (Some p)
    note good = best_route_good [OF r(2) [unfolded Some]]
    show ?thesis
    proof (cases "drop 1 (rev (pa_hops p)) = []")
      case True
      then have "interior p = {}" using interior_rev [of "pa_hops p"] by (simp add: interior_def)
      then show ?thesis using r Some True good by (simp add: Let_def)
    next
      case False
      let ?B = "blocked \<union> interior p"
      have B: "blocked \<union> set (drop 1 (rev (pa_hops p))) = ?B" by (simp only: interior_rev interior_def)
      obtain ps where ps: "disjoint_loop g src dst ?B k = Some ps" "length ps \<le> k"
        "\<forall>q \<in> set ps. good_path g src dst q \<and> interior q \<inter> ?B = {}"
        "sorted_wrt (\<lambda>p q. interior p \<inter> interior q = {} \<and> pa_cost p \<le> pa_cost q) ps"
        "ps \<noteq> [] \<longrightarrow> best_route g src dst ?B (Some (hd ps))"
        "length ps = k \<or> (ps \<noteq> [] \<and> interior (last ps) = {}) \<or>
          best_route g src dst (?B \<union> \<Union>(interior ` set ps)) None"
        using Suc.IH [of ?B] by blast
      have cost: "pa_cost p \<le> pa_cost q" if q: "q \<in> set ps" for q
      proof -
        have hd: "pa_cost (hd ps) \<le> pa_cost q"
          using ps(4) q by (cases ps) auto
        obtain s where "walk g ?B dst src (pa_hops (hd ps)) s" "pa_cost (hd ps) = min u32_max s"
          "last (src # pa_hops (hd ps)) = dst"
          using ps(5) q unfolding best_route_def by fastforce
        then have "pa_cost p \<le> pa_cost (hd ps)"
          using r(2) walk_unblock [of g ?B dst src _ s blocked] unfolding Some best_route_def by auto
        then show ?thesis using hd by simp
      qed
      have run: "disjoint_loop g src dst blocked (Suc k) = Some (p # ps)"
        using r(1) Some False ps(1) B by (simp add: Let_def)
      have "sorted_wrt (\<lambda>p q. interior p \<inter> interior q = {} \<and> pa_cost p \<le> pa_cost q) (p # ps)"
        using ps(3,4) cost by auto
      moreover have "length (p # ps) = Suc k \<or> (p # ps \<noteq> [] \<and> interior (last (p # ps)) = {}) \<or>
          best_route g src dst (blocked \<union> \<Union>(interior ` set (p # ps))) None"
        using ps(6) by (auto simp: Un_assoc)
      ultimately show ?thesis using run ps(2,3) good r(2) Some by auto
    qed
  qed
qed simp

subsection \<open>Properties\<close>

text \<open>C7: Dijkstra's search returns, and what it returns is right: a path without repetition along
  links of the graph through no blocked node, no dearer than any other such walk (costs saturate
  at the largest \<open>u32\<close>), or nothing when there is no walk at all.\<close>

theorem shortest_route:
  assumes "src \<noteq> dst"
  shows "\<exists>r. shortest_path_avoiding g src dst blocked = Some r \<and> best_route g src dst blocked r"
  by (rule search_optimal [OF assms])

definition demo_graph :: "nat graph" where
  "demo_graph = insert_link 0 3 9 (insert_link 2 3 1 (insert_link 1 2 0 (insert_link 0 1 2 [])))"

theorem shortest_route_witness:
  "\<exists>r. shortest_path_avoiding demo_graph 0 3 {} = Some r \<and> best_route demo_graph 0 3 {} r"
  by (rule shortest_route) simp

text \<open>The backup routes: at most as many as asked for, each a real path of the graph without
  repetition, the cheapest first, no two of them with a node between the ends in common; and the
  list is short only when it ends with the direct link or no path avoids the nodes used.\<close>

theorem disjoint_routes:
  assumes "src \<noteq> dst"
  shows "\<exists>ps. disjoint_paths g src dst k = Some ps \<and> length ps \<le> k \<and>
    list_all (good_path g src dst) ps \<and>
    sorted_wrt (\<lambda>p q. interior p \<inter> interior q = {} \<and> pa_cost p \<le> pa_cost q) ps \<and>
    (length ps = k \<or> (ps \<noteq> [] \<and> interior (last ps) = {}) \<or>
     best_route g src dst (\<Union>(interior ` set ps)) None)"
  using disjoint_loop_spec [OF assms, of g "{}" k]
  unfolding disjoint_paths_def list_all_iff by (auto simp del: disjoint_loop.simps)

theorem disjoint_routes_witness:
  "\<exists>ps. disjoint_paths demo_graph 0 3 2 = Some ps \<and> list_all (good_path demo_graph 0 3) ps"
  using disjoint_routes [of "0 :: nat" 3 demo_graph 2] by auto

end
