(* ===== verification/MultihopRoute.thy ===== *)
theory MultihopRoute
  imports MultihopGraph
begin

text \<open>
  Routes and where they come from: \<open>addr.rs\<close> and \<open>topology.rs\<close> of
  \<open>fofoca-iroh-multihop-transport/src\<close>. An \<open>EndpointId\<close> is of any type \<open>'n\<close>; an \<open>EndpointAddr\<close> is an
  id and what it takes to dial it, of any type \<open>'x\<close>. The codec (\<open>postcard\<close>) is a parameter.
\<close>

record ('n, 'x) endpoint_addr =
  ea_id :: 'n
  ea_paths :: 'x

subsection \<open>Routes\<close>

definition MAX_ROUTE_HOPS :: nat where "MAX_ROUTE_HOPS = 8"

record ('n, 'x) route_hop =
  rh_app_id :: 'n
  rh_underlay :: "('n, 'x) endpoint_addr"

type_synonym ('n, 'x) route = "('n, 'x) route_hop list"

definition same_node :: "('n, 'x) route_hop \<Rightarrow> ('n, 'x) route_hop \<Rightarrow> bool" where
  "same_node a b \<longleftrightarrow> ea_id (rh_underlay a) = ea_id (rh_underlay b) \<or> rh_app_id a = rh_app_id b"

definition repeats_a_hop :: "('n, 'x) route_hop list \<Rightarrow> bool" where
  "repeats_a_hop hops =
     list_ex (\<lambda>(index, hop). list_ex (\<lambda>earlier. same_node earlier hop) (take index hops))
       (enumerate 0 hops)"

definition route_singleton :: "('n, 'x) route_hop \<Rightarrow> ('n, 'x) route" where
  "route_singleton hop = [hop]"

definition route_new :: "('n, 'x) route_hop list \<Rightarrow> ('n, 'x) route option" where
  "route_new hops =
     (if hops = [] \<or> length hops > MAX_ROUTE_HOPS then None
      else if repeats_a_hop hops then None
      else Some hops)"

definition hop_at :: "nat \<Rightarrow> ('n, 'x) route \<Rightarrow> ('n, 'x) route_hop option" where
  "hop_at pos r = (if pos < length r then Some (r ! pos) else None)"

text \<open>A custom address is a transport id and opaque bytes \<open>'b\<close>.\<close>

definition MULTIHOP_TRANSPORT_ID :: nat where "MULTIHOP_TRANSPORT_ID = 0x6d68"

definition route_encode :: "(('n, 'x) route_hop list \<Rightarrow> 'b) \<Rightarrow> ('n, 'x) route \<Rightarrow> nat \<times> 'b" where
  "route_encode enc r = (MULTIHOP_TRANSPORT_ID, enc r)"

text \<open>\<open>deserialize\<close> of a route goes through \<open>route_new\<close>.\<close>

definition route_deserialize :: "('b \<Rightarrow> ('n, 'x) route_hop list option) \<Rightarrow> 'b \<Rightarrow> ('n, 'x) route option" where
  "route_deserialize dec b = (case dec b of None \<Rightarrow> None | Some hops \<Rightarrow> route_new hops)"

definition route_decode :: "('b \<Rightarrow> ('n, 'x) route_hop list option) \<Rightarrow> nat \<times> 'b \<Rightarrow> ('n, 'x) route option" where
  "route_decode dec addr =
     (if fst addr \<noteq> MULTIHOP_TRANSPORT_ID then None else route_deserialize dec (snd addr))"

definition reverse_from :: "('n, 'x) route_hop list \<Rightarrow> ('n, 'x) route_hop \<Rightarrow> ('n, 'x) route option" where
  "reverse_from forward source = route_new (drop 1 (rev forward) @ [source])"

text \<open>What \<open>route_new\<close> establishes.\<close>

definition route_ok :: "('n, 'x) route_hop list \<Rightarrow> bool" where
  "route_ok r \<longleftrightarrow> r \<noteq> [] \<and> length r \<le> MAX_ROUTE_HOPS \<and>
     distinct (map (ea_id \<circ> rh_underlay) r) \<and> distinct (map rh_app_id r)"

lemma distinct_earlier: "distinct (map f xs) \<longleftrightarrow> \<not> (\<exists>i < length xs. \<exists>j < i. f (xs ! j) = f (xs ! i))"
proof
  assume "distinct (map f xs)"
  then show "\<not> (\<exists>i < length xs. \<exists>j < i. f (xs ! j) = f (xs ! i))"
    by (auto simp: distinct_conv_nth)
next
  assume early: "\<not> (\<exists>i < length xs. \<exists>j < i. f (xs ! j) = f (xs ! i))"
  have "f (xs ! i) \<noteq> f (xs ! j)" if "i < length xs" "j < length xs" "i \<noteq> j" for i j
    using early that by (metis linorder_neqE_nat)
  then show "distinct (map f xs)" by (simp add: distinct_conv_nth)
qed

lemma repeats_iff:
  "repeats_a_hop hops \<longleftrightarrow> \<not> (distinct (map (ea_id \<circ> rh_underlay) hops) \<and> distinct (map rh_app_id hops))"
proof -
  have "repeats_a_hop hops \<longleftrightarrow> (\<exists>i < length hops. \<exists>j < i. same_node (hops ! j) (hops ! i))"
  proof -
    have "(\<exists>x \<in> set (take i hops). same_node x h) \<longleftrightarrow> (\<exists>j < i. same_node (hops ! j) h)"
      if "i < length hops" for i h
      using that by (force simp: in_set_conv_nth)
    moreover have "repeats_a_hop hops \<longleftrightarrow>
        (\<exists>i < length hops. \<exists>x \<in> set (take i hops). same_node x (hops ! i))"
      unfolding repeats_a_hop_def list_ex_iff by (force simp: in_set_enumerate_eq)
    ultimately show ?thesis by blast
  qed
  also have "\<dots> \<longleftrightarrow> \<not> (distinct (map (ea_id \<circ> rh_underlay) hops) \<and> distinct (map rh_app_id hops))"
    unfolding distinct_earlier same_node_def by auto
  finally show ?thesis .
qed

lemma route_new_some: "route_new hops = Some r \<longleftrightarrow> r = hops \<and> route_ok hops"
  by (auto simp: route_new_def route_ok_def repeats_iff)

lemma route_singleton_ok: "route_ok (route_singleton hop)"
  by (simp add: route_ok_def route_singleton_def MAX_ROUTE_HOPS_def)

lemma reverse_from_ok:
  assumes "route_ok (forward @ [dest])" "\<forall>h \<in> set forward. \<not> same_node h source"
  shows "reverse_from (forward @ [dest]) source = Some (rev forward @ [source])"
proof -
  have "distinct (map (ea_id \<circ> rh_underlay) (rev forward @ [source]))"
    "distinct (map rh_app_id (rev forward @ [source]))"
    using assms by (auto simp: route_ok_def same_node_def rev_map [symmetric])
  then have "route_ok (rev forward @ [source])" using assms(1) by (simp add: route_ok_def)
  then show ?thesis by (simp add: reverse_from_def route_new_some)
qed

subsection \<open>Link-state\<close>

record ('n, 'x) link_vector =
  lv_origin :: 'n
  lv_seq :: nat
  lv_underlay :: "('n, 'x) endpoint_addr"
  lv_links :: "('n \<times> nat) list"

definition lv_new :: "'n \<Rightarrow> nat \<Rightarrow> ('n, 'x) endpoint_addr \<Rightarrow> ('n \<times> nat) list \<Rightarrow> ('n, 'x) link_vector" where
  "lv_new origin sq underlay links =
     \<lparr>lv_origin = origin, lv_seq = sq, lv_underlay = underlay, lv_links = links\<rparr>"

type_synonym ('n, 'x) topology = "('n \<times> ('n, 'x) link_vector) list"

definition topo_ingest :: "('n, 'x) link_vector \<Rightarrow> ('n, 'x) topology \<Rightarrow> bool \<times> ('n, 'x) topology" where
  "topo_ingest v t =
     (case map_of t (lv_origin v) of
        Some existing \<Rightarrow>
          if lv_seq existing \<ge> lv_seq v then (False, t) else (True, AList.update (lv_origin v) v t)
      | None \<Rightarrow> (True, AList.update (lv_origin v) v t))"

definition topo_remove :: "'n \<Rightarrow> ('n, 'x) topology \<Rightarrow> bool \<times> ('n, 'x) topology" where
  "topo_remove origin t = (map_of t origin \<noteq> None, AList.delete origin t)"

definition topo_underlay :: "'n \<Rightarrow> ('n, 'x) topology \<Rightarrow> ('n, 'x) endpoint_addr option" where
  "topo_underlay origin t = map_option lv_underlay (map_of t origin)"

definition topo_graph :: "('n, 'x) topology \<Rightarrow> 'n graph" where
  "topo_graph t =
     fold (\<lambda>(_, v). fold (\<lambda>(neighbor, metric). insert_link (lv_origin v) neighbor metric) (lv_links v)) t []"

definition path_route :: "('n, 'x) topology \<Rightarrow> 'n path \<Rightarrow> ('n, 'x) route option" where
  "path_route t p =
     (case those (map (\<lambda>hop. map_option (\<lambda>u. \<lparr>rh_app_id = hop, rh_underlay = u\<rparr>) (topo_underlay hop t))
             (pa_hops p)) of
        None \<Rightarrow> None
      | Some hops \<Rightarrow> route_new hops)"

text \<open>\<open>None\<close> is a search that does not return.\<close>

definition route_to :: "'n \<Rightarrow> 'n \<Rightarrow> nat \<Rightarrow> ('n, 'x) topology \<Rightarrow> ('n, 'x) route list option" where
  "route_to src dst max_paths t =
     map_option (List.map_filter (path_route t)) (disjoint_paths (topo_graph t) src dst max_paths)"

text \<open>What the address lookup answers: the first route, packed as an address.\<close>

definition mh_resolve :: "(('n, 'x) route_hop list \<Rightarrow> 'b) \<Rightarrow> 'n \<Rightarrow> 'n \<Rightarrow> ('n, 'x) topology \<Rightarrow> (nat \<times> 'b) option option" where
  "mh_resolve enc self endpoint t =
     map_option (\<lambda>routes. case routes of [] \<Rightarrow> None | r # _ \<Rightarrow> Some (route_encode enc r)) (route_to self endpoint 1 t)"

record 'n topology_edge =
  te_from :: 'n
  te_to :: 'n
  te_metric :: nat

definition topo_view :: "'n \<Rightarrow> ('n, 'x) topology \<Rightarrow> 'n \<times> 'n topology_edge list" where
  "topo_view self t =
     (self, concat (map (\<lambda>(_, v). map (\<lambda>(dst, metric).
        \<lparr>te_from = lv_origin v, te_to = dst, te_metric = metric\<rparr>) (lv_links v)) t))"

subsection \<open>Links of the graph are links advertised\<close>

lemma adj_insert:
  "(v, w) \<in> set (adj (insert_link a b c g) u) \<longleftrightarrow>
     (v, w) \<in> set (adj g u) \<or> (u = a \<and> v = b \<and> w = c \<and> is_usable c)"
  by (auto simp: insert_link_def adj_def update_conv' split: option.splits)

lemma adj_insert_links:
  "(v, w) \<in> set (adj (fold (\<lambda>(b, c). insert_link a b c) es g) u) \<longleftrightarrow>
     (v, w) \<in> set (adj g u) \<or> (u = a \<and> (v, w) \<in> set es \<and> is_usable w)"
proof (induction es arbitrary: g)
  case (Cons e es)
  obtain b c where e: "e = (b, c)" by (cases e)
  show ?case unfolding e fold_simps prod.case Cons.IH adj_insert by auto
qed simp

lemma adj_fold_vectors:
  "(v, w) \<in> set (adj (fold (\<lambda>(_, l). fold (\<lambda>(b, c). insert_link (lv_origin l) b c) (lv_links l)) t g) u) \<longleftrightarrow>
     (v, w) \<in> set (adj g u) \<or> (\<exists>(o', l) \<in> set t. lv_origin l = u \<and> (v, w) \<in> set (lv_links l) \<and> is_usable w)"
proof (induction t arbitrary: g)
  case (Cons e t)
  obtain o' l where e: "e = (o', l)" by (cases e)
  show ?case unfolding e fold_simps prod.case Cons.IH adj_insert_links by auto
qed simp

definition topo_wf :: "('n, 'x) topology \<Rightarrow> bool" where
  "topo_wf t \<longleftrightarrow> distinct (map fst t) \<and> (\<forall>(n, v) \<in> set t. lv_origin v = n)"

lemma topo_adj:
  assumes "topo_wf t"
  shows "(v, w) \<in> set (adj (topo_graph t) u) \<longleftrightarrow>
    (\<exists>l. map_of t u = Some l \<and> (v, w) \<in> set (lv_links l) \<and> is_usable w)"
proof -
  have mem: "map_of t u = Some l \<longleftrightarrow> (u, l) \<in> set t" for l
    using assms map_of_eq_Some_iff [of t u l] by (simp add: topo_wf_def)
  have org: "lv_origin l = o'" if "(o', l) \<in> set t" for o' l
    using assms that unfolding topo_wf_def by fast
  have "(\<exists>(o', l) \<in> set t. lv_origin l = u \<and> P l) \<longleftrightarrow> (\<exists>l. map_of t u = Some l \<and> P l)" for P
  proof
    assume "\<exists>(o', l) \<in> set t. lv_origin l = u \<and> P l"
    then obtain o' l where l: "(o', l) \<in> set t" "lv_origin l = u" "P l" by blast
    have "map_of t u = Some l" unfolding mem using org [OF l(1)] l(1,2) by simp
    then show "\<exists>l. map_of t u = Some l \<and> P l" using l(3) by blast
  next
    assume "\<exists>l. map_of t u = Some l \<and> P l"
    then obtain l where l: "(u, l) \<in> set t" "P l" unfolding mem by blast
    show "\<exists>(o', l) \<in> set t. lv_origin l = u \<and> P l"
      by (rule bexI [OF _ l(1)]) (use org [OF l(1)] l(2) in simp)
  qed
  then show ?thesis using adj_fold_vectors [of v w t "[]" u] by (simp add: topo_graph_def adj_def)
qed

lemma topo_ingest_map:
  "map_of (snd (topo_ingest v t)) n =
     (if n = lv_origin v \<and> fst (topo_ingest v t) then Some v else map_of t n)"
  by (auto simp: topo_ingest_def update_conv' split: option.splits)

lemma topo_ingest_wf:
  assumes "topo_wf t" shows "topo_wf (snd (topo_ingest v t))"
proof -
  have "distinct (map fst (AList.update (lv_origin v) v t))"
    using assms by (intro distinct_update) (simp add: topo_wf_def)
  moreover have "\<forall>(n, l) \<in> set (AList.update (lv_origin v) v t). lv_origin l = n"
    using assms unfolding topo_wf_def by (induction t) auto
  ultimately show ?thesis
    using assms by (auto simp: topo_wf_def topo_ingest_def split: option.splits)
qed


datatype ('n, 'x) topo_op = Ingest "('n, 'x) link_vector" | Remove 'n

definition topo_step :: "('n, 'x) topo_op \<Rightarrow> ('n, 'x) topology \<Rightarrow> ('n, 'x) topology" where
  "topo_step op t = (case op of Ingest v \<Rightarrow> snd (topo_ingest v t) | Remove n \<Rightarrow> snd (topo_remove n t))"

lemma topo_step_simps [simp]:
  "topo_step (Ingest v) t = snd (topo_ingest v t)" "topo_step (Remove n) t = snd (topo_remove n t)"
  by (simp_all add: topo_step_def)

lemma topo_run_wf: "topo_wf (fold topo_step ops [])"
proof (induction ops rule: rev_induct)
  case Nil
  then show ?case by (simp add: topo_wf_def)
next
  case (snoc op ops)
  let ?t = "fold topo_step ops []"
  have "topo_wf (AList.delete n ?t)" for n
    using snoc unfolding topo_wf_def AList.delete_eq by (auto simp: distinct_map_filter)
  then show ?case using snoc topo_ingest_wf by (cases op) (simp_all add: topo_remove_def)
qed

lemma walk_links:
  "walk g blocked dst u vs c \<Longrightarrow> i < length vs \<Longrightarrow> \<exists>w. (vs ! i, w) \<in> set (adj g ((u # vs) ! i))"
proof (induction u vs c arbitrary: i rule: walk.induct)
  case (walk_step v w u vs c)
  then show ?case by (cases i) auto
qed simp

lemma those_some: "those xs = Some ys \<longleftrightarrow> xs = map Some ys"
  by (induction xs arbitrary: ys) (auto simp: map_eq_Cons_conv split: option.splits)

lemma path_route_hops:
  assumes "path_route t p = Some r"
  shows "route_ok r \<and> map rh_app_id r = pa_hops p \<and>
    list_all (\<lambda>h. topo_underlay (rh_app_id h) t = Some (rh_underlay h)) r"
proof -
  define f where "f = (\<lambda>hop. map_option (\<lambda>u. \<lparr>rh_app_id = hop, rh_underlay = u\<rparr>) (topo_underlay hop t))"
  obtain hops where hops: "those (map f (pa_hops p)) = Some hops" "route_new hops = Some r"
    using assms by (auto simp: path_route_def f_def split: option.splits)
  then have r: "r = hops" "route_ok r" by (simp_all add: route_new_some)
  have "map f (pa_hops p) = map Some r" using hops(1) r(1) by (simp add: those_some)
  then have *: "length r = length (pa_hops p)" "\<And>i. i < length r \<Longrightarrow> f (pa_hops p ! i) = Some (r ! i)"
    by (metis length_map, metis length_map nth_map)
  have "rh_app_id (r ! i) = pa_hops p ! i \<and>
      topo_underlay (rh_app_id (r ! i)) t = Some (rh_underlay (r ! i))" if i: "i < length r" for i
  proof -
    obtain z where "topo_underlay (pa_hops p ! i) t = Some z"
      "r ! i = \<lparr>rh_app_id = pa_hops p ! i, rh_underlay = z\<rparr>"
      using *(2) [OF i] by (auto simp: f_def)
    then show ?thesis by simp
  qed
  then have "list_all (\<lambda>h. topo_underlay (rh_app_id h) t = Some (rh_underlay h)) r"
    "\<forall>i < length r. rh_app_id (r ! i) = pa_hops p ! i"
    unfolding list_all_length by blast+
  moreover from this have "map rh_app_id r = pa_hops p" using *(1) by (intro nth_equalityI) simp_all
  ultimately show ?thesis using r(2) by blast
qed

subsection \<open>Properties\<close>

text \<open>A route from \<open>src\<close> to \<open>dst\<close> along links that are advertised right now, each hop dialled at the
  address it advertised itself.\<close>

definition usable_route :: "('n, 'x) topology \<Rightarrow> 'n \<Rightarrow> 'n \<Rightarrow> ('n, 'x) route \<Rightarrow> bool" where
  "usable_route t src dst r \<longleftrightarrow>
     route_ok r \<and> rh_app_id (last r) = dst \<and> src \<notin> set (map rh_app_id r) \<and>
     (\<forall>i < length r. topo_underlay (rh_app_id (r ! i)) t = Some (rh_underlay (r ! i)) \<and>
        (\<exists>l w. map_of t ((src # map rh_app_id r) ! i) = Some l \<and> (rh_app_id (r ! i), w) \<in> set (lv_links l) \<and>
           is_usable w))"

lemma good_path_usable:
  assumes "topo_wf t" "good_path (topo_graph t) src dst p" "path_route t p = Some r"
  shows "usable_route t src dst r"
proof -
  have r: "route_ok r" "map rh_app_id r = pa_hops p"
    "list_all (\<lambda>h. topo_underlay (rh_app_id h) t = Some (rh_underlay h)) r"
    using path_route_hops [OF assms(3)] by simp_all
  obtain s where p: "pa_hops p \<noteq> []" "last (pa_hops p) = dst" "src \<notin> set (pa_hops p)"
    "walk (topo_graph t) {} dst src (pa_hops p) s"
    using assms(2) unfolding good_path_def by auto
  have "\<exists>l w. map_of t ((src # map rh_app_id r) ! i) = Some l \<and> (rh_app_id (r ! i), w) \<in> set (lv_links l) \<and>
      is_usable w" if "i < length r" for i
  proof -
    have "i < length (pa_hops p)" "pa_hops p ! i = rh_app_id (r ! i)"
      using that r(2) by (metis length_map, metis nth_map)
    then show ?thesis using walk_links [OF p(4), of i] topo_adj [OF assms(1)] r(2) by fastforce
  qed
  moreover have "rh_app_id (last r) = dst" using p(1,2) r(1,2) by (metis last_map map_is_Nil_conv)
  ultimately show ?thesis using r p(3) unfolding usable_route_def by (simp add: list_all_length)
qed

text \<open>C31: Routes are usable: whatever link vectors came and went, \<open>route_to\<close> returns at most as many
  routes as asked for; each has at most eight hops, visits no node and no underlay twice nor the
  sender, follows links advertised as usable, and ends at the destination; and no two routes share
  a node between the ends.\<close>

theorem routes_usable:
  assumes "t = fold topo_step ops []" "src \<noteq> dst"
  shows "\<exists>rs. route_to src dst k t = Some rs \<and> length rs \<le> k \<and> list_all (usable_route t src dst) rs \<and>
    sorted_wrt (\<lambda>r q. set (map rh_app_id (butlast r)) \<inter> set (map rh_app_id (butlast q)) = {}) rs"
proof -
  have wf: "topo_wf t" using topo_run_wf assms(1) by blast
  obtain ps where ps: "disjoint_paths (topo_graph t) src dst k = Some ps" "length ps \<le> k"
    "\<forall>p \<in> set ps. good_path (topo_graph t) src dst p"
    "sorted_wrt (\<lambda>p q. interior p \<inter> interior q = {} \<and> pa_cost p \<le> pa_cost q) ps"
    using disjoint_loop_spec [OF assms(2), of "topo_graph t" "{}" k] unfolding disjoint_paths_def by blast
  define rs where "rs = List.map_filter (path_route t) ps"
  have inner: "set (map rh_app_id (butlast r)) = interior p" if "path_route t p = Some r" for p r
    using path_route_hops [OF that] unfolding interior_def by (metis map_butlast set_map)
  have "length rs \<le> k" using ps(2) by (simp add: rs_def map_filter_def le_trans [OF length_filter_le])
  moreover have "list_all (usable_route t src dst) rs"
    using ps(3) good_path_usable [OF wf] by (auto simp: rs_def list_all_iff map_filter_def)
  moreover have "sorted_wrt (\<lambda>r q. set (map rh_app_id (butlast r)) \<inter> set (map rh_app_id (butlast q)) = {}) rs"
    using ps(4) unfolding rs_def
  proof (induction ps)
    case (Cons p ps)
    show ?case
    proof (cases "path_route t p")
      case None
      then show ?thesis using Cons by (simp add: map_filter_simps)
    next
      case (Some r)
      have "set (map rh_app_id (butlast r)) \<inter> set (map rh_app_id (butlast q)) = {}"
        if q: "q \<in> set (List.map_filter (path_route t) ps)" for q
      proof -
        obtain p' where "p' \<in> set ps" "path_route t p' = Some q" using q by (auto simp: map_filter_def)
        then show ?thesis using Cons.prems inner Some by auto
      qed
      then show ?thesis using Cons Some by (simp add: map_filter_simps)
    qed
  qed (simp add: map_filter_simps)
  ultimately show ?thesis using ps(1) by (simp add: route_to_def rs_def)
qed

definition demo_vector :: "nat \<Rightarrow> nat \<Rightarrow> (nat \<times> nat) list \<Rightarrow> (nat, unit) link_vector" where
  "demo_vector n q links = lv_new n q \<lparr>ea_id = n, ea_paths = ()\<rparr> links"

theorem routes_usable_witness:
  "\<exists>rs. route_to 1 3 2 (fold topo_step [Ingest (demo_vector 1 0 [(2, 1), (3, 9)]), Ingest (demo_vector 2 0 [(3, 1)]),
       Ingest (demo_vector 3 0 [])] []) = Some rs \<and> length rs \<le> 2"
  using routes_usable [OF refl, of 1 3 2 "[Ingest (demo_vector 1 0 [(2, 1), (3, 9)]),
    Ingest (demo_vector 2 0 [(3, 1)]), Ingest (demo_vector 3 0 [])]"] by auto

lemma topo_ingests:
  "(\<forall>v \<in> set vs. \<exists>l. map_of (fold topo_step (map Ingest vs) []) (lv_origin v) = Some l \<and> lv_seq v \<le> lv_seq l) \<and>
   (\<forall>n l. map_of (fold topo_step (map Ingest vs) []) n = Some l \<longrightarrow> l \<in> set vs \<and> lv_origin l = n)"
proof (induction vs rule: rev_induct)
  case (snoc v vs)
  let ?t = "fold topo_step (map Ingest vs) []"
  have step: "fold topo_step (map Ingest (vs @ [v])) [] = snd (topo_ingest v ?t)"
    by simp
  have taken: "fst (topo_ingest v ?t) \<longleftrightarrow> (\<forall>l. map_of ?t (lv_origin v) = Some l \<longrightarrow> lv_seq l < lv_seq v)"
    by (auto simp: topo_ingest_def split: option.splits)
  have fresh: "\<exists>l. map_of (snd (topo_ingest v ?t)) (lv_origin u) = Some l \<and> lv_seq u \<le> lv_seq l"
    if u: "u \<in> set (vs @ [v])" for u
  proof (cases "lv_origin u = lv_origin v")
    case same: True
    show ?thesis
    proof (cases "fst (topo_ingest v ?t)")
      case True
      have "lv_seq u \<le> lv_seq v"
      proof (cases "u = v")
        case False
        then obtain l where "map_of ?t (lv_origin v) = Some l" "lv_seq u \<le> lv_seq l"
          using u snoc.IH same by auto
        then show ?thesis using True taken by fastforce
      qed simp
      then show ?thesis using True same by (simp add: topo_ingest_map)
    next
      case False
      then obtain l where l: "map_of ?t (lv_origin v) = Some l" "lv_seq v \<le> lv_seq l"
        using taken by (auto simp: not_less)
      have "lv_seq u \<le> lv_seq l"
      proof (cases "u = v")
        case False
        then show ?thesis using u snoc.IH same l(1) by fastforce
      qed (use l(2) in simp)
      then show ?thesis using False same l(1) by (simp add: topo_ingest_map)
    qed
  next
    case False
    then have "u \<in> set vs" using u by auto
    then show ?thesis using snoc.IH False by (simp add: topo_ingest_map)
  qed
  show ?case unfolding step using fresh snoc by (auto simp: topo_ingest_map split: if_splits)
qed simp

text \<open>The freshest vector wins, in whatever order the vectors arrive and however often: two nodes
  that were given the same vectors hold the same one for every origin, and so the same links,
  when an origin never uses a sequence number twice.\<close>

theorem topology_order_irrelevant:
  assumes "set vs = set ws"
    and "\<And>u v. u \<in> set vs \<Longrightarrow> v \<in> set vs \<Longrightarrow> lv_origin u = lv_origin v \<Longrightarrow> lv_seq u = lv_seq v \<Longrightarrow> u = v"
  shows "map_of (fold topo_step (map Ingest vs) []) = map_of (fold topo_step (map Ingest ws) []) \<and>
    set (adj (topo_graph (fold topo_step (map Ingest vs) [])) n) =
    set (adj (topo_graph (fold topo_step (map Ingest ws) [])) n)"
proof -
  let ?t = "fold topo_step (map Ingest vs) []" and ?u = "fold topo_step (map Ingest ws) []"
  have "map_of ?t m = map_of ?u m" for m
  proof (cases "map_of ?t m")
    case None
    then have "map_of ?u m \<noteq> Some l" for l
      using topo_ingests [of ws] topo_ingests [of vs] assms(1) by (metis option.distinct(1))
    then show ?thesis using None by (cases "map_of ?u m") auto
  next
    case (Some l)
    then have l: "l \<in> set vs" "lv_origin l = m" using topo_ingests [of vs] by blast+
    then obtain k where k: "map_of ?u m = Some k" "lv_seq l \<le> lv_seq k"
      using topo_ingests [of ws] assms(1) by blast
    then have "k \<in> set vs" "lv_origin k = m" using topo_ingests [of ws] assms(1) by blast+
    moreover from this have "lv_seq k \<le> lv_seq l" using topo_ingests [of vs] Some by fastforce
    ultimately show ?thesis using assms(2) [of k l] l k Some by simp
  qed
  then have same: "map_of ?t = map_of ?u" by blast
  have "(a, b) \<in> set (adj (topo_graph ?t) n) \<longleftrightarrow> (a, b) \<in> set (adj (topo_graph ?u) n)" for a b
    unfolding topo_adj [OF topo_run_wf] same by (rule refl)
  then show ?thesis using same by auto
qed

theorem topology_order_irrelevant_witness:
  "map_of (fold topo_step (map Ingest [demo_vector 1 0 [], demo_vector 1 5 [(2, 1)]]) []) =
   map_of (fold topo_step (map Ingest [demo_vector 1 5 [(2, 1)], demo_vector 1 0 []]) [])"
  by (rule conjunct1 [OF topology_order_irrelevant [where n = 0]]) (auto simp: demo_vector_def lv_new_def)

end
