(* ===== verification/PathSelect.thy ===== *)
theory PathSelect
  imports Prelude
begin

text \<open>
  What the two custom transports share, \<open>fofoca-iroh-transport-util/src/lib.rs\<close>, and the path selectors
  that rest on it: \<open>selector.rs\<close> of \<open>fofoca-iroh-multihop-transport\<close> and of
  \<open>fofoca-iroh-webrtc-transport\<close>. A path is its remote address and its round trip time, when that has
  been measured.
\<close>

subsection \<open>Datagrams of a transmit\<close>

text \<open>\<open>slice::chunks\<close>, for a size above zero.\<close>

function slice_chunks :: "nat \<Rightarrow> 'a list \<Rightarrow> 'a list list" where
  "slice_chunks k xs =
     (if xs = [] \<or> k = 0 then [] else take k xs # slice_chunks k (drop k xs))"
  by auto
termination by (relation "measure (\<lambda>(k, xs). length xs)") auto

declare slice_chunks.simps [simp del]

definition split_segments :: "bytes \<Rightarrow> nat option \<Rightarrow> bytes list" where
  "split_segments contents segment_size =
     (let segment = max (case segment_size of None \<Rightarrow> length contents | Some s \<Rightarrow> s) 1 in
      slice_chunks segment contents @ (if contents = [] then [[]] else []))"

lemma slice_chunks_nil [simp]: "slice_chunks k [] = []"
  by (simp add: slice_chunks.simps)

lemma concat_slice_chunks: "0 < k \<Longrightarrow> concat (slice_chunks k xs) = xs"
  by (induction k xs rule: slice_chunks.induct) (subst slice_chunks.simps, simp)

lemma slice_chunks_sizes: "c \<in> set (slice_chunks k xs) \<Longrightarrow> c \<noteq> [] \<and> length c \<le> k"
  by (induction k xs rule: slice_chunks.induct) (subst (asm) slice_chunks.simps, auto split: if_splits)

lemma split_segments_parts:
  "concat (split_segments contents seg) = contents" "split_segments contents seg \<noteq> []"
  by (auto simp: split_segments_def Let_def concat_slice_chunks slice_chunks.simps [of _ "_ # _"]
      neq_Nil_conv [of contents])

subsection \<open>Paths\<close>

datatype path_remote = Ip | Relay | Custom nat

record net_path =
  np_remote :: path_remote
  np_rtt :: "nat option"

text \<open>The loop of \<open>best_of\<close>: the best measured path so far, and the first path seen.\<close>

definition best_step :: "net_path \<Rightarrow> (net_path \<times> nat) option \<times> net_path option \<Rightarrow>
    (net_path \<times> nat) option \<times> net_path option" where
  "best_step p st =
     (case st of (best, fallback) \<Rightarrow>
        (case np_rtt p of
           Some rtt \<Rightarrow>
             if (case best of None \<Rightarrow> True | Some (_, known) \<Rightarrow> rtt < known) then Some (p, rtt) else best
         | None \<Rightarrow> best,
         if fallback = None then Some p else fallback))"

definition or_else :: "'a option \<Rightarrow> 'a option \<Rightarrow> 'a option" where
  "or_else a b = (case a of None \<Rightarrow> b | Some x \<Rightarrow> Some x)"

definition best_of :: "net_path list \<Rightarrow> net_path option" where
  "best_of ps =
     (case fold best_step ps (None, None) of (best, fallback) \<Rightarrow> or_else (map_option fst best) fallback)"

definition is_multihop :: "nat \<Rightarrow> net_path \<Rightarrow> bool" where
  "is_multihop multihop_id p = (np_remote p = Custom multihop_id)"

definition multihop_select :: "nat \<Rightarrow> net_path list \<Rightarrow> net_path option" where
  "multihop_select multihop_id ps =
     or_else (best_of (filter (\<lambda>p. \<not> is_multihop multihop_id p) ps)) (best_of (filter (is_multihop multihop_id) ps))"

datatype tier = TIp | TWebRtc | TRelay | TOtherCustom

definition tier_of :: "nat \<Rightarrow> net_path \<Rightarrow> tier" where
  "tier_of webrtc_id p =
     (case np_remote p of
        Ip \<Rightarrow> TIp | Relay \<Rightarrow> TRelay
      | Custom i \<Rightarrow> if i = webrtc_id then TWebRtc else TOtherCustom)"

text \<open>\<open>ip_blocked\<close> is a test hook, false in a build without that feature.\<close>

definition webrtc_select :: "nat \<Rightarrow> bool \<Rightarrow> net_path list \<Rightarrow> net_path option" where
  "webrtc_select webrtc_id ip_blocked ps =
     (let best = (\<lambda>want. best_of (filter (\<lambda>p. tier_of webrtc_id p = want) ps)) in
      or_else (if ip_blocked then None else best TIp)
        (or_else (best TWebRtc) (or_else (best TRelay) (best TOtherCustom))))"

subsection \<open>What is selected\<close>

text \<open>\<open>p\<close> is a lowest round trip among the measured paths of a list, or its first path when none is
  measured.\<close>

definition best_spec :: "net_path list \<Rightarrow> net_path \<Rightarrow> bool" where
  "best_spec ps p \<longleftrightarrow> p \<in> set ps \<and>
     (case np_rtt p of
        Some rtt \<Rightarrow> \<forall>q \<in> set ps. \<forall>rtt'. np_rtt q = Some rtt' \<longrightarrow> rtt \<le> rtt'
      | None \<Rightarrow> p = hd ps \<and> (\<forall>q \<in> set ps. np_rtt q = None))"

lemma best_loop:
  "case fold best_step ps (None, None) of (best, fallback) \<Rightarrow>
     fallback = (if ps = [] then None else Some (hd ps)) \<and>
     (case best of
        None \<Rightarrow> \<forall>q \<in> set ps. np_rtt q = None
      | Some (p, rtt) \<Rightarrow> p \<in> set ps \<and> np_rtt p = Some rtt \<and>
          (\<forall>q \<in> set ps. \<forall>rtt'. np_rtt q = Some rtt' \<longrightarrow> rtt \<le> rtt'))"
proof (induction ps rule: rev_induct)
  case (snoc p ps)
  obtain best fallback where st: "fold best_step ps (None, None) = (best, fallback)" by fastforce
  show ?case
    using snoc.IH unfolding fold_append comp_apply fold_simps st
    by (cases "np_rtt p"; cases best) (auto simp: best_step_def not_less le_less_trans)
qed simp

lemma best_of_spec:
  "(best_of ps = None \<longleftrightarrow> ps = []) \<and> (\<forall>p. best_of ps = Some p \<longrightarrow> best_spec ps p)"
proof -
  obtain best fallback where st: "fold best_step ps (None, None) = (best, fallback)" by fastforce
  show ?thesis
    using best_loop [of ps] unfolding best_of_def st
    by (cases best) (auto simp: or_else_def best_spec_def split: if_splits)
qed

lemma or_else_none [simp]: "or_else a b = None \<longleftrightarrow> a = None \<and> b = None"
  by (simp add: or_else_def split: option.split)

lemma or_else_some: "or_else a b = Some x \<longleftrightarrow> a = Some x \<or> (a = None \<and> b = Some x)"
  by (auto simp: or_else_def split: option.split)

lemma best_filter_none: "best_of (filter P ps) = None \<longleftrightarrow> (\<forall>q \<in> set ps. \<not> P q)"
  using best_of_spec [of "filter P ps"] by (simp add: filter_empty_conv)

lemma best_filter_some: "best_of (filter P ps) = Some p \<Longrightarrow> best_spec (filter P ps) p \<and> P p \<and> p \<in> set ps"
  using best_of_spec [of "filter P ps"] by (auto simp: best_spec_def)

definition tier_rank :: "tier \<Rightarrow> nat" where
  "tier_rank t = (case t of TIp \<Rightarrow> 0 | TWebRtc \<Rightarrow> 1 | TRelay \<Rightarrow> 2 | TOtherCustom \<Rightarrow> 3)"

text \<open>Some path is selected when there is any. It is of the best tier present, direct before WebRTC
  before relay before other transports, and within the tier of the lowest measured round trip; a path
  not measured yet is taken only when no path of its tier is.\<close>

theorem webrtc_select_spec:
  "case webrtc_select webrtc_id False ps of
     None \<Rightarrow> ps = []
   | Some p \<Rightarrow>
       p \<in> set ps \<and>
       list_all (\<lambda>q. tier_rank (tier_of webrtc_id p) \<le> tier_rank (tier_of webrtc_id q)) ps \<and>
       best_spec (filter (\<lambda>q. tier_of webrtc_id q = tier_of webrtc_id p) ps) p"
proof (cases "webrtc_select webrtc_id False ps")
  case None
  have "ps = []"
  proof (rule ccontr)
    assume "ps \<noteq> []"
    then obtain q where q: "q \<in> set ps" by (cases ps) auto
    show False
      using None q by (cases "tier_of webrtc_id q") (auto simp: webrtc_select_def Let_def best_filter_none)
  qed
  then show ?thesis using None by simp
next
  case (Some p)
  have "tier_rank t \<le> tier_rank (tier_of webrtc_id q)"
    if "\<And>u. tier_rank u < tier_rank t \<Longrightarrow> \<forall>q \<in> set ps. tier_of webrtc_id q \<noteq> u" "q \<in> set ps" for t q
    using that(1) [of "tier_of webrtc_id q"] that(2) by (cases "tier_rank t \<le> tier_rank (tier_of webrtc_id q)") auto
  moreover obtain t where "best_of (filter (\<lambda>p. tier_of webrtc_id p = t) ps) = Some p"
    "\<And>u. tier_rank u < tier_rank t \<Longrightarrow> \<forall>q \<in> set ps. tier_of webrtc_id q \<noteq> u"
  proof -
    have lower: "tier_rank u < tier_rank TIp \<Longrightarrow> False" "tier_rank u < tier_rank TWebRtc \<Longrightarrow> u = TIp"
      "tier_rank u < tier_rank TRelay \<Longrightarrow> u = TIp \<or> u = TWebRtc"
      "tier_rank u < tier_rank TOtherCustom \<Longrightarrow> u = TIp \<or> u = TWebRtc \<or> u = TRelay" for u
      by (cases u; simp add: tier_rank_def)+
    show thesis
      using Some unfolding webrtc_select_def Let_def or_else_some if_False best_filter_none
      by (elim disjE conjE) (rule that, assumption, use lower in blast)+
  qed
  moreover from this(1) have "tier_of webrtc_id p = t" "p \<in> set ps"
    "best_spec (filter (\<lambda>q. tier_of webrtc_id q = t) ps) p"
    using best_filter_some by blast+
  ultimately show ?thesis using Some by (simp add: list_all_iff)
qed

text \<open>A route through other peers is selected only when there is no other path, and then as the best
  of those routes.\<close>

theorem multihop_is_backup:
  "case multihop_select multihop_id ps of
     None \<Rightarrow> ps = []
   | Some p \<Rightarrow>
       p \<in> set ps \<and> (is_multihop multihop_id p = list_all (is_multihop multihop_id) ps) \<and>
       best_spec (filter (\<lambda>q. is_multihop multihop_id q = is_multihop multihop_id p) ps) p"
proof (cases "multihop_select multihop_id ps")
  case None
  then have "\<forall>q \<in> set ps. False" unfolding multihop_select_def or_else_none best_filter_none by blast
  then show ?thesis using None by simp
next
  case (Some p)
  then consider "best_of (filter (\<lambda>p. \<not> is_multihop multihop_id p) ps) = Some p"
    | "best_of (filter (is_multihop multihop_id) ps) = Some p" "\<forall>q \<in> set ps. is_multihop multihop_id q"
    by (auto simp: multihop_select_def or_else_some best_filter_none)
  then show ?thesis
  proof cases
    case 1
    then show ?thesis using Some best_filter_some [OF 1] by (auto simp: list_all_iff)
  next
    case 2
    then show ?thesis using Some best_filter_some [OF 2(1)] by (auto simp: list_all_iff)
  qed
qed

end
