(* ===== verification/MultihopForward.thy ===== *)
theory MultihopForward
  imports MultihopRoute PathSelect "HOL-Library.Multiset"
begin

text \<open>
  Cells and the nodes that relay them: \<open>wire.rs\<close>, \<open>underlay.rs\<close> and \<open>transport.rs\<close> of
  \<open>fofoca-iroh-multihop-transport/src\<close>. The codec (\<open>postcard\<close>) is a parameter. The network is
  modelled by the steps of the writer tasks: a task takes a cell from its channel, and writes it or
  fails. A channel is named by a number. The calls of one node happen one after the other.
\<close>

subsection \<open>Cells\<close>

definition MAX_CELL_BYTES :: nat where "MAX_CELL_BYTES = 65536"

record ('n, 'x) cell =
  ce_path :: "('n, 'x) route"
  ce_pos :: nat
  ce_source :: "('n, 'x) route_hop"
  ce_packet :: bytes

definition current_hop :: "('n, 'x) cell \<Rightarrow> ('n, 'x) route_hop option" where
  "current_hop c = hop_at (ce_pos c) (ce_path c)"

definition next_hop :: "('n, 'x) cell \<Rightarrow> ('n, 'x) route_hop option" where
  "next_hop c = hop_at (ce_pos c + 1) (ce_path c)"

definition advanced :: "('n, 'x) cell \<Rightarrow> ('n, 'x) cell" where
  "advanced c = c\<lparr>ce_pos := ce_pos c + 1\<rparr>"

text \<open>What \<open>postcard\<close> encodes: the hops, the position, the source, the packet.\<close>

type_synonym ('n, 'x) raw_cell = "('n, 'x) route_hop list \<times> nat \<times> ('n, 'x) route_hop \<times> bytes"

definition be_bytes :: "nat \<Rightarrow> nat \<Rightarrow> bytes" where
  "be_bytes k n = rev (le_bytes k n)"

fun be_nat :: "nat \<Rightarrow> bytes \<Rightarrow> nat" where
  "be_nat acc [] = acc"
| "be_nat acc (b # bs) = be_nat (acc * 256 + unat b) bs"

datatype cell_error = CellTooLarge | StreamEnded | CellTooLong nat | BadCell | PosPastEnd nat

definition write_cell :: "(('n, 'x) raw_cell \<Rightarrow> bytes) \<Rightarrow> ('n, 'x) cell \<Rightarrow> cell_error + bytes" where
  "write_cell enc c =
     (let body = enc (ce_path c, ce_pos c, ce_source c, ce_packet c) in
      if length body > u32_max then Inl CellTooLarge else Inr (be_bytes 4 (length body) @ body))"

definition read_cell :: "(bytes \<Rightarrow> ('n, 'x) raw_cell option) \<Rightarrow> bytes \<Rightarrow>
    cell_error + ('n, 'x) cell \<times> bytes" where
  "read_cell dec input =
     (if length input < 4 then Inl StreamEnded
      else let len = be_nat 0 (take 4 input) in
        if len > MAX_CELL_BYTES then Inl (CellTooLong len)
        else if length input < 4 + len then Inl StreamEnded
        else case dec (take len (drop 4 input)) of
            None \<Rightarrow> Inl BadCell
          | Some (hops, pos, source, packet) \<Rightarrow>
              (case route_new hops of
                 None \<Rightarrow> Inl BadCell
               | Some r \<Rightarrow>
                   let c = \<lparr>ce_path = r, ce_pos = pos, ce_source = source, ce_packet = packet\<rparr> in
                   if current_hop c = None then Inl (PosPastEnd pos)
                   else Inr (c, drop (4 + len) input)))"

subsection \<open>The forwarder\<close>

definition WRITER_QUEUE :: nat where "WRITER_QUEUE = 128"
definition MAX_WRITERS :: nat where "MAX_WRITERS = 64"
definition FORWARD_QUEUE_BYTES :: nat where "FORWARD_QUEUE_BYTES = 33554432"
definition INBOUND_CAP :: nat where "INBOUND_CAP = 256"

text \<open>A writer task: its channel, the underlay id it writes to, what waits in the channel, and the
  cell it is writing.\<close>

record ('n, 'x) writer =
  wr_chan :: nat
  wr_dst :: 'n
  wr_queue :: "('n, 'x) cell list"
  wr_writing :: "('n, 'x) cell option"

record ('n, 'x) forwarder =
  fw_underlay_id :: 'n
  fw_app_id :: 'n
  fw_writers :: "('n \<times> nat) list"
  fw_tasks :: "('n, 'x) writer list"
  fw_next_chan :: nat
  fw_queued_bytes :: nat
  fw_inbound :: "(('n, 'x) route \<times> bytes) list"
  fw_dropped :: nat

definition fw_new :: "'n \<Rightarrow> 'n \<Rightarrow> ('n, 'x) forwarder" where
  "fw_new underlay_id app_id =
     \<lparr>fw_underlay_id = underlay_id, fw_app_id = app_id, fw_writers = [], fw_tasks = [], fw_next_chan = 0,
      fw_queued_bytes = 0, fw_inbound = [], fw_dropped = 0\<rparr>"

definition note_drop :: "('n, 'x) forwarder \<Rightarrow> ('n, 'x) forwarder" where
  "note_drop s = s\<lparr>fw_dropped := fw_dropped s + 1\<rparr>"

definition release :: "nat \<Rightarrow> ('n, 'x) forwarder \<Rightarrow> ('n, 'x) forwarder" where
  "release cost s = s\<lparr>fw_queued_bytes := fw_queued_bytes s - cost\<rparr>"

text \<open>\<open>Sender::try_send\<close>: \<open>None\<close> when the channel is full or its task is gone.\<close>

definition chan_send :: "nat \<Rightarrow> ('n, 'x) cell \<Rightarrow> ('n, 'x) writer list \<Rightarrow> ('n, 'x) writer list option" where
  "chan_send ch c ts =
     (case find_idx (\<lambda>t. wr_chan t = ch) ts of
        None \<Rightarrow> None
      | Some k \<Rightarrow>
          if length (wr_queue (ts ! k)) \<ge> WRITER_QUEUE then None
          else Some (ts[k := (ts ! k)\<lparr>wr_queue := wr_queue (ts ! k) @ [c]\<rparr>]))"

definition spawn_writer :: "'n \<Rightarrow> ('n, 'x) forwarder \<Rightarrow> nat option \<times> ('n, 'x) forwarder" where
  "spawn_writer dst s =
     (if length (fw_writers s) \<ge> MAX_WRITERS \<and> map_of (fw_writers s) dst = None
      then (None, note_drop s)
      else let ch = fw_next_chan s in
        (Some ch, s\<lparr>fw_writers := AList.update dst ch (fw_writers s), fw_next_chan := ch + 1,
           fw_tasks := fw_tasks s @ [\<lparr>wr_chan = ch, wr_dst = dst, wr_queue = [], wr_writing = None\<rparr>]\<rparr>))"

definition enqueue :: "('n, 'x) route_hop \<Rightarrow> ('n, 'x) cell \<Rightarrow> ('n, 'x) forwarder \<Rightarrow> ('n, 'x) forwarder" where
  "enqueue hop c s =
     (let cost = length (ce_packet c); key = ea_id (rh_underlay hop) in
      if fw_queued_bytes s + cost > FORWARD_QUEUE_BYTES then note_drop s
      else let s1 = s\<lparr>fw_queued_bytes := fw_queued_bytes s + cost\<rparr> in
        case (case map_of (fw_writers s1) key of None \<Rightarrow> None | Some ch \<Rightarrow> chan_send ch c (fw_tasks s1)) of
          Some ts \<Rightarrow> s1\<lparr>fw_tasks := ts\<rparr>
        | None \<Rightarrow>
            (case spawn_writer key s1 of
               (None, s2) \<Rightarrow> release cost s2
             | (Some ch, s2) \<Rightarrow>
                 (case chan_send ch c (fw_tasks s2) of
                    Some ts \<Rightarrow> s2\<lparr>fw_tasks := ts\<rparr>
                  | None \<Rightarrow> release cost s2)))"

definition deliver :: "('n, 'x) cell \<Rightarrow> ('n, 'x) forwarder \<Rightarrow> ('n, 'x) forwarder" where
  "deliver c s =
     (case reverse_from (ce_path c) (ce_source c) of
        None \<Rightarrow> note_drop s
      | Some r \<Rightarrow>
          if length (fw_inbound s) < INBOUND_CAP
          then s\<lparr>fw_inbound := fw_inbound s @ [(r, ce_packet c)]\<rparr> else s)"

definition is_self :: "('n, 'x) route_hop \<Rightarrow> ('n, 'x) forwarder \<Rightarrow> bool" where
  "is_self hop s = (ea_id (rh_underlay hop) = fw_underlay_id s \<and> rh_app_id hop = fw_app_id s)"

definition expected_upstream :: "('n, 'x) cell \<Rightarrow> ('n, 'x) route_hop option" where
  "expected_upstream c =
     (if ce_pos c = 0 then Some (ce_source c) else hop_at (ce_pos c - 1) (ce_path c))"

definition handle_cell :: "('n, 'x) cell \<Rightarrow> 'n \<Rightarrow> ('n, 'x) forwarder \<Rightarrow> ('n, 'x) forwarder" where
  "handle_cell c upstream s =
     (case current_hop c of
        None \<Rightarrow> note_drop s
      | Some here \<Rightarrow>
          if \<not> is_self here s then note_drop s
          else if \<not> (case expected_upstream c of None \<Rightarrow> False
                     | Some hop \<Rightarrow> ea_id (rh_underlay hop) = upstream) then note_drop s
          else case next_hop c of
              Some nxt \<Rightarrow> enqueue nxt (advanced c) s
            | None \<Rightarrow> deliver c s)"

text \<open>The steps of a writer task. \<open>retire\<close> leaves an entry that a later task has taken over.\<close>

definition retire :: "'n \<Rightarrow> nat \<Rightarrow> ('n, 'x) forwarder \<Rightarrow> ('n, 'x) forwarder" where
  "retire key ch s =
     (if map_of (fw_writers s) key = Some ch
      then s\<lparr>fw_writers := AList.delete key (fw_writers s)\<rparr> else s)"

definition task_take :: "nat \<Rightarrow> ('n, 'x) forwarder \<Rightarrow> ('n, 'x) forwarder" where
  "task_take k s =
     (case fw_tasks s ! k of t \<Rightarrow>
        (case (wr_writing t, wr_queue t) of
           (None, c # cs) \<Rightarrow> s\<lparr>fw_tasks := (fw_tasks s)[k := t\<lparr>wr_writing := Some c, wr_queue := cs\<rparr>]\<rparr>
         | _ \<Rightarrow> s))"

definition cells_bytes :: "('n, 'x) cell list \<Rightarrow> nat" where
  "cells_bytes cs = sum_list (map (length \<circ> ce_packet) cs)"

definition task_end :: "nat \<Rightarrow> ('n, 'x) forwarder \<Rightarrow> ('n, 'x) forwarder" where
  "task_end k s =
     (let t = fw_tasks s ! k; s1 = retire (wr_dst t) (wr_chan t) s in
      release (cells_bytes (wr_queue t)) (s1\<lparr>fw_tasks := take k (fw_tasks s1) @ drop (Suc k) (fw_tasks s1)\<rparr>))"

text \<open>The write of the current cell ends, well or not, or (\<open>dial_failed\<close>) the task could not reach its
  hop. The cells written are the second result.\<close>

definition task_written :: "nat \<Rightarrow> bool \<Rightarrow> ('n, 'x) forwarder \<Rightarrow> ('n, 'x) forwarder \<times> ('n \<times> ('n, 'x) cell) list" where
  "task_written k ok s =
     (let t = fw_tasks s ! k in
      case wr_writing t of
        None \<Rightarrow> (s, [])
      | Some c \<Rightarrow>
          let s1 = release (length (ce_packet c)) (s\<lparr>fw_tasks := (fw_tasks s)[k := t\<lparr>wr_writing := None\<rparr>]\<rparr>)
          in if ok then (s1, [(wr_dst t, c)]) else (task_end k s1, []))"

definition dial_failed :: "nat \<Rightarrow> ('n, 'x) forwarder \<Rightarrow> ('n, 'x) forwarder" where
  "dial_failed k s = (if wr_writing (fw_tasks s ! k) = None then task_end k s else s)"

subsection \<open>The transport\<close>

definition revisits_us :: "('n, 'x) route \<Rightarrow> ('n, 'x) route_hop \<Rightarrow> bool" where
  "revisits_us r me = list_ex (\<lambda>hop. same_node hop me) r"

datatype send_error = Undecodable | RevisitsUs | EmptyRoute

text \<open>A transmit is its contents and its segment size.\<close>

definition poll_send :: "('b \<Rightarrow> ('n, 'x) route_hop list option) \<Rightarrow> ('n, 'x) route_hop \<Rightarrow> nat \<times> 'b \<Rightarrow>
    bytes \<times> nat option \<Rightarrow> ('n, 'x) forwarder \<Rightarrow> (send_error + unit) \<times> ('n, 'x) forwarder" where
  "poll_send dec self_hop dst transmit s =
     (case route_decode dec dst of
        None \<Rightarrow> (Inl Undecodable, s)
      | Some r \<Rightarrow>
          if revisits_us r self_hop then (Inl RevisitsUs, s)
          else case r of
              [] \<Rightarrow> (Inl EmptyRoute, s)
            | first # _ \<Rightarrow>
                (Inr (), fold (\<lambda>chunk. enqueue first
                   \<lparr>ce_path = r, ce_pos = 0, ce_source = self_hop, ce_packet = chunk\<rparr>)
                   (case transmit of (contents, seg) \<Rightarrow> split_segments contents seg) s))"

text \<open>The packets that fit are put into the buffers in order; \<open>None\<close> is \<open>Pending\<close>. The error of a closed
  inbox is left out: the forwarder holds the other end as long as the transport lives.\<close>

fun fill_buffers :: "nat list \<Rightarrow> ('r \<times> bytes) list \<Rightarrow> ('r \<times> bytes) list" where
  "fill_buffers bufs [] = []"
| "fill_buffers [] batch = []"
| "fill_buffers (b # bufs) ((r, packet) # batch) =
     (if b < length packet then fill_buffers (b # bufs) batch
      else (r, packet) # fill_buffers bufs batch)"

definition poll_recv :: "nat list \<Rightarrow> nat \<Rightarrow> nat \<Rightarrow> ('n, 'x) forwarder \<Rightarrow>
    (('n, 'x) route \<times> bytes) list option \<times> ('n, 'x) forwarder" where
  "poll_recv bufs metas infos s =
     (let cap = min (min (length bufs) metas) infos in
      if cap = 0 then (Some [], s)
      else if fw_inbound s = [] then (None, s)
      else let batch = take cap (fw_inbound s); filled = fill_buffers bufs batch;
               s' = s\<lparr>fw_inbound := drop cap (fw_inbound s)\<rparr>
        in (if filled = [] then None else Some filled, s'))"

subsection \<open>Framing\<close>

lemma be_nat_append: "be_nat acc (xs @ [b]) = be_nat acc xs * 256 + unat b"
  by (induction xs arbitrary: acc) auto

lemma be_bytes_Suc: "be_bytes (Suc k) n = be_bytes k (n div 256) @ [word_of_nat n]"
proof -
  have "le_bytes (Suc k) n = word_of_nat n # le_bytes k (n div 256)"
    by (auto simp: le_bytes_def upt_conv_Cons map_Suc_upt [symmetric] div_mult2_eq simp del: upt_Suc)
  then show ?thesis by (simp add: be_bytes_def)
qed

lemma be_nat_bytes: "be_nat 0 (be_bytes k n) = n mod 256 ^ k"
proof (induction k arbitrary: n)
  case (Suc k)
  then show ?case
    by (simp add: be_bytes_Suc be_nat_append unat_of_nat take_bit_eq_mod mod_mult2_eq)
qed (simp add: be_bytes_def le_bytes_def)

lemma be_bytes_length [simp]: "length (be_bytes k n) = k"
  by (simp add: be_bytes_def)

lemma read_write:
  assumes "dec (enc (ce_path c, ce_pos c, ce_source c, ce_packet c)) =
      Some (ce_path c, ce_pos c, ce_source c, ce_packet c)"
    and "length (enc (ce_path c, ce_pos c, ce_source c, ce_packet c)) \<le> MAX_CELL_BYTES"
    and "route_ok (ce_path c)" "ce_pos c < length (ce_path c)"
  shows "\<exists>bs. write_cell enc c = Inr bs \<and> read_cell dec (bs @ rest) = Inr (c, rest)"
proof -
  let ?body = "enc (ce_path c, ce_pos c, ce_source c, ce_packet c)"
  have small: "length ?body < 256 ^ 4" "length ?body \<le> u32_max"
    using assms(2) by (simp_all add: MAX_CELL_BYTES_def u32_max_def)
  have new: "route_new (ce_path c) = Some (ce_path c)" using assms(3) by (simp add: route_new_some)
  have "write_cell enc c = Inr (be_bytes 4 (length ?body) @ ?body)"
    using small(2) by (simp add: write_cell_def Let_def)
  moreover have "read_cell dec ((be_bytes 4 (length ?body) @ ?body) @ rest) = Inr (c, rest)"
    using small(1) assms(1,2,4) new
    by (simp add: read_cell_def Let_def be_nat_bytes current_hop_def hop_at_def)
  ultimately show ?thesis by blast
qed

subsection \<open>What waits to be written\<close>

text \<open>The cells in the channels, each with the underlay id it goes to.\<close>

definition outgoing :: "('n, 'x) forwarder \<Rightarrow> ('n \<times> ('n, 'x) cell) multiset" where
  "outgoing s = mset (concat (map (\<lambda>t. map (Pair (wr_dst t)) (wr_queue t)) (fw_tasks s)))"

definition task_bytes :: "('n, 'x) writer \<Rightarrow> nat" where
  "task_bytes t = cells_bytes (wr_queue t) + (case wr_writing t of None \<Rightarrow> 0 | Some c \<Rightarrow> length (ce_packet c))"

definition fw_inv :: "('n, 'x) forwarder \<Rightarrow> bool" where
  "fw_inv s \<longleftrightarrow>
     fw_queued_bytes s = sum_list (map task_bytes (fw_tasks s)) \<and>
     fw_queued_bytes s \<le> FORWARD_QUEUE_BYTES \<and> length (fw_writers s) \<le> MAX_WRITERS \<and>
     distinct (map fst (fw_writers s)) \<and> length (fw_inbound s) \<le> INBOUND_CAP \<and>
     distinct (map wr_chan (fw_tasks s)) \<and>
     (\<forall>t \<in> set (fw_tasks s). wr_chan t < fw_next_chan s \<and> length (wr_queue t) \<le> WRITER_QUEUE) \<and>
     (\<forall>key ch. map_of (fw_writers s) key = Some ch \<longrightarrow>
        (\<exists>t \<in> set (fw_tasks s). wr_chan t = ch \<and> wr_dst t = key))"

lemma cells_bytes_append [simp]: "cells_bytes (xs @ ys) = cells_bytes xs + cells_bytes ys"
  "cells_bytes [] = 0" "cells_bytes (c # xs) = length (ce_packet c) + cells_bytes xs"
  by (simp_all add: cells_bytes_def)

lemma sum_list_update_nat:
  fixes xs :: "nat list"
  assumes "k < length xs"
  shows "sum_list (xs[k := v]) + xs ! k = sum_list xs + v"
  using assms by (induction xs arbitrary: k) (auto split: nat.split)

text \<open>Sending to a channel puts the cell at the end of that task's queue and nowhere else.\<close>

lemma chan_send_some:
  assumes "chan_send ch c ts = Some ts'"
  shows "\<exists>k. k < length ts \<and> wr_chan (ts ! k) = ch \<and> length (wr_queue (ts ! k)) < WRITER_QUEUE \<and>
    ts' = ts[k := (ts ! k)\<lparr>wr_queue := wr_queue (ts ! k) @ [c]\<rparr>]"
  using assms by (auto simp: chan_send_def find_idx_Some not_le split: option.splits if_splits)

lemma task_queue_update:
  assumes "k < length ts" "ts' = ts[k := (ts ! k)\<lparr>wr_queue := wr_queue (ts ! k) @ [c]\<rparr>]"
  shows "map wr_chan ts' = map wr_chan ts" "map wr_dst ts' = map wr_dst ts"
    "sum_list (map task_bytes ts') = sum_list (map task_bytes ts) + length (ce_packet c)"
    "mset (concat (map (\<lambda>t. map (Pair (wr_dst t)) (wr_queue t)) ts')) =
     mset (concat (map (\<lambda>t. map (Pair (wr_dst t)) (wr_queue t)) ts)) + {#(wr_dst (ts ! k), c)#}"
    "length (wr_queue (ts ! k)) < WRITER_QUEUE \<Longrightarrow> \<forall>t \<in> set ts. length (wr_queue t) \<le> WRITER_QUEUE \<Longrightarrow>
     \<forall>t \<in> set ts'. length (wr_queue t) \<le> WRITER_QUEUE"
proof -
  obtain as t bs where ts: "ts = as @ t # bs" "length as = k"
    using assms(1) by (metis id_take_nth_drop length_take min.absorb4)
  then have ts': "ts' = as @ t\<lparr>wr_queue := wr_queue t @ [c]\<rparr> # bs" "ts ! k = t"
    using assms(2) by (auto simp: nth_append list_update_append)
  show "map wr_chan ts' = map wr_chan ts" "map wr_dst ts' = map wr_dst ts"
    "sum_list (map task_bytes ts') = sum_list (map task_bytes ts) + length (ce_packet c)"
    "mset (concat (map (\<lambda>t. map (Pair (wr_dst t)) (wr_queue t)) ts')) =
     mset (concat (map (\<lambda>t. map (Pair (wr_dst t)) (wr_queue t)) ts)) + {#(wr_dst (ts ! k), c)#}"
    unfolding ts' unfolding ts(1) by (simp_all add: task_bytes_def)
  show "\<forall>t \<in> set ts'. length (wr_queue t) \<le> WRITER_QUEUE"
    if "length (wr_queue (ts ! k)) < WRITER_QUEUE" "\<forall>t \<in> set ts. length (wr_queue t) \<le> WRITER_QUEUE"
    using that unfolding ts' unfolding ts(1) by (auto simp: nth_append ts(2) [symmetric])
qed


lemma chan_send_fresh:
  assumes "\<forall>t \<in> set ts. wr_chan t \<noteq> ch"
  shows "chan_send ch c (ts @ [\<lparr>wr_chan = ch, wr_dst = d, wr_queue = [], wr_writing = None\<rparr>]) =
    Some (ts @ [\<lparr>wr_chan = ch, wr_dst = d, wr_queue = [c], wr_writing = None\<rparr>])"
proof -
  let ?ts = "ts @ [\<lparr>wr_chan = ch, wr_dst = d, wr_queue = [], wr_writing = None\<rparr>]"
  have "find_idx (\<lambda>t. wr_chan t = ch) ?ts = Some (length ts)"
    using assms by (auto simp: find_idx_Some nth_append)
  then show ?thesis by (simp add: chan_send_def WRITER_QUEUE_def)
qed

text \<open>The three ways a call of \<open>enqueue\<close> ends: the cell is dropped, it goes to the writer there is, or
  to a new one.\<close>

lemma enqueue_cases:
  assumes inv: "fw_inv s"
  obtains (dropped) d where "enqueue hop c s = s\<lparr>fw_dropped := d\<rparr>"
  | (sent) k where "k < length (fw_tasks s)" "wr_dst (fw_tasks s ! k) = ea_id (rh_underlay hop)"
      "length (wr_queue (fw_tasks s ! k)) < WRITER_QUEUE"
      "fw_queued_bytes s + length (ce_packet c) \<le> FORWARD_QUEUE_BYTES"
      "enqueue hop c s = s\<lparr>fw_queued_bytes := fw_queued_bytes s + length (ce_packet c),
         fw_tasks := (fw_tasks s)[k := (fw_tasks s ! k)\<lparr>wr_queue := wr_queue (fw_tasks s ! k) @ [c]\<rparr>]\<rparr>"
  | (spawned) "length (fw_writers s) < MAX_WRITERS \<or> map_of (fw_writers s) (ea_id (rh_underlay hop)) \<noteq> None"
      "fw_queued_bytes s + length (ce_packet c) \<le> FORWARD_QUEUE_BYTES"
      "enqueue hop c s = s\<lparr>fw_queued_bytes := fw_queued_bytes s + length (ce_packet c),
         fw_writers := AList.update (ea_id (rh_underlay hop)) (fw_next_chan s) (fw_writers s),
         fw_next_chan := fw_next_chan s + 1,
         fw_tasks := fw_tasks s @ [\<lparr>wr_chan = fw_next_chan s, wr_dst = ea_id (rh_underlay hop),
           wr_queue = [c], wr_writing = None\<rparr>]\<rparr>"
proof -
  let ?key = "ea_id (rh_underlay hop)" and ?cost = "length (ce_packet c)"
  let ?s1 = "s\<lparr>fw_queued_bytes := fw_queued_bytes s + ?cost\<rparr>"
  let ?first = "case map_of (fw_writers s) ?key of None \<Rightarrow> None | Some ch \<Rightarrow> chan_send ch c (fw_tasks s)"
  show ?thesis
  proof (cases "fw_queued_bytes s + ?cost > FORWARD_QUEUE_BYTES")
    case True
    then show ?thesis by (intro dropped [of "fw_dropped s + 1"]) (simp add: enqueue_def Let_def note_drop_def)
  next
    case budget: False
    show ?thesis
    proof (cases ?first)
      case (Some ts)
      then obtain ch where ch: "map_of (fw_writers s) ?key = Some ch" "chan_send ch c (fw_tasks s) = Some ts"
        by (auto split: option.splits)
      obtain k where k: "k < length (fw_tasks s)" "wr_chan (fw_tasks s ! k) = ch"
        "length (wr_queue (fw_tasks s ! k)) < WRITER_QUEUE"
        "ts = (fw_tasks s)[k := (fw_tasks s ! k)\<lparr>wr_queue := wr_queue (fw_tasks s ! k) @ [c]\<rparr>]"
        using chan_send_some [OF ch(2)] by blast
      obtain t where t: "t \<in> set (fw_tasks s)" "wr_chan t = ch" "wr_dst t = ?key"
        using inv ch(1) unfolding fw_inv_def by blast
      then obtain j where j: "j < length (fw_tasks s)" "fw_tasks s ! j = t" by (auto simp: in_set_conv_nth)
      have "distinct (map wr_chan (fw_tasks s))" using inv unfolding fw_inv_def by blast
      then have "j = k" using j k(1,2) t(2) by (auto simp: distinct_conv_nth)
      then have "wr_dst (fw_tasks s ! k) = ?key" using j t(3) by simp
      moreover have "enqueue hop c s = ?s1\<lparr>fw_tasks := ts\<rparr>"
        using budget ch by (simp add: enqueue_def Let_def)
      ultimately show ?thesis using sent [of k] k budget by simp
    next
      case None
      have chans: "\<forall>t \<in> set (fw_tasks s). wr_chan t \<noteq> fw_next_chan s" using inv unfolding fw_inv_def by fastforce
      have run: "enqueue hop c s = (case spawn_writer ?key ?s1 of
               (None, s2) \<Rightarrow> release ?cost s2
             | (Some ch, s2) \<Rightarrow> (case chan_send ch c (fw_tasks s2) of
                    Some ts \<Rightarrow> s2\<lparr>fw_tasks := ts\<rparr> | None \<Rightarrow> release ?cost s2))"
        using budget None by (simp add: enqueue_def Let_def cong: option.case_cong)
      show ?thesis
      proof (cases "length (fw_writers s) \<ge> MAX_WRITERS \<and> map_of (fw_writers s) ?key = None")
        case True
        then show ?thesis unfolding run
          by (intro dropped [of "fw_dropped s + 1"]) (simp add: run spawn_writer_def note_drop_def release_def)
      next
        case False
        have "enqueue hop c s = s\<lparr>fw_queued_bytes := fw_queued_bytes s + ?cost,
         fw_writers := AList.update ?key (fw_next_chan s) (fw_writers s),
         fw_next_chan := fw_next_chan s + 1,
         fw_tasks := fw_tasks s @ [\<lparr>wr_chan = fw_next_chan s, wr_dst = ?key, wr_queue = [c], wr_writing = None\<rparr>]\<rparr>"
          unfolding run spawn_writer_def using False chan_send_fresh [OF chans]
          by (auto simp: Let_def)
        then show ?thesis using False budget by (intro spawned) auto
      qed
    qed
  qed
qed

lemma length_update_map:
  "length (AList.update k v al) = (if map_of al k = None then Suc (length al) else length al)"
  by (induction al) auto

lemma enqueue_inv:
  assumes inv: "fw_inv s"
  shows "fw_inv (enqueue hop c s) \<and> fw_inbound (enqueue hop c s) = fw_inbound s \<and>
    (outgoing (enqueue hop c s) = outgoing s \<or>
     outgoing (enqueue hop c s) = outgoing s + {#(ea_id (rh_underlay hop), c)#})"
  using inv
proof (cases rule: enqueue_cases [where hop = hop and c = c])
  case (dropped d)
  then show ?thesis using inv by (simp add: fw_inv_def outgoing_def)
next
  case (sent k)
  note upd = task_queue_update [OF sent(1) refl, of c]
  let ?ts = "(fw_tasks s)[k := (fw_tasks s ! k)\<lparr>wr_queue := wr_queue (fw_tasks s ! k) @ [c]\<rparr>]"
  have chans: "wr_chan ` set ?ts = wr_chan ` set (fw_tasks s)" using upd(1) by (metis list.set_map)
  have pairs: "\<exists>t' \<in> set ?ts. wr_chan t' = wr_chan t \<and> wr_dst t' = wr_dst t" if t: "t \<in> set (fw_tasks s)" for t
  proof -
    obtain i where i: "i < length (fw_tasks s)" "fw_tasks s ! i = t" using t by (auto simp: in_set_conv_nth)
    then have "wr_chan (?ts ! i) = wr_chan t" "wr_dst (?ts ! i) = wr_dst t"
      using sent(1) by (auto simp: nth_list_update)
    moreover have "?ts ! i \<in> set ?ts" using i(1) by (intro nth_mem) simp
    ultimately show ?thesis by blast
  qed
  have "fw_inv (enqueue hop c s)"
    unfolding fw_inv_def
  proof (intro conjI)
    show "\<forall>t \<in> set (fw_tasks (enqueue hop c s)). wr_chan t < fw_next_chan (enqueue hop c s) \<and>
        length (wr_queue t) \<le> WRITER_QUEUE"
    proof
      fix t assume t: "t \<in> set (fw_tasks (enqueue hop c s))"
      have "\<forall>t \<in> set (fw_tasks s). wr_chan t < fw_next_chan s" "\<forall>t \<in> set (fw_tasks s). length (wr_queue t) \<le> WRITER_QUEUE"
        using inv unfolding fw_inv_def by blast+
      moreover from this have "\<forall>t \<in> set ?ts. length (wr_queue t) \<le> WRITER_QUEUE" using upd(5) sent(3) by blast
      moreover have "wr_chan t \<in> wr_chan ` set (fw_tasks s)" using t sent(5) chans by auto
      ultimately show "wr_chan t < fw_next_chan (enqueue hop c s) \<and> length (wr_queue t) \<le> WRITER_QUEUE"
        using t sent(5) by auto
    qed
    show "\<forall>key ch. map_of (fw_writers (enqueue hop c s)) key = Some ch \<longrightarrow>
        (\<exists>t \<in> set (fw_tasks (enqueue hop c s)). wr_chan t = ch \<and> wr_dst t = key)"
    proof (intro allI impI)
      fix key ch assume "map_of (fw_writers (enqueue hop c s)) key = Some ch"
      then have "map_of (fw_writers s) key = Some ch" by (simp add: sent(5))
      then obtain t where "t \<in> set (fw_tasks s)" "wr_chan t = ch" "wr_dst t = key"
        using inv unfolding fw_inv_def by blast
      then show "\<exists>t \<in> set (fw_tasks (enqueue hop c s)). wr_chan t = ch \<and> wr_dst t = key"
        using pairs by (simp add: sent(5)) metis
    qed
  qed (use inv upd sent(4,5) in \<open>simp_all add: fw_inv_def\<close>)
  moreover have "outgoing (enqueue hop c s) = outgoing s + {#(ea_id (rh_underlay hop), c)#}"
    using upd(4) sent(2,5) by (simp add: outgoing_def)
  ultimately show ?thesis by (simp add: sent(5))
next
  case spawned
  have "fw_inv (enqueue hop c s)"
    unfolding fw_inv_def
  proof (intro conjI)
    show "length (fw_writers (enqueue hop c s)) \<le> MAX_WRITERS"
      using inv spawned(1,3) by (auto simp: fw_inv_def length_update_map)
    show "\<forall>key ch. map_of (fw_writers (enqueue hop c s)) key = Some ch \<longrightarrow>
        (\<exists>t \<in> set (fw_tasks (enqueue hop c s)). wr_chan t = ch \<and> wr_dst t = key)"
      using inv unfolding fw_inv_def spawned(3) by (auto simp: update_conv' split: if_splits)
    show "distinct (map fst (fw_writers (enqueue hop c s)))"
      using inv unfolding fw_inv_def spawned(3) by (simp add: distinct_update)
    show "distinct (map wr_chan (fw_tasks (enqueue hop c s)))"
      using inv unfolding fw_inv_def spawned(3) by force
    show "\<forall>t \<in> set (fw_tasks (enqueue hop c s)). wr_chan t < fw_next_chan (enqueue hop c s) \<and>
        length (wr_queue t) \<le> WRITER_QUEUE"
      using inv unfolding fw_inv_def spawned(3) by (auto simp: WRITER_QUEUE_def)
  qed (use inv spawned(2,3) in \<open>simp_all add: fw_inv_def task_bytes_def\<close>)
  then show ?thesis by (simp add: spawned(3) outgoing_def)
qed


subsection \<open>Events of a node\<close>

datatype ('n, 'x) fw_event =
    Originate "('n, 'x) route_hop" "('n, 'x) cell"
  | Arrive "('n, 'x) cell" 'n
  | Take nat
  | Written nat bool
  | Dial_failed nat
  | Poll "nat list" nat nat

text \<open>An event that names a task which is not there does nothing.\<close>

definition fw_step :: "('n, 'x) fw_event \<Rightarrow> ('n, 'x) forwarder \<Rightarrow> ('n, 'x) forwarder" where
  "fw_step ev s =
     (case ev of
        Originate hop c \<Rightarrow> enqueue hop c s
      | Arrive c upstream \<Rightarrow> handle_cell c upstream s
      | Take k \<Rightarrow> if k < length (fw_tasks s) then task_take k s else s
      | Written k ok \<Rightarrow> if k < length (fw_tasks s) then fst (task_written k ok s) else s
      | Dial_failed k \<Rightarrow> if k < length (fw_tasks s) then dial_failed k s else s
      | Poll bufs metas infos \<Rightarrow> snd (poll_recv bufs metas infos s))"

lemma note_drop_inv [simp]: "fw_inv (note_drop s) = fw_inv s" "outgoing (note_drop s) = outgoing s"
  "fw_inbound (note_drop s) = fw_inbound s"
  by (simp_all add: note_drop_def fw_inv_def outgoing_def)

lemma deliver_inv: "fw_inv s \<Longrightarrow> fw_inv (deliver c s)"
  by (auto simp: deliver_def fw_inv_def note_drop_def split: option.split)

lemma handle_inv: "fw_inv s \<Longrightarrow> fw_inv (handle_cell c upstream s)"
  using enqueue_inv [of s] deliver_inv [of s c] by (auto simp: handle_cell_def split: option.splits)

text \<open>Replacing a task by one with the same channel and hop and no longer queue.\<close>

lemma replace_task_inv:
  assumes inv: "fw_inv s" and k: "k < length (fw_tasks s)"
    and t: "wr_chan t = wr_chan (fw_tasks s ! k)" "wr_dst t = wr_dst (fw_tasks s ! k)"
      "length (wr_queue t) \<le> WRITER_QUEUE" "task_bytes t + cost = task_bytes (fw_tasks s ! k)"
  shows "fw_inv (release cost (s\<lparr>fw_tasks := (fw_tasks s)[k := t]\<rparr>))"
proof -
  obtain as u bs where ts: "fw_tasks s = as @ u # bs" "length as = k"
    using k by (metis id_take_nth_drop length_take min.absorb4)
  then have u: "fw_tasks s ! k = u" and new: "(fw_tasks s)[k := t] = as @ t # bs"
    by (auto simp: nth_append list_update_append)
  show ?thesis
    using inv t unfolding new u unfolding fw_inv_def release_def by (auto simp: ts(1))
qed

lemma retire_other:
  "map_of (fw_writers (retire key ch s)) k = Some c \<Longrightarrow>
   map_of (fw_writers s) k = Some c \<and> \<not> (k = key \<and> c = ch)"
  by (auto simp: retire_def delete_conv' split: if_splits)

lemma retire_frame [simp]:
  "fw_tasks (retire key ch s) = fw_tasks s" "fw_queued_bytes (retire key ch s) = fw_queued_bytes s"
  "fw_inbound (retire key ch s) = fw_inbound s" "fw_next_chan (retire key ch s) = fw_next_chan s"
  "length (fw_writers (retire key ch s)) \<le> length (fw_writers s)"
  "distinct (map fst (fw_writers s)) \<Longrightarrow> distinct (map fst (fw_writers (retire key ch s)))"
  by (auto simp: retire_def length_delete_le distinct_delete)

lemma task_end_inv:
  assumes inv: "fw_inv s" and k: "k < length (fw_tasks s)" and idle: "wr_writing (fw_tasks s ! k) = None"
  shows "fw_inv (task_end k s)"
proof -
  obtain as u bs where ts: "fw_tasks s = as @ u # bs" "length as = k"
    using k by (metis id_take_nth_drop length_take min.absorb4)
  then have u: "fw_tasks s ! k = u" and cut: "take k (fw_tasks s) @ drop (Suc k) (fw_tasks s) = as @ bs"
    by auto
  let ?r = "retire (wr_dst u) (wr_chan u) s"
  have e: "task_end k s = release (cells_bytes (wr_queue u)) (?r\<lparr>fw_tasks := as @ bs\<rparr>)"
    by (simp add: task_end_def Let_def u cut)
  have "task_bytes u = cells_bytes (wr_queue u)" using idle u by (simp add: task_bytes_def)
  moreover have "\<exists>t \<in> set (as @ bs). wr_chan t = ch \<and> wr_dst t = key"
    if "map_of (fw_writers ?r) key = Some ch" for key ch
  proof -
    have old: "map_of (fw_writers s) key = Some ch" "\<not> (key = wr_dst u \<and> ch = wr_chan u)"
      using retire_other [OF that] by blast+
    then obtain t where "t \<in> set (fw_tasks s)" "wr_chan t = ch" "wr_dst t = key"
      using inv unfolding fw_inv_def by blast
    then show ?thesis using old(2) ts(1) by auto
  qed
  moreover have "length (fw_writers ?r) \<le> MAX_WRITERS"
    using inv retire_frame(5) [of "wr_dst u" "wr_chan u" s] unfolding fw_inv_def by linarith
  ultimately show ?thesis
    using inv unfolding e unfolding fw_inv_def release_def by (auto simp: ts(1))
qed

lemma fw_step_inv:
  assumes "fw_inv s"
  shows "fw_inv (fw_step ev s)"
proof (cases ev)
  case (Originate hop c)
  then show ?thesis using enqueue_inv [OF assms] by (simp add: fw_step_def)
next
  case (Arrive c upstream)
  then show ?thesis using handle_inv [OF assms] by (simp add: fw_step_def)
next
  case (Take k)
  have "fw_inv (task_take k s)" if k: "k < length (fw_tasks s)"
  proof (cases "wr_writing (fw_tasks s ! k)"; cases "wr_queue (fw_tasks s ! k)")
    fix c cs assume t: "wr_writing (fw_tasks s ! k) = None" "wr_queue (fw_tasks s ! k) = c # cs"
    let ?t = "(fw_tasks s ! k)\<lparr>wr_writing := Some c, wr_queue := cs\<rparr>"
    have "length (wr_queue (fw_tasks s ! k)) \<le> WRITER_QUEUE" using assms k unfolding fw_inv_def by simp
    then have "fw_inv (release 0 (s\<lparr>fw_tasks := (fw_tasks s)[k := ?t]\<rparr>))"
      using t by (intro replace_task_inv [OF assms k]) (simp_all add: task_bytes_def)
    then show ?thesis using t by (simp add: task_take_def release_def)
  qed (simp_all add: task_take_def assms)
  then show ?thesis by (simp add: Take fw_step_def assms)
next
  case (Written k ok)
  have "fw_inv (fst (task_written k ok s))" if k: "k < length (fw_tasks s)"
  proof (cases "wr_writing (fw_tasks s ! k)")
    case (Some c)
    let ?t = "(fw_tasks s ! k)\<lparr>wr_writing := None\<rparr>"
    let ?s = "release (length (ce_packet c)) (s\<lparr>fw_tasks := (fw_tasks s)[k := ?t]\<rparr>)"
    have "length (wr_queue (fw_tasks s ! k)) \<le> WRITER_QUEUE" using assms k unfolding fw_inv_def by simp
    then have inv: "fw_inv ?s"
      using Some by (intro replace_task_inv [OF assms k]) (simp_all add: task_bytes_def)
    then have "fw_inv (task_end k ?s)" by (rule task_end_inv) (use k in \<open>simp_all add: release_def\<close>)
    then show ?thesis using inv Some by (simp add: task_written_def Let_def)
  qed (simp add: task_written_def assms)
  then show ?thesis by (simp add: Written fw_step_def assms)
next
  case (Dial_failed k)
  then show ?thesis using task_end_inv [OF assms] assms by (simp add: fw_step_def dial_failed_def)
next
  case (Poll bufs metas infos)
  then show ?thesis using assms by (auto simp: fw_step_def poll_recv_def Let_def fw_inv_def)
qed

lemma fw_run_inv: "fw_inv (fold fw_step evs (fw_new u a))"
proof (induction evs rule: rev_induct)
  case Nil
  then show ?case by (simp add: fw_inv_def fw_new_def)
qed (simp add: fw_step_inv)

subsection \<open>Correctness\<close>

text \<open>A cell written to a stream is read back as it was, and what follows it on the stream is left
  there, for any codec that decodes what it encodes within the frame limit and any legal route with
  the position on it.\<close>

theorem cell_round_trip:
  assumes "dec (enc (ce_path c, ce_pos c, ce_source c, ce_packet c)) =
      Some (ce_path c, ce_pos c, ce_source c, ce_packet c)"
    and "length (enc (ce_path c, ce_pos c, ce_source c, ce_packet c)) \<le> MAX_CELL_BYTES"
    and "route_new (ce_path c) = Some r" "current_hop c = Some here"
  shows "\<exists>bs. write_cell enc c = Inr bs \<and> read_cell dec (bs @ rest) = Inr (c, rest)"
  using assms by (intro read_write) (auto simp: route_new_some current_hop_def hop_at_def split: if_splits)

definition demo_hop :: "nat \<Rightarrow> (nat, unit) route_hop" where
  "demo_hop n = \<lparr>rh_app_id = n + 100, rh_underlay = \<lparr>ea_id = n, ea_paths = ()\<rparr>\<rparr>"

definition demo_cell :: "nat \<Rightarrow> (nat, unit) cell" where
  "demo_cell pos = \<lparr>ce_path = [demo_hop 1, demo_hop 2], ce_pos = pos, ce_source = demo_hop 0, ce_packet = []\<rparr>"

text \<open>A codec for cells of the demonstration: the position, in unary.\<close>

definition demo_enc :: "(nat, unit) raw_cell \<Rightarrow> bytes" where
  "demo_enc raw = (case raw of (hops, pos, _) \<Rightarrow> replicate pos 7)"

definition demo_dec :: "bytes \<Rightarrow> (nat, unit) raw_cell option" where
  "demo_dec bs = Some ([demo_hop 1, demo_hop 2], length bs, demo_hop 0, [])"

theorem cell_round_trip_witness:
  "\<exists>bs. write_cell demo_enc (demo_cell 1) = Inr bs \<and> read_cell demo_dec (bs @ [9]) = Inr (demo_cell 1, [9])"
  by (rule cell_round_trip [where r = "[demo_hop 1, demo_hop 2]" and here = "demo_hop 2"])
    (code_simp, simp add: demo_enc_def demo_cell_def MAX_CELL_BYTES_def, code_simp, code_simp)

subsubsection \<open>Relaying\<close>

text \<open>C16: A cell read off the wire makes a node write nothing, or put one cell in one channel, or put one
  packet in its inbox. The last two happen only when the route names this node at the position and
  the authenticated sender is the hop before it; the position grows by one and stays below the eight
  hops of a legal route.\<close>

theorem relay_no_amplification:
  assumes "read_cell dec input = Inr (c, rest)"
    and "s = fold fw_step evs (fw_new u a)" and "s' = handle_cell c upstream s"
  shows "(outgoing s' = outgoing s \<and> fw_inbound s' = fw_inbound s) \<or>
    (\<exists>here up. current_hop c = Some here \<and> is_self here s \<and>
       expected_upstream c = Some up \<and> ea_id (rh_underlay up) = upstream \<and>
       ((\<exists>nxt. next_hop c = Some nxt \<and> current_hop (advanced c) = Some nxt \<and>
           ce_pos (advanced c) < MAX_ROUTE_HOPS \<and> fw_inbound s' = fw_inbound s \<and>
           outgoing s' = outgoing s + {#(ea_id (rh_underlay nxt), advanced c)#}) \<or>
        (\<exists>r. next_hop c = None \<and> reverse_from (ce_path c) (ce_source c) = Some r \<and>
           outgoing s' = outgoing s \<and> fw_inbound s' = fw_inbound s @ [(r, ce_packet c)])))"
proof -
  have inv: "fw_inv s" unfolding assms(2) by (rule fw_run_inv)
  have legal: "length (ce_path c) \<le> MAX_ROUTE_HOPS"
    using assms(1) by (auto simp: read_cell_def Let_def route_new_some route_ok_def
        split: if_splits option.splits)
  show ?thesis
  proof (cases "\<exists>here up. current_hop c = Some here \<and> is_self here s \<and>
       expected_upstream c = Some up \<and> ea_id (rh_underlay up) = upstream")
    case False
    then have "s' = note_drop s"
      unfolding assms(3) by (auto simp: handle_cell_def split: option.splits)
    then show ?thesis by simp
  next
    case True
    then have run: "s' = (case next_hop c of Some nxt \<Rightarrow> enqueue nxt (advanced c) s | None \<Rightarrow> deliver c s)"
      unfolding assms(3) by (auto simp: handle_cell_def split: option.splits)
    show ?thesis
    proof (cases "next_hop c")
      case None
      have "(outgoing s' = outgoing s \<and> fw_inbound s' = fw_inbound s) \<or>
        (\<exists>r. reverse_from (ce_path c) (ce_source c) = Some r \<and> outgoing s' = outgoing s \<and>
           fw_inbound s' = fw_inbound s @ [(r, ce_packet c)])"
        unfolding run None by (auto simp: deliver_def outgoing_def note_drop_def split: option.split)
      then show ?thesis using True None by blast
    next
      case (Some nxt)
      then have "current_hop (advanced c) = Some nxt" "ce_pos (advanced c) < MAX_ROUTE_HOPS"
        using legal by (auto simp: next_hop_def current_hop_def advanced_def hop_at_def split: if_splits)
      moreover have "s' = enqueue nxt (advanced c) s" using run Some by simp
      ultimately show ?thesis
        using enqueue_inv [OF inv, of nxt "advanced c"] True Some by blast
    qed
  qed
qed

theorem relay_no_amplification_witness:
  "let s = fw_new 1 101; s' = handle_cell (demo_cell 0) 0 s in
     (outgoing s' = outgoing s \<and> fw_inbound s' = fw_inbound s) \<or>
     outgoing s' = outgoing s + {#(2, demo_cell 1)#}"
proof -
  have "read_cell demo_dec [0, 0, 0, 0] = Inr (demo_cell 0, [])"
    by code_simp
  from relay_no_amplification [OF this refl refl, where evs = "[]" and u = 1 and a = 101 and upstream = 0] show ?thesis
    by (auto simp: Let_def demo_cell_def demo_hop_def next_hop_def advanced_def hop_at_def split: if_splits)
qed

text \<open>C32: Whatever a node sends, receives, writes and fails to write: the byte counter is the sum of the
  packets its tasks hold and never exceeds 32 MiB, no channel holds more than 128 cells, the writer map
  has at most 64 entries, each of a task that runs, and the inbox at most 256 packets.\<close>

theorem forwarder_accounting:
  "let s = fold fw_step evs (fw_new u a) in
     fw_queued_bytes s = sum_list (map task_bytes (fw_tasks s)) \<and> fw_queued_bytes s \<le> FORWARD_QUEUE_BYTES \<and>
     list_all (\<lambda>t. length (wr_queue t) \<le> WRITER_QUEUE) (fw_tasks s) \<and>
     length (fw_writers s) \<le> MAX_WRITERS \<and> snd ` set (fw_writers s) \<subseteq> wr_chan ` set (fw_tasks s) \<and>
     length (fw_inbound s) \<le> INBOUND_CAP"
proof -
  let ?s = "fold fw_step evs (fw_new u a)"
  have inv: "fw_inv ?s" by (rule fw_run_inv)
  have "snd ` set (fw_writers ?s) \<subseteq> wr_chan ` set (fw_tasks ?s)"
  proof
    fix ch assume "ch \<in> snd ` set (fw_writers ?s)"
    then obtain key where "(key, ch) \<in> set (fw_writers ?s)" by auto
    moreover have "distinct (map fst (fw_writers ?s))" using inv unfolding fw_inv_def by blast
    ultimately have "map_of (fw_writers ?s) key = Some ch" by simp
    then show "ch \<in> wr_chan ` set (fw_tasks ?s)" using inv unfolding fw_inv_def by blast
  qed
  moreover have "list_all (\<lambda>t. length (wr_queue t) \<le> WRITER_QUEUE) (fw_tasks ?s)"
    using inv unfolding fw_inv_def list_all_iff by blast
  ultimately show ?thesis using inv unfolding fw_inv_def Let_def by blast
qed

subsubsection \<open>Writers without bound\<close>

definition full_writers :: "'n \<Rightarrow> ('n, 'x) cell \<Rightarrow> nat \<Rightarrow> nat \<Rightarrow> ('n, 'x) writer list" where
  "full_writers d c n m = map (\<lambda>ch. \<lparr>wr_chan = ch, wr_dst = d, wr_queue = replicate WRITER_QUEUE c, wr_writing = None\<rparr>) [0..<n]
     @ [\<lparr>wr_chan = n, wr_dst = d, wr_queue = replicate m c, wr_writing = None\<rparr>]"

definition flooded :: "'n \<Rightarrow> 'n \<Rightarrow> 'n \<Rightarrow> ('n, 'x) cell \<Rightarrow> nat \<Rightarrow> nat \<Rightarrow> ('n, 'x) forwarder" where
  "flooded u a d c n m = (fw_new u a)\<lparr>fw_writers := [(d, n)], fw_next_chan := n + 1, fw_tasks := full_writers d c n m\<rparr>"

lemma find_last_writer: "find_idx (\<lambda>t. wr_chan t = n) (full_writers d c n m) = Some n"
  by (auto simp: find_idx_Some full_writers_def nth_append)

lemma chan_send_flooded:
  "chan_send n c (full_writers d c n m) = (if m < WRITER_QUEUE then Some (full_writers d c n (Suc m)) else None)"
  by (auto simp: chan_send_def find_last_writer) 
     (auto simp: full_writers_def nth_append list_update_append replicate_append_same)

lemma enqueue_first:
  "ce_packet c = [] \<Longrightarrow> enqueue hop c (fw_new u a) = flooded u a (ea_id (rh_underlay hop)) c 0 1"
  using chan_send_fresh [of "[]" 0 c "ea_id (rh_underlay hop)"]
  by (simp add: enqueue_def fw_new_def flooded_def full_writers_def spawn_writer_def MAX_WRITERS_def Let_def)

lemma enqueue_flooded:
  assumes "ce_packet c = []" "m \<le> WRITER_QUEUE"
  shows "enqueue hop c (flooded u a (ea_id (rh_underlay hop)) c n m) =
    (if m < WRITER_QUEUE then flooded u a (ea_id (rh_underlay hop)) c n (Suc m)
     else flooded u a (ea_id (rh_underlay hop)) c (Suc n) 1)"
proof (cases "m < WRITER_QUEUE")
  case True
  then show ?thesis using assms by (simp add: enqueue_def flooded_def fw_new_def chan_send_flooded Let_def)
next
  case False
  let ?d = "ea_id (rh_underlay hop)"
  have m: "m = WRITER_QUEUE" using False assms(2) by simp
  have full: "full_writers ?d c n m @ [\<lparr>wr_chan = Suc n, wr_dst = ?d, wr_queue = [], wr_writing = None\<rparr>] =
      full_writers ?d c (Suc n) 0" by (simp add: full_writers_def m)
  have "0 < WRITER_QUEUE" by (simp add: WRITER_QUEUE_def)
  then show ?thesis
    using False assms(1) chan_send_flooded [of "Suc n" c ?d 0] full
    by (simp add: enqueue_def flooded_def fw_new_def chan_send_flooded spawn_writer_def MAX_WRITERS_def Let_def)
qed

lemma flood:
  assumes "ce_packet c = []"
  shows "((enqueue hop c) ^^ Suc k) (fw_new u a) =
    flooded u a (ea_id (rh_underlay hop)) c (k div WRITER_QUEUE) (Suc (k mod WRITER_QUEUE))"
proof (induction k)
  case 0
  then show ?case using enqueue_first [OF assms] by (simp add: WRITER_QUEUE_def)
next
  case (Suc k)
  have "Suc (k mod WRITER_QUEUE) \<le> WRITER_QUEUE" by (simp add: WRITER_QUEUE_def less_eq_Suc_le [symmetric])
  moreover have "((enqueue hop c) ^^ Suc (Suc k)) (fw_new u a) = enqueue hop c (((enqueue hop c) ^^ Suc k) (fw_new u a))"
    by simp
  ultimately show ?case unfolding Suc.IH
    by (simp add: enqueue_flooded [OF assms] div_Suc mod_Suc WRITER_QUEUE_def)
qed

lemma is_self_flooded: "is_self hop (flooded u a d c n m) = is_self hop (fw_new u a)"
  by (simp add: is_self_def flooded_def)

text \<open>The number of writer tasks is not bounded. \<open>enqueue\<close> takes a full channel for a dead one and
  replaces its writer, which runs on; the ceiling counts entries of the map, one per hop, and a packet of
  no bytes costs nothing. So \<open>128 * n\<close> cells from one neighbour for one hop leave \<open>n\<close> tasks
  for that hop with 128 cells each, one entry in the map, no byte counted and nothing dropped.\<close>

theorem writer_tasks_unbounded:
  assumes "current_hop c = Some here" "is_self here (fw_new u a)"
    and "expected_upstream c = Some up" "next_hop c = Some nxt" "ce_packet c = []"
  shows "let s = fold fw_step (replicate (WRITER_QUEUE * Suc n) (Arrive c (ea_id (rh_underlay up)))) (fw_new u a) in
    length (fw_tasks s) = Suc n \<and>
    list_all (\<lambda>t. wr_dst t = ea_id (rh_underlay nxt) \<and> length (wr_queue t) = WRITER_QUEUE) (fw_tasks s) \<and>
    length (fw_writers s) = 1 \<and> fw_queued_bytes s = 0 \<and> fw_dropped s = 0"
proof -
  let ?d = "ea_id (rh_underlay nxt)" and ?ev = "Arrive c (ea_id (rh_underlay up))"
  have pkt: "ce_packet (advanced c) = []" using assms(5) by (simp add: advanced_def)
  have step: "fw_step ?ev s = enqueue nxt (advanced c) s" if "is_self here s" for s
    using that assms by (simp add: fw_step_def handle_cell_def)
  have run: "fold fw_step (replicate (Suc k) ?ev) (fw_new u a) = ((enqueue nxt (advanced c)) ^^ Suc k) (fw_new u a)" for k
  proof (induction k)
    case 0
    then show ?case using step [OF assms(2)] by simp
  next
    case (Suc k)
    have "fold fw_step (replicate (Suc (Suc k)) ?ev) (fw_new u a) = fw_step ?ev (fold fw_step (replicate (Suc k) ?ev) (fw_new u a))"
      by (metis fold_append fold_simps comp_apply replicate_Suc replicate_append_same)
    moreover have "is_self here (((enqueue nxt (advanced c)) ^^ Suc k) (fw_new u a))"
      unfolding flood [OF pkt] using assms(2) by (simp add: is_self_flooded)
    ultimately show ?case unfolding Suc.IH using step by simp
  qed
  have k: "WRITER_QUEUE * Suc n = Suc (127 + 128 * n)" "(127 + 128 * n) div WRITER_QUEUE = n"
    "Suc ((127 + 128 * n) mod WRITER_QUEUE) = WRITER_QUEUE" by (simp_all add: WRITER_QUEUE_def)
  show ?thesis
    unfolding k(1) run flood [OF pkt] k(2,3) Let_def
    by (auto simp: flooded_def full_writers_def fw_new_def list_all_iff)
qed

theorem writer_tasks_unbounded_witness:
  "length (fw_tasks (fold fw_step (replicate (WRITER_QUEUE * 1000) (Arrive (demo_cell 0) 0)) (fw_new 1 101))) = 1000"
  using writer_tasks_unbounded [of "demo_cell 0" "demo_hop 1" 1 101 "demo_hop 0" "demo_hop 2" 999]
  by (simp add: Let_def demo_cell_def demo_hop_def current_hop_def next_hop_def hop_at_def is_self_def
      expected_upstream_def fw_new_def)

text \<open>The address a destination reports for a packet leads back: reversing the route of a delivered
  cell at the destination, and then the reply's route at the source, gives the first route again.\<close>

theorem reply_round_trip:
  assumes "route_new (relays @ [dest]) = Some fwd" "\<not> revisits_us fwd source"
    "reverse_from fwd source = Some back"
  shows "route_new back = Some back \<and> \<not> revisits_us back dest \<and> last back = source \<and>
    reverse_from back dest = Some fwd"
proof -
  have ok: "fwd = relays @ [dest]" "route_ok (relays @ [dest])" using assms(1) by (auto simp: route_new_some)
  have ns: "\<forall>h \<in> set (relays @ [dest]). \<not> same_node h source"
    using assms(2) ok(1) by (auto simp: revisits_us_def list_ex_iff)
  then have bk: "back = rev relays @ [source]"
    using reverse_from_ok [OF ok(2), of source] assms(3) ok(1) by simp
  have bok: "route_ok (rev relays @ [source])"
    using assms(3) bk by (simp add: reverse_from_def route_new_some)
  have nd: "\<forall>h \<in> set relays. \<not> same_node h dest"
    using ok(2) by (auto simp: route_ok_def same_node_def rev_image_eqI)
  have "\<not> same_node source dest" using ns by (auto simp: same_node_def)
  moreover have "reverse_from (rev relays @ [source]) dest = Some (rev (rev relays) @ [dest])"
    using reverse_from_ok [OF bok] nd by simp
  ultimately show ?thesis
    using bok nd by (auto simp: bk ok(1) route_new_some revisits_us_def list_ex_iff)
qed

theorem reply_round_trip_witness:
  "reverse_from [demo_hop 2, demo_hop 1, demo_hop 0] (demo_hop 3) = Some [demo_hop 1, demo_hop 2, demo_hop 3]"
proof -
  have "route_new ([demo_hop 1, demo_hop 2] @ [demo_hop 3]) = Some [demo_hop 1, demo_hop 2, demo_hop 3]"
    "\<not> revisits_us [demo_hop 1, demo_hop 2, demo_hop 3] (demo_hop 0)"
    "reverse_from [demo_hop 1, demo_hop 2, demo_hop 3] (demo_hop 0) = Some [demo_hop 2, demo_hop 1, demo_hop 0]"
    by code_simp+
  from reply_round_trip [OF this] show ?thesis by simp
qed

end
