(* ===== verification/SessionRegistry.thy ===== *)
theory SessionRegistry
  imports Prelude "HOL-Library.AList" "HOL-Library.Multiset"
begin

text \<open>
  The session table of the WebRTC transport and what its ends agree on beside it:
  \<open>registry.rs\<close>, \<open>addr.rs\<close>, \<open>signaling.rs\<close> and \<open>ice_uri.rs\<close> of
  \<open>fofoca-iroh-webrtc-transport/src\<close>. Every operation of the table holds its lock, so the operations
  happen one after the other. What is dropped with a slot is kept in a list, so that the teardown of a
  session, its \<open>Drop\<close>, can be spoken about. The generation counter is not bounded here; the code's
  is a \<open>u64\<close> that goes up by one per attempt to connect.
\<close>

subsection \<open>The table\<close>

record 't session_slot =
  sl_generation :: nat
  sl_value :: "'t option"

record ('n, 't) registry =
  rg_slots :: "('n \<times> 't session_slot) list"
  rg_next_generation :: nat
  rg_dropped :: "'t list"

definition rg_new :: "('n, 't) registry" where
  "rg_new = \<lparr>rg_slots = [], rg_next_generation = 0, rg_dropped = []\<rparr>"

text \<open>A \<open>Reservation\<close> and a \<open>SessionGuard\<close> name the slot they hold.\<close>

record 'n holder =
  ho_remote :: 'n
  ho_generation :: nat

definition live :: "'t session_slot \<Rightarrow> bool" where
  "live s = (sl_value s \<noteq> None)"

definition rg_reserve :: "'n \<Rightarrow> ('n, 't) registry \<Rightarrow> 'n holder option \<times> ('n, 't) registry" where
  "rg_reserve remote g =
     (if map_of (rg_slots g) remote \<noteq> None then (None, g)
      else let generation = rg_next_generation g in
        (Some \<lparr>ho_remote = remote, ho_generation = generation\<rparr>,
         g\<lparr>rg_next_generation := generation + 1,
           rg_slots := (remote, \<lparr>sl_generation = generation, sl_value = None\<rparr>) # rg_slots g\<rparr>))"

definition rg_is_live :: "'n \<Rightarrow> ('n, 't) registry \<Rightarrow> bool" where
  "rg_is_live remote g = (case map_of (rg_slots g) remote of None \<Rightarrow> False | Some s \<Rightarrow> live s)"

definition rg_live_len :: "('n, 't) registry \<Rightarrow> nat" where
  "rg_live_len g = length (filter live (map snd (rg_slots g)))"

definition rg_live_ids :: "('n, 't) registry \<Rightarrow> 'n list" where
  "rg_live_ids g = map fst (filter (\<lambda>(_, s). live s) (rg_slots g))"

definition rg_with_live :: "'n \<Rightarrow> ('t \<Rightarrow> 'r) \<Rightarrow> ('n, 't) registry \<Rightarrow> 'r option" where
  "rg_with_live remote f g =
     (case map_of (rg_slots g) remote of None \<Rightarrow> None | Some s \<Rightarrow> map_option f (sl_value s))"

text \<open>Taking a slot out drops its payload.\<close>

definition payload :: "'t session_slot \<Rightarrow> 't list" where
  "payload s = (case sl_value s of None \<Rightarrow> [] | Some v \<Rightarrow> [v])"

definition take_out :: "'n \<Rightarrow> 't session_slot \<Rightarrow> ('n, 't) registry \<Rightarrow> ('n, 't) registry" where
  "take_out remote s g =
     g\<lparr>rg_slots := AList.delete remote (rg_slots g), rg_dropped := rg_dropped g @ payload s\<rparr>"

definition rg_remove :: "'n \<Rightarrow> ('n, 't) registry \<Rightarrow> bool \<times> ('n, 't) registry" where
  "rg_remove remote g =
     (case map_of (rg_slots g) remote of None \<Rightarrow> (False, g) | Some s \<Rightarrow> (live s, take_out remote s g))"

definition rg_remove_if_generation :: "'n \<Rightarrow> nat \<Rightarrow> ('n, 't) registry \<Rightarrow> bool \<times> ('n, 't) registry" where
  "rg_remove_if_generation remote generation g =
     (case map_of (rg_slots g) remote of
        None \<Rightarrow> (False, g)
      | Some s \<Rightarrow> if sl_generation s \<noteq> generation then (False, g) else (live s, take_out remote s g))"

definition rg_clear :: "('n, 't) registry \<Rightarrow> nat \<times> ('n, 't) registry" where
  "rg_clear g =
     (length (filter live (map snd (rg_slots g))),
      g\<lparr>rg_slots := [], rg_dropped := rg_dropped g @ concat (map (payload \<circ> snd) (rg_slots g))\<rparr>)"

definition rv_fulfil :: "'n holder \<Rightarrow> 't \<Rightarrow> ('n, 't) registry \<Rightarrow> 'n holder option \<times> ('n, 't) registry" where
  "rv_fulfil r v g =
     (case map_of (rg_slots g) (ho_remote r) of
        None \<Rightarrow> (None, g\<lparr>rg_dropped := rg_dropped g @ [v]\<rparr>)
      | Some s \<Rightarrow>
          if sl_generation s \<noteq> ho_generation r \<or> live s then (None, g\<lparr>rg_dropped := rg_dropped g @ [v]\<rparr>)
          else (Some r, g\<lparr>rg_slots := AList.update (ho_remote r) (s\<lparr>sl_value := Some v\<rparr>) (rg_slots g)\<rparr>))"

definition rv_drop :: "'n holder \<Rightarrow> ('n, 't) registry \<Rightarrow> ('n, 't) registry" where
  "rv_drop r g = snd (rg_remove_if_generation (ho_remote r) (ho_generation r) g)"

definition sg_drop :: "bool \<Rightarrow> 'n holder \<Rightarrow> ('n, 't) registry \<Rightarrow> ('n, 't) registry" where
  "sg_drop committed r g =
     (if committed then g else snd (rg_remove_if_generation (ho_remote r) (ho_generation r) g))"

subsection \<open>Sessions that come and go\<close>

text \<open>The reservations and guards that are held, and what their holders and the hooks on the data
  channels do. A hook may name any peer and generation. An event for a holder that is not there does
  nothing.\<close>

record ('n, 't) hub =
  hu_registry :: "('n, 't) registry"
  hu_reservations :: "'n holder list"
  hu_guards :: "'n holder list"
  hu_offered :: "'t list"

datatype ('n, 't) hub_event =
    Reserve 'n | Drop_reservation nat | Fulfil nat 't | Commit nat | Drop_guard nat
  | Close_hook 'n nat | Detach 'n | Clear

definition without :: "nat \<Rightarrow> 'a list \<Rightarrow> 'a list" where
  "without i xs = take i xs @ drop (Suc i) xs"

definition hub_step :: "('n, 't) hub_event \<Rightarrow> ('n, 't) hub \<Rightarrow> ('n, 't) hub" where
  "hub_step ev h =
     (case ev of
        Reserve remote \<Rightarrow>
          (case rg_reserve remote (hu_registry h) of (r, g) \<Rightarrow>
             h\<lparr>hu_registry := g, hu_reservations := hu_reservations h @ (case r of None \<Rightarrow> [] | Some r \<Rightarrow> [r])\<rparr>)
      | Drop_reservation i \<Rightarrow>
          if i < length (hu_reservations h)
          then h\<lparr>hu_registry := rv_drop (hu_reservations h ! i) (hu_registry h),
                 hu_reservations := without i (hu_reservations h)\<rparr> else h
      | Fulfil i v \<Rightarrow>
          if i < length (hu_reservations h)
          then (case rv_fulfil (hu_reservations h ! i) v (hu_registry h) of (gd, g) \<Rightarrow>
             h\<lparr>hu_registry := g, hu_reservations := without i (hu_reservations h),
               hu_guards := hu_guards h @ (case gd of None \<Rightarrow> [] | Some r \<Rightarrow> [r]), hu_offered := hu_offered h @ [v]\<rparr>)
          else h
      | Commit i \<Rightarrow>
          if i < length (hu_guards h)
          then h\<lparr>hu_registry := sg_drop True (hu_guards h ! i) (hu_registry h), hu_guards := without i (hu_guards h)\<rparr>
          else h
      | Drop_guard i \<Rightarrow>
          if i < length (hu_guards h)
          then h\<lparr>hu_registry := sg_drop False (hu_guards h ! i) (hu_registry h), hu_guards := without i (hu_guards h)\<rparr>
          else h
      | Close_hook remote generation \<Rightarrow>
          h\<lparr>hu_registry := snd (rg_remove_if_generation remote generation (hu_registry h))\<rparr>
      | Detach remote \<Rightarrow> h\<lparr>hu_registry := snd (rg_remove remote (hu_registry h))\<rparr>
      | Clear \<Rightarrow> h\<lparr>hu_registry := snd (rg_clear (hu_registry h))\<rparr>)"

definition hub_new :: "('n, 't) hub" where
  "hub_new = \<lparr>hu_registry = rg_new, hu_reservations = [], hu_guards = [], hu_offered = []\<rparr>"

text \<open>The invariant, over the reservations held and the payloads ever offered: generations are
  distinct and below the counter, a slot that is not live has its reservation held, a live one
  has not, and every payload is in one slot or was dropped.\<close>

definition rg_inv :: "('n, 't) registry \<Rightarrow> 'n holder list \<Rightarrow> 't list \<Rightarrow> bool" where
  "rg_inv g res offered \<longleftrightarrow>
     distinct (map fst (rg_slots g)) \<and>
     (\<forall>n s. map_of (rg_slots g) n = Some s \<longrightarrow> sl_generation s < rg_next_generation g) \<and>
     (\<forall>r \<in> set res. ho_generation r < rg_next_generation g) \<and>
     distinct (map ho_generation res) \<and>
     (\<forall>n s. map_of (rg_slots g) n = Some s \<longrightarrow> \<not> live s \<longrightarrow>
        \<lparr>ho_remote = n, ho_generation = sl_generation s\<rparr> \<in> set res) \<and>
     (\<forall>n s. map_of (rg_slots g) n = Some s \<longrightarrow> live s \<longrightarrow> sl_generation s \<notin> ho_generation ` set res) \<and>
     mset offered = mset (rg_dropped g) + mset (concat (map (payload \<circ> snd) (rg_slots g)))"

lemma set_without: "set (without i xs) \<subseteq> set xs"
  by (auto simp: without_def dest: in_set_takeD in_set_dropD)

lemma split_without:
  assumes "i < length xs"
  obtains as bs where "xs = as @ xs ! i # bs" "without i xs = as @ bs"
  using assms id_take_nth_drop [OF assms] by (auto simp: without_def)

lemma payloads_delete:
  assumes "distinct (map fst sl)" "map_of sl n = Some s"
  shows "mset (concat (map (payload \<circ> snd) sl)) =
    mset (payload s) + mset (concat (map (payload \<circ> snd) (AList.delete n sl)))"
  using assms
proof (induction sl)
  case (Cons e sl)
  then show ?case
    by (cases "fst e = n") (auto simp: delete_id map_of_eq_None_iff [symmetric] split: if_splits)
qed simp

lemma in_delete: "(m, s) \<in> set (AList.delete n sl) \<longleftrightarrow> (m, s) \<in> set sl \<and> m \<noteq> n"
  by (auto simp: AList.delete_eq)

lemma payloads_fill:
  assumes "distinct (map fst sl)" "map_of sl n = Some s" "\<not> live s"
  shows "mset (concat (map (payload \<circ> snd) (AList.update n (s\<lparr>sl_value := Some v\<rparr>) sl))) =
    add_mset v (mset (concat (map (payload \<circ> snd) sl)))"
  using assms
proof (induction sl)
  case (Cons e sl)
  then show ?case by (cases e; cases "fst e = n") (auto simp: payload_def live_def split: if_splits)
qed simp

lemma reserve_inv:
  assumes inv: "rg_inv g res offered" and r: "rg_reserve n g = (r, g')"
  shows "rg_inv g' (res @ (case r of None \<Rightarrow> [] | Some r \<Rightarrow> [r])) offered"
proof (cases "map_of (rg_slots g) n")
  case None
  then have e: "r = Some \<lparr>ho_remote = n, ho_generation = rg_next_generation g\<rparr>"
    "g' = g\<lparr>rg_next_generation := rg_next_generation g + 1,
       rg_slots := (n, \<lparr>sl_generation = rg_next_generation g, sl_value = None\<rparr>) # rg_slots g\<rparr>"
    using r by (auto simp: rg_reserve_def Let_def)
  have "n \<notin> fst ` set (rg_slots g)" using None by (simp add: map_of_eq_None_iff)
  moreover have "sl_generation t \<noteq> rg_next_generation g" if "(m, t) \<in> set (rg_slots g)" for m t
    using inv that unfolding rg_inv_def by (metis less_irrefl map_of_is_SomeI)
  ultimately show ?thesis
    using inv unfolding e rg_inv_def by (auto simp: live_def payload_def less_Suc_eq)
next
  case Some
  then show ?thesis using r inv by (auto simp: rg_reserve_def)
qed

lemma take_out_inv:
  assumes inv: "rg_inv g res offered" and s: "map_of (rg_slots g) n = Some s"
  shows "rg_inv (take_out n s g) res offered"
  using inv payloads_delete [of "rg_slots g" n s] s unfolding rg_inv_def
  by (auto simp: take_out_def delete_conv' distinct_delete split: if_splits)

lemma remove_if_generation_inv:
  "rg_inv g res offered \<Longrightarrow> rg_inv (snd (rg_remove_if_generation n k g)) res offered"
  using take_out_inv by (auto simp: rg_remove_if_generation_def split: option.split)

lemma remove_inv: "rg_inv g res offered \<Longrightarrow> rg_inv (snd (rg_remove n g)) res offered"
  using take_out_inv by (auto simp: rg_remove_def split: option.split)

lemma clear_inv: "rg_inv g res offered \<Longrightarrow> rg_inv (snd (rg_clear g)) res offered"
  by (auto simp: rg_clear_def rg_inv_def)

text \<open>A reservation may be given up when no slot that waits for it is left.\<close>

lemma forget_reservation_inv:
  assumes inv: "rg_inv g (as @ r # bs) offered"
    and gone: "\<And>s. map_of (rg_slots g) (ho_remote r) = Some s \<Longrightarrow> sl_generation s = ho_generation r \<Longrightarrow> live s"
  shows "rg_inv g (as @ bs) offered"
proof -
  have "\<lparr>ho_remote = n, ho_generation = sl_generation s\<rparr> \<in> set (as @ bs)"
    if n: "map_of (rg_slots g) n = Some s" "\<not> live s" for n s
  proof -
    have "\<lparr>ho_remote = n, ho_generation = sl_generation s\<rparr> \<in> set (as @ r # bs)"
      using inv n unfolding rg_inv_def by blast
    moreover have "\<lparr>ho_remote = n, ho_generation = sl_generation s\<rparr> \<noteq> r" using gone n by auto
    ultimately show ?thesis by auto
  qed
  moreover have "\<forall>n s. map_of (rg_slots g) n = Some s \<longrightarrow> live s \<longrightarrow> sl_generation s \<notin> ho_generation ` set (as @ bs)"
    using inv unfolding rg_inv_def by auto
  ultimately show ?thesis using inv unfolding rg_inv_def by auto
qed

lemma rv_drop_inv:
  assumes inv: "rg_inv g (as @ r # bs) offered"
  shows "rg_inv (rv_drop r g) (as @ bs) offered"
  unfolding rv_drop_def
proof (rule forget_reservation_inv [OF remove_if_generation_inv [OF inv]])
  fix s assume "map_of (rg_slots (snd (rg_remove_if_generation (ho_remote r) (ho_generation r) g))) (ho_remote r) = Some s"
    "sl_generation s = ho_generation r"
  then show "live s"
    by (auto simp: rg_remove_if_generation_def take_out_def delete_conv' split: option.splits if_splits)
qed

lemma rv_fulfil_inv:
  assumes inv: "rg_inv g (as @ r # bs) offered" and f: "rv_fulfil r v g = (gd, g')"
  shows "rg_inv g' (as @ bs) (offered @ [v])"
proof (cases "\<exists>s. map_of (rg_slots g) (ho_remote r) = Some s \<and> sl_generation s = ho_generation r \<and> \<not> live s")
  case False
  then have "rg_inv g (as @ bs) offered" by (intro forget_reservation_inv [OF inv]) blast
  moreover have "g' = g\<lparr>rg_dropped := rg_dropped g @ [v]\<rparr>"
    using f False by (auto simp: rv_fulfil_def split: option.splits if_splits)
  ultimately show ?thesis unfolding rg_inv_def by simp
next
  case True
  then obtain s where s: "map_of (rg_slots g) (ho_remote r) = Some s" "sl_generation s = ho_generation r" "\<not> live s"
    by blast
  let ?s = "s\<lparr>sl_value := Some v\<rparr>"
  have g': "g' = g\<lparr>rg_slots := AList.update (ho_remote r) ?s (rg_slots g)\<rparr>"
    using f s by (simp add: rv_fulfil_def)
  have d: "distinct (map fst (rg_slots g))" "distinct (map ho_generation (as @ r # bs))"
    using inv unfolding rg_inv_def by blast+
  have "ho_generation r \<notin> ho_generation ` set (as @ bs)" using d(2) by auto
  moreover have "\<lparr>ho_remote = n, ho_generation = sl_generation t\<rparr> \<in> set (as @ bs)"
    if "map_of (rg_slots g) n = Some t" "\<not> live t" "n \<noteq> ho_remote r" for n t
    using inv that unfolding rg_inv_def by fastforce
  moreover have "sl_generation t \<notin> ho_generation ` set (as @ bs)"
    if "map_of (rg_slots g) n = Some t" "live t" for n t
    using inv that unfolding rg_inv_def by auto
  moreover have "live ?s" by (simp add: live_def)
  moreover note payloads_fill [OF d(1) s(1,3), of v]
  ultimately show ?thesis
    using inv s(2) unfolding g' rg_inv_def
    by (auto simp: update_conv' distinct_update split: if_splits)
qed

lemma hub_step_inv:
  assumes "rg_inv (hu_registry h) (hu_reservations h) (hu_offered h)"
  shows "rg_inv (hu_registry (hub_step ev h)) (hu_reservations (hub_step ev h)) (hu_offered (hub_step ev h))"
proof (cases ev)
  case (Reserve n)
  then show ?thesis using reserve_inv [OF assms] by (simp add: hub_step_def split: prod.split)
next
  case (Drop_reservation i)
  have "rg_inv (rv_drop (hu_reservations h ! i) (hu_registry h)) (without i (hu_reservations h)) (hu_offered h)"
    if i: "i < length (hu_reservations h)"
  proof -
    obtain as bs where "hu_reservations h = as @ hu_reservations h ! i # bs" "without i (hu_reservations h) = as @ bs"
      using split_without [OF i] .
    then show ?thesis using rv_drop_inv assms by metis
  qed
  then show ?thesis using assms Drop_reservation by (simp add: hub_step_def)
next
  case (Fulfil i v)
  have "rg_inv g (without i (hu_reservations h)) (hu_offered h @ [v])"
    if i: "i < length (hu_reservations h)" "rv_fulfil (hu_reservations h ! i) v (hu_registry h) = (gd, g)" for gd g
  proof -
    obtain as bs where "hu_reservations h = as @ hu_reservations h ! i # bs" "without i (hu_reservations h) = as @ bs"
      using split_without [OF i(1)] .
    then show ?thesis using rv_fulfil_inv [OF _ i(2)] assms by metis
  qed
  then show ?thesis using assms Fulfil by (simp add: hub_step_def split: prod.split)
qed (use assms remove_if_generation_inv remove_inv clear_inv in \<open>auto simp: hub_step_def sg_drop_def\<close>)

lemma hub_run_inv:
  "rg_inv (hu_registry (fold hub_step evs hub_new)) (hu_reservations (fold hub_step evs hub_new))
     (hu_offered (fold hub_step evs hub_new))"
proof (induction evs rule: rev_induct)
  case Nil
  then show ?case by (simp add: rg_inv_def hub_new_def rg_new_def)
qed (simp add: hub_step_inv)

text \<open>C30: Whatever the callers and the hooks do: a slot is live or its reservation is still held, never
  both, so that no slot is left without an owner that can fill or free it; and every session ever
  offered to the table is in one slot or has been torn down, once.\<close>

theorem registry_no_phantom:
  "let h = fold hub_step evs hub_new; slots = rg_slots (hu_registry h) in
     list_all (\<lambda>(n, s). live s \<noteq> (\<lparr>ho_remote = n, ho_generation = sl_generation s\<rparr> \<in> set (hu_reservations h))) slots \<and>
     distinct (map fst slots) \<and>
     mset (hu_offered h) = mset (rg_dropped (hu_registry h)) + mset (concat (map (payload \<circ> snd) slots))"
proof -
  let ?h = "fold hub_step evs hub_new"
  have inv: "rg_inv (hu_registry ?h) (hu_reservations ?h) (hu_offered ?h)" by (rule hub_run_inv)
  have "live s \<noteq> (\<lparr>ho_remote = n, ho_generation = sl_generation s\<rparr> \<in> set (hu_reservations ?h))"
    if "(n, s) \<in> set (rg_slots (hu_registry ?h))" for n s
  proof -
    have m: "map_of (rg_slots (hu_registry ?h)) n = Some s" using inv that unfolding rg_inv_def by simp
    show ?thesis
    proof (cases "live s")
      case True
      then have "sl_generation s \<notin> ho_generation ` set (hu_reservations ?h)" using inv m unfolding rg_inv_def by blast
      then show ?thesis using True by force
    qed (use inv m in \<open>simp add: rg_inv_def\<close>)
  qed
  then show ?thesis using inv unfolding Let_def list_all_iff rg_inv_def by blast
qed

lemma committed_step:
  assumes inv: "rg_inv (hu_registry h) (hu_reservations h) (hu_offered h)"
    and s: "map_of (rg_slots (hu_registry h)) n = Some s" "live s"
    and own: "\<lparr>ho_remote = n, ho_generation = sl_generation s\<rparr> \<notin> set (hu_guards h)"
    and ev: "ev \<noteq> Detach n" "ev \<noteq> Clear" "ev \<noteq> Close_hook n (sl_generation s)"
  shows "map_of (rg_slots (hu_registry (hub_step ev h))) n = Some s \<and>
    \<lparr>ho_remote = n, ho_generation = sl_generation s\<rparr> \<notin> set (hu_guards (hub_step ev h))"
proof -
  have keep: "map_of (rg_slots (snd (rg_remove_if_generation m k (hu_registry h)))) n = Some s"
    if "\<not> (m = n \<and> k = sl_generation s)" for m k
    using s that by (auto simp: rg_remove_if_generation_def take_out_def delete_conv' split: option.split)
  have held: "r \<noteq> \<lparr>ho_remote = n, ho_generation = sl_generation s\<rparr>" if "r \<in> set (hu_reservations h)" for r
    using inv s that unfolding rg_inv_def by force
  have mine: "\<not> (ho_remote r = n \<and> ho_generation r = sl_generation s)"
    if "r \<noteq> \<lparr>ho_remote = n, ho_generation = sl_generation s\<rparr>" for r :: "'a holder"
    using that by (cases r) auto
  show ?thesis
  proof (cases ev)
    case (Reserve m)
    then show ?thesis using s own by (auto simp: hub_step_def rg_reserve_def Let_def)
  next
    case (Drop_reservation i)
    then show ?thesis using s own keep mine held by (simp add: hub_step_def rv_drop_def)
  next
    case (Fulfil i v)
    have "map_of (rg_slots g) n = Some s \<and> gd \<noteq> Some \<lparr>ho_remote = n, ho_generation = sl_generation s\<rparr>"
      if "i < length (hu_reservations h)" "rv_fulfil (hu_reservations h ! i) v (hu_registry h) = (gd, g)" for gd g
      using that(2) s held [OF nth_mem [OF that(1)]]
      by (auto simp: rv_fulfil_def update_conv' split: option.splits if_splits)
    moreover obtain gd g where "rv_fulfil (hu_reservations h ! i) v (hu_registry h) = (gd, g)" by fastforce
    ultimately show ?thesis using Fulfil s own by (cases gd) (auto simp: hub_step_def)
  next
    case (Commit i)
    then show ?thesis using s own subsetD [OF set_without [of i "hu_guards h"]] by (auto simp: hub_step_def sg_drop_def)
  next
    case (Drop_guard i)
    have "hu_guards h ! i \<noteq> \<lparr>ho_remote = n, ho_generation = sl_generation s\<rparr>" if "i < length (hu_guards h)"
      using own nth_mem [OF that] by metis
    then show ?thesis using Drop_guard s own keep mine subsetD [OF set_without [of i "hu_guards h"]]
      by (auto simp: hub_step_def sg_drop_def)
  next
    case (Close_hook m k)
    then show ?thesis using ev own keep by (auto simp: hub_step_def)
  next
    case (Detach m)
    then show ?thesis using ev s own
      by (auto simp: hub_step_def rg_remove_def take_out_def delete_conv' split: option.split)
  qed (use ev in simp)
qed

text \<open>A session that its holder has committed stays in the table, and with it the table's answer that
  the peer is reachable, until it is detached, the table is cleared, or its own hook fires. Holders
  and hooks of sessions before or after it cannot remove it.\<close>

theorem registry_session_survives:
  assumes "h = fold hub_step evs hub_new"
    and "map_of (rg_slots (hu_registry h)) n = Some s" "live s"
    and "\<lparr>ho_remote = n, ho_generation = sl_generation s\<rparr> \<notin> set (hu_guards h)"
    and "list_all (\<lambda>ev. ev \<noteq> Detach n \<and> ev \<noteq> Clear \<and> ev \<noteq> Close_hook n (sl_generation s)) later"
  shows "map_of (rg_slots (hu_registry (fold hub_step later h))) n = Some s \<and>
    rg_is_live n (hu_registry (fold hub_step later h))"
proof -
  have "map_of (rg_slots (hu_registry (fold hub_step later h))) n = Some s \<and>
      \<lparr>ho_remote = n, ho_generation = sl_generation s\<rparr> \<notin> set (hu_guards (fold hub_step later h))"
    using assms(5)
  proof (induction later rule: rev_induct)
    case Nil
    then show ?case using assms(2,4) by simp
  next
    case (snoc ev later)
    have inv: "rg_inv (hu_registry (fold hub_step later h)) (hu_reservations (fold hub_step later h))
        (hu_offered (fold hub_step later h))"
      using hub_run_inv [of "evs @ later"] by (simp add: assms(1))
    show ?case
      using committed_step [OF inv, of n s ev] snoc assms(3) by simp
  qed
  then show ?thesis using assms(3) by (simp add: rg_is_live_def)
qed

theorem registry_session_survives_witness:
  "rg_is_live 1 (hu_registry (fold hub_step [Drop_guard 0, Close_hook 1 0, Reserve 1, Close_hook 2 1]
     (fold hub_step [Reserve 1, Fulfil 0 ''old'', Detach 1, Reserve (1::nat), Fulfil 0 ''new'', Commit 1] hub_new)))"
  by (rule registry_session_survives [where s = "\<lparr>sl_generation = 1, sl_value = Some ''new''\<rparr>", OF refl, THEN conjunct2])
    (code_simp+)

subsection \<open>Addresses, signals and ICE servers\<close>

text \<open>A custom address is a transport id and bytes. What makes 32 bytes an endpoint id is a parameter.\<close>

definition WEBRTC_TRANSPORT_ID :: nat where "WEBRTC_TRANSPORT_ID = 0x57525443"

datatype addr_error = Unexpected_transport | Unexpected_length | Bad_key

definition custom_addr :: "bytes \<Rightarrow> nat \<times> bytes" where
  "custom_addr endpoint = (WEBRTC_TRANSPORT_ID, endpoint)"

definition parse_custom_addr :: "(bytes \<Rightarrow> bool) \<Rightarrow> nat \<times> bytes \<Rightarrow> addr_error + bytes" where
  "parse_custom_addr is_key addr =
     (if fst addr \<noteq> WEBRTC_TRANSPORT_ID then Inl Unexpected_transport
      else if length (snd addr) \<noteq> 32 then Inl Unexpected_length
      else if \<not> is_key (snd addr) then Inl Bad_key
      else Inr (snd addr))"

definition SIGNAL_VERSION :: nat where "SIGNAL_VERSION = 1"

datatype signal_envelope =
    Offer nat string string
  | Answer nat string string
  | Error nat string

definition se_offer :: "('n \<Rightarrow> string) \<Rightarrow> 'n \<Rightarrow> string \<Rightarrow> signal_envelope" where
  "se_offer to_string endpoint sdp = Offer SIGNAL_VERSION (to_string endpoint) sdp"

definition se_answer :: "('n \<Rightarrow> string) \<Rightarrow> 'n \<Rightarrow> string \<Rightarrow> signal_envelope" where
  "se_answer to_string endpoint sdp = Answer SIGNAL_VERSION (to_string endpoint) sdp"

definition se_error :: "string \<Rightarrow> signal_envelope" where
  "se_error reason = Error SIGNAL_VERSION reason"

datatype claim_error = Unparseable | Remote_error string

definition se_claimed_endpoint :: "(string \<Rightarrow> 'n option) \<Rightarrow> signal_envelope \<Rightarrow> claim_error + 'n" where
  "se_claimed_endpoint parse e =
     (let parsed = (\<lambda>endpoint. case parse endpoint of None \<Rightarrow> Inl Unparseable | Some n \<Rightarrow> Inr n) in
      case e of
        Offer _ endpoint _ \<Rightarrow> parsed endpoint
      | Answer _ endpoint _ \<Rightarrow> parsed endpoint
      | Error _ reason \<Rightarrow> Inl (Remote_error reason))"

text \<open>\<open>str::split_once\<close>.\<close>

fun split_once :: "char \<Rightarrow> string \<Rightarrow> (string \<times> string) option" where
  "split_once c [] = None"
| "split_once c (x # xs) =
     (if x = c then Some ([], xs)
      else case split_once c xs of None \<Rightarrow> None | Some (a, b) \<Rightarrow> Some (x # a, b))"

definition accept_ice_uri :: "string \<Rightarrow> string option" where
  "accept_ice_uri uri =
     (case split_once CHR '':'' uri of
        None \<Rightarrow> None
      | Some (scheme, tail) \<Rightarrow>
          if \<not> (scheme = ''stun'' \<or> scheme = ''stuns'') \<or> tail = [] then None
          else case split_once CHR ''?'' tail of
              None \<Rightarrow> Some uri
            | Some (host, _) \<Rightarrow> if host = [] then None else Some (scheme @ '':'' @ host))"

lemma split_once_None: "split_once c xs = None \<longleftrightarrow> c \<notin> set xs"
  by (induction xs) (auto split: option.splits)

lemma split_once_SomeD: "split_once c xs = Some (a, b) \<Longrightarrow> xs = a @ c # b \<and> c \<notin> set a"
proof (induction xs arbitrary: a)
  case (Cons x xs)
  then show ?case by (cases "x = c"; cases "split_once c xs") auto
qed simp

lemma split_once_at: "c \<notin> set a \<Longrightarrow> split_once c (a @ c # b) = Some (a, b)"
  by (induction a) auto

text \<open>A server address is accepted exactly when it is one of STUN with a host; what is handed to the
  browser is the address without its query, so that no TURN address and no query can reach it.\<close>

theorem accept_ice_uri_spec:
  "accept_ice_uri uri = Some u \<longleftrightarrow>
     (\<exists>scheme host. (scheme = ''stun'' \<or> scheme = ''stuns'') \<and> host \<noteq> [] \<and> CHR ''?'' \<notin> set host \<and>
        u = scheme @ '':'' @ host \<and> (uri = u \<or> (\<exists>query. uri = u @ ''?'' @ query)))"
proof
  assume acc: "accept_ice_uri uri = Some u"
  then obtain scheme tail where sp: "split_once CHR '':'' uri = Some (scheme, tail)"
    by (cases "split_once CHR '':'' uri") (auto simp: accept_ice_uri_def)
  note uri = split_once_SomeD [OF sp, THEN conjunct1]
  have ok: "scheme = ''stun'' \<or> scheme = ''stuns''" "tail \<noteq> []"
    using acc sp by (simp_all add: accept_ice_uri_def split: if_splits)
  show "\<exists>scheme host. (scheme = ''stun'' \<or> scheme = ''stuns'') \<and> host \<noteq> [] \<and> CHR ''?'' \<notin> set host \<and>
        u = scheme @ '':'' @ host \<and> (uri = u \<or> (\<exists>query. uri = u @ ''?'' @ query))"
  proof (cases "split_once CHR ''?'' tail")
    case None
    then have "u = uri" using acc sp ok by (auto simp: accept_ice_uri_def)
    then show ?thesis using ok uri None by (intro exI [of _ scheme] exI [of _ tail]) (simp add: split_once_None)
  next
    case (Some hq)
    then obtain host query where hq: "split_once CHR ''?'' tail = Some (host, query)" by (cases hq) auto
    then have "host \<noteq> []" "u = scheme @ '':'' @ host"
      using acc sp ok by (auto simp: accept_ice_uri_def split: if_splits)
    then show ?thesis using ok uri split_once_SomeD [OF hq]
      by (intro exI [of _ scheme] exI [of _ host]) simp
  qed
next
  assume "\<exists>scheme host. (scheme = ''stun'' \<or> scheme = ''stuns'') \<and> host \<noteq> [] \<and> CHR ''?'' \<notin> set host \<and>
        u = scheme @ '':'' @ host \<and> (uri = u \<or> (\<exists>query. uri = u @ ''?'' @ query))"
  then obtain scheme host where s: "scheme = ''stun'' \<or> scheme = ''stuns''" "host \<noteq> []" "CHR ''?'' \<notin> set host"
    "u = scheme @ '':'' @ host" "uri = u \<or> (\<exists>query. uri = u @ ''?'' @ query)" by blast
  have colon: "split_once CHR '':'' (scheme @ CHR '':'' # tail) = Some (scheme, tail)" for tail
    using s(1) by (intro split_once_at) auto
  show "accept_ice_uri uri = Some u"
    using s(5)
  proof
    assume "uri = u"
    moreover have "split_once CHR ''?'' host = None" using s(3) by (simp add: split_once_None)
    ultimately show ?thesis using s(1,2,4) colon [of host] by (auto simp: accept_ice_uri_def)
  next
    assume "\<exists>query. uri = u @ ''?'' @ query"
    then obtain query where q: "uri = scheme @ CHR '':'' # host @ CHR ''?'' # query" using s(4) by auto
    have "split_once CHR ''?'' (host @ CHR ''?'' # query) = Some (host, query)" using s(3) by (rule split_once_at)
    then show ?thesis using s(1,2,4) colon [of "host @ CHR ''?'' # query"] unfolding q
      by (auto simp: accept_ice_uri_def)
  qed
qed

end
