(* ===== verification/Text.thy ===== *)
theory Text
  imports Prelude
begin

text \<open>
  Rust strings and the names built from them: \<open>ident.rs\<close>, \<open>nickname.rs\<close> and \<open>mesh/name.rs\<close> of
  \<open>fofoca-protocol/src\<close>. A \<open>String\<close> is the list of its characters; a character is a number of 21 bits, which
  takes in the Unicode scalar values; \<open>utf8\<close> is \<open>as_bytes\<close>.
\<close>

subsection \<open>Strings\<close>

type_synonym uchar = "21 word"
type_synonym ustring = "21 word list"

definition ustr :: "string \<Rightarrow> ustring" where
  "ustr s = map of_char s"

definition utf8_char :: "uchar \<Rightarrow> bytes" where
  "utf8_char c = map ucast
     (if c < 0x80 then [c]
      else if c < 0x800 then [0xC0 + drop_bit 6 c, 0x80 + take_bit 6 c]
      else if c < 0x10000 then [0xE0 + drop_bit 12 c, 0x80 + take_bit 6 (drop_bit 6 c), 0x80 + take_bit 6 c]
      else [0xF0 + drop_bit 18 c, 0x80 + take_bit 6 (drop_bit 12 c), 0x80 + take_bit 6 (drop_bit 6 c),
        0x80 + take_bit 6 c])"

definition utf8 :: "ustring \<Rightarrow> bytes" where
  "utf8 s = concat (map utf8_char s)"

text \<open>\<open>String::len\<close> counts bytes.\<close>

definition byte_len :: "ustring \<Rightarrow> nat" where
  "byte_len s = length (utf8 s)"

lemma word8_inj: "m < 256 \<Longrightarrow> n < 256 \<Longrightarrow> (word_of_nat m :: byte) = word_of_nat n \<longleftrightarrow> m = n"
  by (simp add: word_of_nat_eq_iff take_bit_nat_eq_self)

definition utf8_nats :: "nat \<Rightarrow> nat list" where
  "utf8_nats n =
     (if n < 0x80 then [n]
      else if n < 0x800 then [0xC0 + n div 64, 0x80 + n mod 64]
      else if n < 0x10000 then [0xE0 + n div 4096, 0x80 + n div 64 mod 64, 0x80 + n mod 64]
      else [0xF0 + n div 262144, 0x80 + n div 4096 mod 64, 0x80 + n div 64 mod 64, 0x80 + n mod 64])"

lemma utf8_char_nats: "utf8_char c = map word_of_nat (utf8_nats (unat c))"
proof -
  have add: "unat (a + d) = unat a + unat d" if "unat a + unat d < 0x200000" for a d :: uchar
    using that by (simp add: unat_word_ariths)
  have bits: "unat (drop_bit k c) = unat c div 2 ^ k" "unat (take_bit 6 d) = unat d mod 64" for k and d :: uchar
    by (simp_all add: unat_drop_bit_eq drop_bit_eq_div [of k "unat c"] unsigned_take_bit_eq take_bit_eq_mod [of 6 "unat d"])
  have c: "unat c < 0x200000" using unsigned_less [of c] by simp
  have small: "unat c div 64 < 0x8000" "unat c div 4096 < 0x200" "unat c div 262144 < 8"
    using c by (simp_all add: div_less_iff_less_mult)
  have m: "k mod 64 < 64" for k :: nat by simp
  have "(ucast (x :: uchar) :: byte) = word_of_nat (unat x)" for x by simp
  then have sum: "(ucast (a + d) :: byte) = word_of_nat (unat a) + word_of_nat (unat d)"
    if "unat a + unat d < 0x200000" for a d :: uchar
    using add [OF that] by (metis of_nat_add)
  show ?thesis
    using small m [of "unat c"] m [of "unat c div 64"] m [of "unat c div 4096"]
    by (simp add: utf8_char_def utf8_nats_def sum bits word_less_nat_alt)
qed

lemma digit_bounds:
  "n < 0x800 \<Longrightarrow> n div 64 < (32 :: nat)" "n < 0x10000 \<Longrightarrow> n div 4096 < (16 :: nat)"
  "n < 0x200000 \<Longrightarrow> n div 262144 < (8 :: nat)"
  by (simp_all add: div_less_iff_less_mult)

lemma join64:
  "n div 4096 * 4096 + n div 64 mod 64 * 64 + n mod 64 = (n :: nat)"
  "n div 262144 * 262144 + n div 4096 mod 64 * 4096 + n div 64 mod 64 * 64 + n mod 64 = (n :: nat)"
proof -
  have d: "n div 4096 = n div 64 div 64" "n div 262144 = n div 4096 div 64"
    by (simp_all flip: div_mult2_eq)
  have "n div 64 div 64 * 64 + n div 64 mod 64 = n div 64" "n div 64 * 64 + n mod 64 = n"
    "n div 4096 div 64 * 64 + n div 4096 mod 64 = n div 4096"
    by (rule div_mult_mod_eq)+
  then show "n div 4096 * 4096 + n div 64 mod 64 * 64 + n mod 64 = n"
    "n div 262144 * 262144 + n div 4096 mod 64 * 4096 + n div 64 mod 64 * 64 + n mod 64 = n"
    using d by linarith+
qed

lemma utf8_nats_byte:
  assumes "n < 0x200000" shows "\<forall>b \<in> set (utf8_nats n). b < 256"
proof -
  have m: "k mod 64 < 64" for k :: nat by simp
  show ?thesis
    using digit_bounds [of n] assms m [of n] m [of "n div 64"] m [of "n div 4096"]
    by (simp add: utf8_nats_def) linarith
qed

text \<open>The number the first bytes of a list stand for.\<close>

fun utf8_first :: "nat list \<Rightarrow> nat" where
  "utf8_first [] = 0"
| "utf8_first (a # xs) =
     (if a < 0x80 then a
      else if a < 0xE0 then (a - 0xC0) * 64 + (xs ! 0 - 0x80)
      else if a < 0xF0 then (a - 0xE0) * 4096 + (xs ! 0 - 0x80) * 64 + (xs ! 1 - 0x80)
      else (a - 0xF0) * 262144 + (xs ! 0 - 0x80) * 4096 + (xs ! 1 - 0x80) * 64 + (xs ! 2 - 0x80))"

lemma utf8_first_nats: "n < 0x200000 \<Longrightarrow> utf8_first (utf8_nats n @ xs) = n"
  using digit_bounds [of n] by (auto simp: utf8_nats_def join64 nth_Cons' not_less)

lemma utf8_nats_prefix:
  assumes "n < 0x200000" "m < 0x200000" "utf8_nats n @ xs = utf8_nats m @ ys"
  shows "n = m \<and> xs = ys"
proof -
  have "n = m" using utf8_first_nats assms by metis
  then show ?thesis using assms(3) by simp
qed

lemma map_byte_prefix:
  "\<forall>b \<in> set xs. b < 256 \<Longrightarrow> \<forall>b \<in> set ys. b < 256 \<Longrightarrow>
   map (word_of_nat :: nat \<Rightarrow> byte) xs @ zs = map word_of_nat ys @ ws \<Longrightarrow>
   \<exists>r. xs = ys @ r \<or> ys = xs @ r"
proof (induction xs arbitrary: ys)
  case (Cons x xs)
  then show ?case by (cases ys) (auto simp: word8_inj)
qed auto

lemma utf8_char_prefix:
  assumes "utf8_char c @ xs = utf8_char d @ ys"
  shows "c = d \<and> xs = ys"
proof -
  have small: "unat c < 0x200000" "unat d < 0x200000"
    using unsigned_less [of c] unsigned_less [of d] by simp_all
  have "map word_of_nat (utf8_nats (unat c)) @ xs = map word_of_nat (utf8_nats (unat d)) @ ys"
    using assms by (simp only: utf8_char_nats)
  from map_byte_prefix [OF utf8_nats_byte [OF small(1)] utf8_nats_byte [OF small(2)] this]
  obtain r where "utf8_nats (unat c) @ [] = utf8_nats (unat d) @ r \<or> utf8_nats (unat d) @ [] = utf8_nats (unat c) @ r"
    by (simp only: append_Nil2) blast
  then have "unat c = unat d"
    by (elim disjE) (drule utf8_nats_prefix [OF small(1,2)] utf8_nats_prefix [OF small(2,1)]; simp only:)+
  then have "c = d" by (rule unsigned_word_eqI)
  then show ?thesis using assms by simp
qed

lemma utf8_char_nonempty: "utf8_char c \<noteq> []"
  by (simp add: utf8_char_nats utf8_nats_def)

lemma utf8_inject: "utf8 s = utf8 t \<longleftrightarrow> s = t"
proof
  show "utf8 s = utf8 t \<Longrightarrow> s = t"
  proof (induction s arbitrary: t)
    case Nil
    then show ?case by (cases t) (auto simp: utf8_def utf8_char_nonempty)
  next
    case (Cons c s)
    then obtain d t' where t: "t = d # t'" by (cases t) (auto simp: utf8_def utf8_char_nonempty)
    have "utf8_char c @ utf8 s = utf8_char d @ utf8 t'" using Cons.prems by (simp add: t utf8_def)
    then show ?case using utf8_char_prefix Cons.IH t by blast
  qed
qed simp

subsection \<open>Names\<close>

definition is_control :: "uchar \<Rightarrow> bool" where
  "is_control c = (c \<le> 0x1F \<or> 0x7F \<le> c \<and> c \<le> 0x9F)"

definition is_whitespace :: "uchar \<Rightarrow> bool" where
  "is_whitespace c =
     (9 \<le> c \<and> c \<le> 13 \<or> 0x2000 \<le> c \<and> c \<le> 0x200A \<or>
      c \<in> set [0x20, 0x85, 0xA0, 0x1680, 0x2028, 0x2029, 0x202F, 0x205F, 0x3000])"

definition is_bidi_control :: "uchar \<Rightarrow> bool" where
  "is_bidi_control c =
     (c = 0x061C \<or> c = 0x200E \<or> c = 0x200F \<or> 0x202A \<le> c \<and> c \<le> 0x202E \<or> 0x2066 \<le> c \<and> c \<le> 0x2069)"

definition is_forbidden_mesh_name :: "uchar \<Rightarrow> bool" where
  "is_forbidden_mesh_name c =
     (is_control c \<or> is_whitespace c \<or> is_bidi_control c \<or> c \<in> set (ustr ''<>#''))"

definition is_forbidden :: "uchar \<Rightarrow> bool" where
  "is_forbidden c = (is_forbidden_mesh_name c \<or> c = 0x2F \<or> c = 0x5C)"

definition MIN_CHARS :: nat where "MIN_CHARS = 1"
definition MAX_CHARS :: nat where "MAX_CHARS = 32"

datatype name_error = NameLength nat | NameCharset ustring

definition nickname_new :: "ustring \<Rightarrow> name_error + ustring" where
  "nickname_new v =
     (if \<not> (MIN_CHARS \<le> length v \<and> length v \<le> MAX_CHARS) then Inl (NameLength (length v))
      else if list_ex is_forbidden v then Inl (NameCharset v)
      else Inr v)"

definition mesh_name_new :: "ustring \<Rightarrow> name_error + ustring" where
  "mesh_name_new v =
     (if \<not> (MIN_CHARS \<le> length v \<and> length v \<le> MAX_CHARS) then Inl (NameLength (length v))
      else if list_ex is_forbidden_mesh_name v then Inl (NameCharset v)
      else Inr v)"

definition to_lower :: "uchar \<Rightarrow> uchar" where
  "to_lower c = (if 0x41 \<le> c \<and> c \<le> 0x5A then c + 32 else c)"

definition is_http_url :: "ustring \<Rightarrow> bool" where
  "is_http_url s =
     (map to_lower (take 7 s) = ustr ''http://'' \<or> map to_lower (take 8 s) = ustr ''https://'')"

definition is_alphabetic :: "uchar \<Rightarrow> bool" where
  "is_alphabetic c = (0x41 \<le> c \<and> c \<le> 0x5A \<or> 0x61 \<le> c \<and> c \<le> 0x7A)"

definition is_digit :: "uchar \<Rightarrow> bool" where
  "is_digit c = (0x30 \<le> c \<and> c \<le> 0x39)"

text \<open>\<open>str::find\<close>: where a string first occurs.\<close>

fun find_str :: "ustring \<Rightarrow> ustring \<Rightarrow> nat option" where
  "find_str p s =
     (if take (length p) s = p then Some 0
      else case s of [] \<Rightarrow> None | _ # s' \<Rightarrow> map_option Suc (find_str p s'))"

declare find_str.simps [simp del]

definition strip_url_scheme :: "ustring \<Rightarrow> ustring" where
  "strip_url_scheme input =
     (case find_str (ustr ''://'') input of
        None \<Rightarrow> input
      | Some idx \<Rightarrow>
          (case take idx input of
             [] \<Rightarrow> input
           | first # others \<Rightarrow>
               if is_alphabetic first \<and>
                  list_all (\<lambda>c. is_alphabetic c \<or> is_digit c \<or> c \<in> set (ustr ''+.-'')) others
               then drop (idx + 3) input else input))"

definition topic_name_source :: "ustring \<Rightarrow> ustring" where
  "topic_name_source trimmed =
     (let source = strip_url_scheme trimmed in
      if is_http_url trimmed then takeWhile (\<lambda>c. c \<notin> set (ustr ''?#'')) source else source)"

definition trim :: "ustring \<Rightarrow> ustring" where
  "trim s = rev (dropWhile is_whitespace (rev (dropWhile is_whitespace s)))"

definition dash :: uchar where "dash = 0x2D"

text \<open>The loop of \<open>from_topic_string\<close>: what was put out, and whether a dash is due.\<close>

definition topic_char :: "uchar \<Rightarrow> ustring \<times> bool \<Rightarrow> ustring \<times> bool" where
  "topic_char c st =
     (case st of (out, pending) \<Rightarrow>
        if is_forbidden_mesh_name c then (out, out \<noteq> [])
        else ((if pending then out @ [dash] else out) @ [c], False))"

definition from_topic_string :: "ustring \<Rightarrow> ustring" where
  "from_topic_string raw =
     (let out = fst (fold topic_char (topic_name_source (trim raw)) ([], False));
          name = (if length out \<le> MAX_CHARS then out
                  else rev (dropWhile (\<lambda>c. c = dash) (rev (take (MAX_CHARS - 1) out))) @ [0x2026])
      in case mesh_name_new name of Inr n \<Rightarrow> n | Inl _ \<Rightarrow> ustr ''topic'')"

definition len_u8 :: "ustring \<Rightarrow> 8 word" where
  "len_u8 name = word_of_nat (byte_len name)"

lemma topic_chars_allowed:
  "list_all (\<lambda>c. \<not> is_forbidden_mesh_name c) (fst (fold topic_char s ([], False)))"
proof (induction s rule: rev_induct)
  case (snoc c s)
  have "\<not> is_forbidden_mesh_name dash" by code_simp
  then show ?case using snoc by (auto simp: topic_char_def split: prod.split)
qed simp

lemma topic_chars_id:
  "list_all (\<lambda>c. \<not> is_forbidden_mesh_name c) s \<Longrightarrow> fold topic_char s ([], False) = (s, False)"
proof (induction s rule: rev_induct)
  case (snoc c s)
  then show ?case by (simp add: topic_char_def)
qed simp

lemma utf8_char_length: "length (utf8_char c) \<le> 4"
  by (simp add: utf8_char_nats utf8_nats_def)

lemma byte_len_bound: "byte_len s \<le> 4 * length s"
proof (induction s)
  case (Cons c s)
  then show ?case using utf8_char_length [of c] by (simp add: byte_len_def utf8_def)
qed (simp add: byte_len_def utf8_def)

text \<open>C36: The display name derived from any topic string is a valid mesh name, whose byte length fits the
  byte it is sent in; a string that is a valid name, without the scheme and query of an URL, is its own
  display name.\<close>

theorem topic_names_valid:
  "let name = from_topic_string raw; source = topic_name_source (trim raw) in
     mesh_name_new name = Inr name \<and> unat (len_u8 name) = byte_len name \<and>
     name = (case mesh_name_new source of Inr _ \<Rightarrow> source | Inl _ \<Rightarrow> name)"
proof -
  let ?source = "topic_name_source (trim raw)"
  let ?name = "from_topic_string raw"
  have id: "mesh_name_new n = Inr m \<Longrightarrow> n = m" for n m
    by (auto simp: mesh_name_new_def split: if_splits)
  have "mesh_name_new (ustr ''topic'') = Inr (ustr ''topic'')" by code_simp
  then have valid: "mesh_name_new ?name = Inr ?name"
    using id by (auto simp: from_topic_string_def Let_def split: sum.splits)
  have "length ?name \<le> 32" using valid by (auto simp: mesh_name_new_def MAX_CHARS_def split: if_splits)
  then have "byte_len ?name < 256" using byte_len_bound [of ?name] by linarith
  then have len: "unat (len_u8 ?name) = byte_len ?name"
    by (simp add: len_u8_def unat_of_nat take_bit_nat_eq_self)
  have "?name = ?source" if s: "mesh_name_new ?source = Inr ?source"
  proof -
    have "length ?source \<le> MAX_CHARS" "list_all (\<lambda>c. \<not> is_forbidden_mesh_name c) ?source"
      using s by (auto simp: mesh_name_new_def list_ex_iff list_all_iff split: if_splits)
    then show ?thesis using s topic_chars_id by (simp add: from_topic_string_def Let_def)
  qed
  then have "?name = (case mesh_name_new ?source of Inr _ \<Rightarrow> ?source | Inl _ \<Rightarrow> ?name)"
    using id by (auto split: sum.split)
  then show ?thesis using valid len unfolding Let_def by blast
qed

end
