(* ===== verification/GossipMessage.thy ===== *)
theory GossipMessage
  imports Chunks Text
begin

text \<open>
  The frame every gossip message travels in: \<open>message/mod.rs\<close>, \<open>message/body.rs\<close>, \<open>message/id.rs\<close>,
  \<open>message/shard.rs\<close> and \<open>identity.rs\<close> of \<open>fofoca-protocol/src\<close>. Parameters: JSON (\<open>json\<close>), SHA-256
  (\<open>H\<close>), the Ed25519 operations, what makes a string an UUID or a mesh id, the clock and the random id.
  Integers of the frame are words.
\<close>

unbundle bit_operations_syntax

subsection \<open>Kinds\<close>

datatype presence_subtype = Joined | Left | Alive

datatype message_kind =
    App ustring "ustring option" "ustring option"
  | Presence presence_subtype
  | PeerInfo | Digest | Ping
  | Pong ustring
  | State | StateDigest | Meta | MetaDigest | LinkState

fun presence_display :: "presence_subtype \<Rightarrow> ustring" where
  "presence_display Joined = ustr ''joined''"
| "presence_display Left = ustr ''left''"
| "presence_display Alive = ustr ''alive''"

fun sole_addressee :: "message_kind \<Rightarrow> ustring option" where
  "sole_addressee (Pong to) = Some to"
| "sole_addressee (App tag to corr) = to"
| "sole_addressee _ = None"

fun kind_display :: "message_kind \<Rightarrow> ustring" where
  "kind_display (App tag to corr) = tag"
| "kind_display (Presence s) = ustr ''presence''"
| "kind_display PeerInfo = ustr ''peerinfo''"
| "kind_display Digest = ustr ''digest''"
| "kind_display Ping = ustr ''ping''"
| "kind_display (Pong to) = ustr ''pong''"
| "kind_display State = ustr ''state''"
| "kind_display StateDigest = ustr ''state_digest''"
| "kind_display Meta = ustr ''meta''"
| "kind_display MetaDigest = ustr ''meta_digest''"
| "kind_display LinkState = ustr ''linkstate''"

fun kind_app_tag :: "message_kind \<Rightarrow> ustring option" where
  "kind_app_tag (App tag to corr) = Some tag"
| "kind_app_tag _ = None"

definition kind_is_app :: "ustring \<Rightarrow> message_kind \<Rightarrow> bool" where
  "kind_is_app tag k = (case kind_app_tag k of None \<Rightarrow> False | Some v \<Rightarrow> v = tag)"

datatype channel = StateChannel | MetaChannel

fun event_kind :: "channel \<Rightarrow> message_kind" where
  "event_kind StateChannel = State" | "event_kind MetaChannel = Meta"

fun digest_kind :: "channel \<Rightarrow> message_kind" where
  "digest_kind StateChannel = StateDigest" | "digest_kind MetaChannel = MetaDigest"

fun channel_label :: "channel \<Rightarrow> ustring" where
  "channel_label StateChannel = ustr ''state''" | "channel_label MetaChannel = ustr ''meta''"

subsection \<open>Validated strings\<close>

definition app_tag_validate :: "ustring \<Rightarrow> bool" where
  "app_tag_validate raw =
     (raw \<noteq> [] \<and> byte_len raw \<le> 32 \<and>
      list_all (\<lambda>b. 48 \<le> b \<and> b \<le> 57 \<or> 65 \<le> b \<and> b \<le> 90 \<or> 97 \<le> b \<and> b \<le> 122 \<or> b = 95) (utf8 raw))"

definition corr_id_validate :: "ustring \<Rightarrow> bool" where
  "corr_id_validate raw = (raw \<noteq> [] \<and> byte_len raw \<le> 64)"

definition body_new :: "ustring \<Rightarrow> ustring option" where
  "body_new v = (if list_ex (\<lambda>c. is_control c \<and> \<not> (c = 10 \<or> c = 9 \<or> c = 13)) v then None else Some v)"

record shard =
  sh_group :: ustring
  sh_idx :: nat
  sh_total :: nat

definition MAX_SHARD_TOTAL :: nat where "MAX_SHARD_TOTAL = 65536"
definition LOGGED_SHARD_GROUP_MAX_TOTAL :: nat where "LOGGED_SHARD_GROUP_MAX_TOTAL = 16"

datatype shard_error = InvalidGroup | TotalOutOfRange | IdxOutOfRange

definition shard_deserialize :: "(ustring \<Rightarrow> bool) \<Rightarrow> shard \<Rightarrow> shard_error + shard" where
  "shard_deserialize is_uuid raw =
     (if \<not> is_uuid (sh_group raw) then Inl InvalidGroup
      else if sh_total raw < 2 \<or> sh_total raw > MAX_SHARD_TOTAL then Inl TotalOutOfRange
      else if sh_idx raw \<ge> sh_total raw then Inl IdxOutOfRange
      else Inr raw)"

definition shard_group_from_uuid :: "(ustring \<Rightarrow> bool) \<Rightarrow> ustring \<Rightarrow> ustring option" where
  "shard_group_from_uuid is_uuid raw = (if is_uuid raw then Some raw else None)"

definition message_id_new :: "(ustring \<Rightarrow> bool) \<Rightarrow> ustring \<Rightarrow> ustring option" where
  "message_id_new is_uuid v = (if is_uuid v then Some v else None)"

subsection \<open>The frame\<close>

definition VERSION :: ustring where "VERSION = ustr ''12.0''"
definition MAX_MESSAGE_SIZE :: nat where "MAX_MESSAGE_SIZE = 3840"

record 'x gossip_message =
  gm_version :: ustring
  gm_id :: ustring
  gm_kind :: message_kind
  gm_mesh :: ustring
  gm_author :: ustring
  gm_timestamp :: "64 word"
  gm_body :: ustring
  gm_pubkey :: ustring
  gm_sig :: ustring
  gm_seq :: "64 word option"
  gm_prev :: "ustring option"
  gm_parents :: "ustring list"
  gm_shard :: "shard option"
  gm_ext :: 'x

record 'x json =
  js_kind :: "message_kind \<Rightarrow> bytes"
  js_parents :: "ustring list \<Rightarrow> bytes"
  js_shard :: "shard option \<Rightarrow> bytes"
  js_ext :: "'x \<Rightarrow> bytes"
  js_message :: "'x gossip_message \<Rightarrow> bytes"
  js_parse :: "bytes \<Rightarrow> 'x gossip_message option"

text \<open>What the environment gives a new frame: a random id, the time, the empty \<open>ext\<close>.\<close>

record 'x stamp =
  st_id :: ustring
  st_now :: "64 word"
  st_ext :: 'x

definition gm_new :: "'x stamp \<Rightarrow> ustring \<Rightarrow> ustring \<Rightarrow> message_kind \<Rightarrow> ustring \<Rightarrow> 'x gossip_message" where
  "gm_new st mesh author kind body =
     \<lparr>gm_version = VERSION, gm_id = st_id st, gm_kind = kind, gm_mesh = mesh, gm_author = author,
      gm_timestamp = st_now st, gm_body = body, gm_pubkey = [], gm_sig = [], gm_seq = None, gm_prev = None,
      gm_parents = [], gm_shard = None, gm_ext = st_ext st\<rparr>"

record app_frame_params =
  af_tag :: ustring
  af_to :: "ustring option"
  af_corr :: "ustring option"
  af_body :: ustring

definition gm_new_app :: "'x stamp \<Rightarrow> ustring \<Rightarrow> ustring \<Rightarrow> app_frame_params \<Rightarrow> 'x gossip_message" where
  "gm_new_app st mesh author p = gm_new st mesh author (App (af_tag p) (af_to p) (af_corr p)) (af_body p)"

definition gm_new_joined :: "'x stamp \<Rightarrow> ustring \<Rightarrow> ustring \<Rightarrow> 'x gossip_message" where
  "gm_new_joined st mesh author = gm_new st mesh author (Presence Joined) []"

definition gm_new_left :: "'x stamp \<Rightarrow> ustring \<Rightarrow> ustring \<Rightarrow> 'x gossip_message" where
  "gm_new_left st mesh author = gm_new st mesh author (Presence Left) []"

definition gm_new_alive :: "'x stamp \<Rightarrow> ustring \<Rightarrow> ustring \<Rightarrow> 'x gossip_message" where
  "gm_new_alive st mesh author = gm_new st mesh author (Presence Alive) []"

definition gm_new_ping :: "'x stamp \<Rightarrow> ustring \<Rightarrow> ustring \<Rightarrow> 'x gossip_message" where
  "gm_new_ping st mesh author = gm_new st mesh author Ping []"

definition gm_new_pong :: "'x stamp \<Rightarrow> ustring \<Rightarrow> ustring \<Rightarrow> ustring \<Rightarrow> 'x gossip_message" where
  "gm_new_pong st mesh author to = gm_new st mesh author (Pong to) []"

definition gm_new_peer_info :: "'x stamp \<Rightarrow> ustring \<Rightarrow> ustring \<Rightarrow> ustring \<Rightarrow> 'x gossip_message" where
  "gm_new_peer_info st mesh author addr = gm_new st mesh author PeerInfo addr"

definition gm_new_digest :: "'x stamp \<Rightarrow> ustring \<Rightarrow> ustring \<Rightarrow> ustring \<Rightarrow> 'x gossip_message" where
  "gm_new_digest st mesh author ids = gm_new st mesh author Digest ids"

definition gm_new_link_state :: "'x stamp \<Rightarrow> ustring \<Rightarrow> ustring \<Rightarrow> ustring \<Rightarrow> 'x gossip_message" where
  "gm_new_link_state st mesh author vector = gm_new st mesh author LinkState vector"

definition gm_new_channel_event :: "'x stamp \<Rightarrow> ustring \<Rightarrow> ustring \<Rightarrow> ustring \<Rightarrow> channel \<Rightarrow> 'x gossip_message" where
  "gm_new_channel_event st mesh author body ch = gm_new st mesh author (event_kind ch) body"

definition gm_new_channel_digest :: "'x stamp \<Rightarrow> ustring \<Rightarrow> ustring \<Rightarrow> ustring \<Rightarrow> channel \<Rightarrow> 'x gossip_message" where
  "gm_new_channel_digest st mesh author body ch = gm_new st mesh author (digest_kind ch) body"

definition with_chain :: "64 word \<Rightarrow> ustring option \<Rightarrow> 'x gossip_message \<Rightarrow> 'x gossip_message" where
  "with_chain sq prev m = m\<lparr>gm_seq := Some sq, gm_prev := prev\<rparr>"

definition with_parents :: "ustring list \<Rightarrow> 'x gossip_message \<Rightarrow> 'x gossip_message" where
  "with_parents ps m = m\<lparr>gm_parents := ps\<rparr>"

definition with_shard :: "shard option \<Rightarrow> 'x gossip_message \<Rightarrow> 'x gossip_message" where
  "with_shard s m = m\<lparr>gm_shard := s\<rparr>"

definition with_id :: "ustring \<Rightarrow> 'x gossip_message \<Rightarrow> 'x gossip_message" where
  "with_id i m = m\<lparr>gm_id := i\<rparr>"

definition shard_fits_log :: "'x gossip_message \<Rightarrow> bool" where
  "shard_fits_log m =
     (case gm_shard m of None \<Rightarrow> True | Some s \<Rightarrow> sh_total s \<le> LOGGED_SHARD_GROUP_MAX_TOTAL)"

subsection \<open>Hexadecimal and keys\<close>

definition id_to_hex :: "bytes \<Rightarrow> ustring" where
  "id_to_hex bs = concat (map (\<lambda>b. [ucast (hex_digit (drop_bit 4 b)), ucast (hex_digit (b AND 15))]) bs)"

definition id_from_hex :: "ustring \<Rightarrow> bytes option" where
  "id_from_hex hex = (if odd (byte_len hex) then None else hex_pairs (utf8 hex))"

definition is_lower_hex :: "ustring \<Rightarrow> nat \<Rightarrow> bool" where
  "is_lower_hex v n =
     (byte_len v = n * 2 \<and> list_all (\<lambda>b. 48 \<le> b \<and> b \<le> 57 \<or> 97 \<le> b \<and> b \<le> 102) (utf8 v))"

definition decode_pubkey :: "(bytes \<Rightarrow> bool) \<Rightarrow> ustring \<Rightarrow> bytes option" where
  "decode_pubkey is_key hex =
     (case id_from_hex hex of
        None \<Rightarrow> None
      | Some bs \<Rightarrow> if length bs = 32 \<and> is_key bs then Some bs else None)"

definition decode_sig :: "ustring \<Rightarrow> bytes option" where
  "decode_sig hex =
     (case id_from_hex hex of None \<Rightarrow> None | Some bs \<Rightarrow> if length bs = 64 then Some bs else None)"

subsection \<open>Wire form\<close>

datatype message_error =
    TooLarge nat | Malformed | Unsupported_version ustring
  | Malformed_pubkey | Malformed_signature | Malformed_prev | Malformed_parent

definition gm_serialize :: "'x json \<Rightarrow> 'x gossip_message \<Rightarrow> message_error + bytes" where
  "gm_serialize js m =
     (let bs = js_message js m in
      if length bs > MAX_MESSAGE_SIZE then Inl (TooLarge (length bs)) else Inr bs)"

text \<open>What the validating types check while JSON is read.\<close>

definition kind_valid :: "message_kind \<Rightarrow> bool" where
  "kind_valid k =
     (case k of
        App tag to corr \<Rightarrow> app_tag_validate tag \<and>
          (case to of None \<Rightarrow> True | Some n \<Rightarrow> nickname_new n = Inr n) \<and>
          (case corr of None \<Rightarrow> True | Some c \<Rightarrow> corr_id_validate c)
      | Pong to \<Rightarrow> nickname_new to = Inr to
      | _ \<Rightarrow> True)"

definition fields_valid :: "(ustring \<Rightarrow> bool) \<Rightarrow> (ustring \<Rightarrow> bool) \<Rightarrow> 'x gossip_message \<Rightarrow> bool" where
  "fields_valid is_uuid is_mesh m =
     (message_id_new is_uuid (gm_id m) = Some (gm_id m) \<and> kind_valid (gm_kind m) \<and> is_mesh (gm_mesh m) \<and>
      nickname_new (gm_author m) = Inr (gm_author m) \<and> body_new (gm_body m) = Some (gm_body m) \<and>
      (case gm_shard m of None \<Rightarrow> True | Some s \<Rightarrow> shard_deserialize is_uuid s = Inr s))"

definition gm_parse :: "(ustring \<Rightarrow> bool) \<Rightarrow> (ustring \<Rightarrow> bool) \<Rightarrow> 'x json \<Rightarrow> bytes \<Rightarrow>
    message_error + 'x gossip_message" where
  "gm_parse is_uuid is_mesh js data =
     (if length data > MAX_MESSAGE_SIZE then Inl (TooLarge (length data))
      else case js_parse js data of
          None \<Rightarrow> Inl Malformed
        | Some m \<Rightarrow>
            if \<not> fields_valid is_uuid is_mesh m then Inl Malformed
            else if gm_version m \<noteq> VERSION then Inl (Unsupported_version (gm_version m))
            else if gm_pubkey m \<noteq> [] \<and> \<not> is_lower_hex (gm_pubkey m) 32 then Inl Malformed_pubkey
            else if gm_sig m \<noteq> [] \<and> \<not> is_lower_hex (gm_sig m) 64 then Inl Malformed_signature
            else if (case gm_prev m of None \<Rightarrow> False | Some p \<Rightarrow> \<not> is_lower_hex p 32) then Inl Malformed_prev
            else if list_ex (\<lambda>h. \<not> is_lower_hex h 32) (gm_parents m) then Inl Malformed_parent
            else Inr m)"

definition wire_len :: "'x json \<Rightarrow> 'x gossip_message \<Rightarrow> nat" where
  "wire_len js m = length (js_message js m)"

text \<open>The signed bytes. A field too long for its length prefix is a panic: \<open>None\<close>.\<close>

definition MSG_DOMAIN :: bytes where
  "MSG_DOMAIN = map of_char ''habilis-mesh/msg''"

definition canonical_fields :: "'x json \<Rightarrow> 'x gossip_message \<Rightarrow> bytes list" where
  "canonical_fields js m =
     [MSG_DOMAIN, utf8 (gm_version m), utf8 (gm_id m), js_kind js (gm_kind m), utf8 (gm_mesh m),
      utf8 (gm_author m), le_bytes 8 (unat (gm_timestamp m)), utf8 (gm_body m), utf8 (gm_pubkey m),
      (case gm_seq m of None \<Rightarrow> [] | Some v \<Rightarrow> le_bytes 8 (unat v)),
      (case gm_prev m of None \<Rightarrow> [] | Some v \<Rightarrow> utf8 v),
      js_parents js (gm_parents m), js_shard js (gm_shard m), js_ext js (gm_ext m)]"

definition framed :: "bytes \<Rightarrow> bytes" where
  "framed bs = le_bytes 4 (length bs) @ bs"

definition canonical_bytes :: "'x json \<Rightarrow> 'x gossip_message \<Rightarrow> bytes option" where
  "canonical_bytes js m =
     (if list_all (\<lambda>f. length f \<le> u32_max) (canonical_fields js m)
      then Some (concat (map framed (canonical_fields js m))) else None)"

definition content_hash_hex :: "(bytes \<Rightarrow> bytes) \<Rightarrow> 'x json \<Rightarrow> 'x gossip_message \<Rightarrow> ustring option" where
  "content_hash_hex H js m = map_option (\<lambda>bs. id_to_hex (H bs)) (canonical_bytes js m)"

definition dedup_key16 :: "(bytes \<Rightarrow> bytes) \<Rightarrow> ustring \<Rightarrow> bytes \<Rightarrow> bytes" where
  "dedup_key16 H pubkey id_bytes = take 16 (H (utf8 pubkey @ id_bytes))"

definition gm_dedup_key :: "(bytes \<Rightarrow> bytes) \<Rightarrow> (ustring \<Rightarrow> bytes) \<Rightarrow> 'x gossip_message \<Rightarrow> bytes" where
  "gm_dedup_key H uuid_bytes m = dedup_key16 H (gm_pubkey m) (uuid_bytes (gm_id m))"

definition gm_signed :: "'x json \<Rightarrow> bytes \<Rightarrow> (bytes \<Rightarrow> bytes) \<Rightarrow> 'x gossip_message \<Rightarrow> 'x gossip_message option" where
  "gm_signed js public sign m =
     (let m1 = m\<lparr>gm_pubkey := id_to_hex public\<rparr> in
      map_option (\<lambda>bs. m1\<lparr>gm_sig := id_to_hex (sign bs)\<rparr>) (canonical_bytes js m1))"

definition verify_signature_with :: "(bytes \<Rightarrow> bool) \<Rightarrow> (bytes \<Rightarrow> bytes \<Rightarrow> bytes \<Rightarrow> bool) \<Rightarrow> bytes \<Rightarrow>
    'x gossip_message \<Rightarrow> bool" where
  "verify_signature_with is_key verify canonical m =
     (if gm_pubkey m = [] \<or> gm_sig m = [] then False
      else case (decode_pubkey is_key (gm_pubkey m), decode_sig (gm_sig m)) of
          (Some pubkey, Some sg) \<Rightarrow> verify pubkey canonical sg
        | _ \<Rightarrow> False)"

subsection \<open>What is signed\<close>

lemma framed_prefix:
  assumes "length a \<le> u32_max" "length b \<le> u32_max" "framed a @ xs = framed b @ ys"
  shows "a = b \<and> xs = ys"
proof -
  have "le_bytes 4 (length a) = le_bytes 4 (length b)" "a @ xs = b @ ys"
    using assms(3) by (simp_all add: framed_def)
  moreover from this(1) have "length a = length b"
    using le_bytes_inject [of "length a" 4 "length b"] assms(1,2) by (simp add: u32_max_def)
  ultimately show ?thesis by simp
qed

lemma framed_inject:
  "length xs = length ys \<Longrightarrow> list_all (\<lambda>f. length f \<le> u32_max) xs \<Longrightarrow> list_all (\<lambda>f. length f \<le> u32_max) ys \<Longrightarrow>
   concat (map framed xs) = concat (map framed ys) \<Longrightarrow> xs = ys"
proof (induction xs ys rule: list_induct2)
  case (Cons x xs y ys)
  have "framed x @ concat (map framed xs) = framed y @ concat (map framed ys)" using Cons.prems(3) by simp
  then have "x = y \<and> concat (map framed xs) = concat (map framed ys)"
    using Cons.prems(1,2) by (intro framed_prefix) simp_all
  then show ?case using Cons by simp
qed simp

lemma le_bytes_word64: "le_bytes 8 (unat (v :: 64 word)) = le_bytes 8 (unat w) \<longleftrightarrow> v = w"
proof
  assume "le_bytes 8 (unat v) = le_bytes 8 (unat w)"
  moreover have "unat v < 256 ^ 8" "unat w < 256 ^ 8"
    using unsigned_less [of v] unsigned_less [of w] by simp_all
  ultimately have "unat v = unat w" by (intro le_bytes_inject) 
  then show "v = w" by (rule unsigned_word_eqI)
qed simp

lemma seq_field:
  "(case a of None \<Rightarrow> [] | Some (v :: 64 word) \<Rightarrow> le_bytes 8 (unat v)) =
   (case b of None \<Rightarrow> [] | Some v \<Rightarrow> le_bytes 8 (unat v)) \<longleftrightarrow> a = b"
proof -
  have "le_bytes 8 n \<noteq> []" for n using le_bytes_length [of 8 n] by fastforce
  then show ?thesis by (cases a; cases b) (simp_all add: le_bytes_word64, metis)
qed

lemma utf8_Nil [simp]: "utf8 [] = []"
  by (simp add: utf8_def)

lemma utf8_eq_Nil: "utf8 s = [] \<longleftrightarrow> s = []" "[] = utf8 s \<longleftrightarrow> s = []"
  using utf8_inject [of s "[]"] by auto

lemma prev_field:
  "a \<noteq> Some [] \<Longrightarrow> b \<noteq> Some [] \<Longrightarrow>
   (case a of None \<Rightarrow> [] | Some v \<Rightarrow> utf8 v) = (case b of None \<Rightarrow> [] | Some v \<Rightarrow> utf8 v) \<Longrightarrow> a = b"
  by (cases a; cases b) (auto simp: utf8_inject utf8_eq_Nil)

text \<open>C26: The signed bytes determine the frame up to its signature: no field can be moved into another,
  shortened or left out without the signature failing. The JSON of kind, parents, shard header and
  \<open>ext\<close> only has to tell the two values apart; an empty \<open>prev\<close>, which parsing rejects, would be
  taken for an absent one.\<close>

theorem canonical_bytes_injective:
  assumes "canonical_bytes js m = Some bs" "canonical_bytes js m' = Some bs"
    and "js_kind js (gm_kind m) = js_kind js (gm_kind m') \<Longrightarrow> gm_kind m = gm_kind m'"
    and "js_parents js (gm_parents m) = js_parents js (gm_parents m') \<Longrightarrow> gm_parents m = gm_parents m'"
    and "js_shard js (gm_shard m) = js_shard js (gm_shard m') \<Longrightarrow> gm_shard m = gm_shard m'"
    and "js_ext js (gm_ext m) = js_ext js (gm_ext m') \<Longrightarrow> gm_ext m = gm_ext m'"
    and "gm_prev m \<noteq> Some []" "gm_prev m' \<noteq> Some []"
  shows "m\<lparr>gm_sig := []\<rparr> = m'\<lparr>gm_sig := []\<rparr>"
proof -
  have len: "list_all (\<lambda>f. length f \<le> u32_max) (canonical_fields js m)"
    "list_all (\<lambda>f. length f \<le> u32_max) (canonical_fields js m')"
    "concat (map framed (canonical_fields js m)) = concat (map framed (canonical_fields js m'))"
    using assms(1,2) by (auto simp: canonical_bytes_def split: if_splits)
  have "canonical_fields js m = canonical_fields js m'"
    by (rule framed_inject [OF _ len]) (simp add: canonical_fields_def)
  then have "gm_version m = gm_version m'" "gm_id m = gm_id m'" "gm_kind m = gm_kind m'" "gm_mesh m = gm_mesh m'"
    "gm_author m = gm_author m'" "gm_timestamp m = gm_timestamp m'" "gm_body m = gm_body m'"
    "gm_pubkey m = gm_pubkey m'" "gm_seq m = gm_seq m'" "gm_prev m = gm_prev m'" "gm_parents m = gm_parents m'"
    "gm_shard m = gm_shard m'" "gm_ext m = gm_ext m'"
    using assms(3-6) prev_field [OF assms(7,8)]
    by (simp_all add: canonical_fields_def utf8_inject le_bytes_word64 seq_field)
  then show ?thesis by (cases m; cases m') simp
qed

text \<open>A small JSON for the demonstrations: kinds and shard headers by a number, everything else empty.\<close>

definition demo_stamp :: "unit stamp" where
  "demo_stamp = \<lparr>st_id = ustr ''id'', st_now = 7, st_ext = ()\<rparr>"

definition demo_frame :: "unit gossip_message" where
  "demo_frame = gm_new demo_stamp (ustr ''mesh'') (ustr ''me'') Ping []"

definition demo_json :: "unit json" where
  "demo_json = \<lparr>js_kind = (\<lambda>k. if k = Ping then [1] else []), js_parents = (\<lambda>ps. []), js_shard = (\<lambda>s. []),
     js_ext = (\<lambda>x. []), js_message = (\<lambda>m. [1, 2, 3]), js_parse = (\<lambda>bs. Some demo_frame)\<rparr>"

lemma short_utf8: "4 * length s \<le> n \<Longrightarrow> length (utf8 s) \<le> n"
  using byte_len_bound [of s] by (simp add: byte_len_def)

lemma demo_fields_short:
  "length (utf8 k) \<le> u32_max \<Longrightarrow>
   list_all (\<lambda>f. length f \<le> u32_max) (canonical_fields demo_json (demo_frame\<lparr>gm_pubkey := k\<rparr>))"
  by (simp add: canonical_fields_def demo_json_def demo_frame_def gm_new_def demo_stamp_def VERSION_def MSG_DOMAIN_def
      ustr_def short_utf8 u32_max_def)

lemma demo_canonical:
  "canonical_bytes demo_json (demo_frame\<lparr>gm_sig := s\<rparr>) =
     Some (concat (map framed (canonical_fields demo_json demo_frame)))"
proof -
  have "canonical_fields demo_json (demo_frame\<lparr>gm_sig := s\<rparr>) = canonical_fields demo_json demo_frame"
    by (simp add: canonical_fields_def)
  moreover have "demo_frame\<lparr>gm_pubkey := []\<rparr> = demo_frame" by (simp add: demo_frame_def gm_new_def)
  then have "list_all (\<lambda>f. length f \<le> u32_max) (canonical_fields demo_json demo_frame)"
    using demo_fields_short [of "[]"] by simp
  ultimately show ?thesis by (simp add: canonical_bytes_def)
qed

theorem canonical_bytes_injective_witness:
  "(demo_frame\<lparr>gm_sig := ustr ''a''\<rparr>)\<lparr>gm_sig := []\<rparr> = (demo_frame\<lparr>gm_sig := ustr ''b''\<rparr>)\<lparr>gm_sig := []\<rparr>"
  by (rule canonical_bytes_injective [OF demo_canonical demo_canonical])
    (simp_all add: demo_frame_def gm_new_def)



subsubsection \<open>Keys in hexadecimal\<close>

lemma utf8_ascii: "\<forall>b \<in> set bs. b < 128 \<Longrightarrow> utf8 (map ucast bs) = bs"
proof (induction bs)
  case (Cons b bs)
  have "unat (ucast b :: uchar) = unat b" by (simp add: unsigned_ucast_eq take_bit_nat_eq_self_iff order_less_le_trans [OF unsigned_less])
  moreover have "unat b < 128" using Cons.prems by (simp add: word_less_nat_alt)
  moreover have "(ucast (ucast b :: uchar) :: byte) = b"
    by (rule bit_word_eqI) (auto simp: bit_simps dest: bit_imp_le_length)
  ultimately have "utf8_char (ucast b) = [b]" by (simp add: utf8_char_def word_less_nat_alt)
  then show ?case using Cons by (simp add: utf8_def)
qed simp

lemma hex_digit_ascii:
  assumes "v < 16" shows "hex_digit v < 128"
proof -
  have "unat v < 16" using assms by (simp add: word_less_nat_alt)
  then have "v \<in> set (map word_of_nat [0..<16])" by (rule word_upt)
  moreover have "list_all (\<lambda>v. hex_digit v < 128) (map word_of_nat [0..<16])" by code_simp
  ultimately show ?thesis by (simp only: list_all_iff)
qed

lemma to_hex_ascii: "\<forall>b \<in> set (to_hex bs). b < 128"
  using hex_digit_ascii nibble_bounds by (auto simp: to_hex_def)

lemma id_to_hex_eq: "id_to_hex bs = map ucast (to_hex bs)"
  by (induction bs) (simp_all add: id_to_hex_def to_hex_def)

lemma id_hex_bytes: "utf8 (id_to_hex bs) = to_hex bs" "byte_len (id_to_hex bs) = 2 * length bs"
  by (simp_all add: id_to_hex_eq byte_len_def utf8_ascii to_hex_ascii to_hex_length)

lemma id_hex_round_trip: "id_from_hex (id_to_hex bs) = Some bs"
  by (simp add: id_from_hex_def id_hex_bytes hex_pairs_to_hex)

lemma hex_digit_lower: "v < 16 \<Longrightarrow> 48 \<le> hex_digit v \<and> hex_digit v \<le> 57 \<or> 97 \<le> hex_digit v \<and> hex_digit v \<le> 102"
proof -
  assume "v < 16"
  then have "unat v < 16" by (simp add: word_less_nat_alt)
  then have "v \<in> set (map word_of_nat [0..<16])" by (rule word_upt)
  moreover have "list_all (\<lambda>v. 48 \<le> hex_digit v \<and> hex_digit v \<le> 57 \<or> 97 \<le> hex_digit v \<and> hex_digit v \<le> 102)
      (map word_of_nat [0..<16])" by code_simp
  ultimately show ?thesis by (simp only: list_all_iff)
qed

lemma id_hex_lower: "is_lower_hex (id_to_hex bs) (length bs)"
  using hex_digit_lower nibble_bounds
  by (auto simp: is_lower_hex_def id_hex_bytes list_all_iff) (auto simp: to_hex_def)

text \<open>A frame signed with a key pair whose signatures verify is accepted: its signature verifies over the
  bytes any receiver computes from it, its key and signature are well formed on the wire, and nothing
  else of the frame has changed.\<close>

theorem signed_frames_verify:
  assumes "length public = 32" "is_key public"
    and "\<And>bs. length (sign bs) = 64" "\<And>bs. verify public bs (sign bs)"
    and "canonical_bytes js (m\<lparr>gm_pubkey := id_to_hex public\<rparr>) = Some bs"
  shows "\<exists>s. gm_signed js public sign m = Some s \<and> canonical_bytes js s = Some bs \<and>
    verify_signature_with is_key verify bs s \<and> is_lower_hex (gm_pubkey s) 32 \<and> is_lower_hex (gm_sig s) 64 \<and>
    s\<lparr>gm_pubkey := gm_pubkey m, gm_sig := gm_sig m\<rparr> = m"
proof -
  let ?s = "m\<lparr>gm_pubkey := id_to_hex public, gm_sig := id_to_hex (sign bs)\<rparr>"
  have "gm_signed js public sign m = Some ?s" using assms(5) by (simp add: gm_signed_def)
  moreover have "canonical_fields js ?s = canonical_fields js (m\<lparr>gm_pubkey := id_to_hex public\<rparr>)"
    by (simp add: canonical_fields_def)
  then have "canonical_bytes js ?s = Some bs"
    using assms(5) by (simp only: canonical_bytes_def)
  moreover have "id_to_hex public \<noteq> []" "id_to_hex (sign bs) \<noteq> []"
    using id_hex_bytes(2) [of public] id_hex_bytes(2) [of "sign bs"] assms(1,3) by (auto simp: byte_len_def)
  then have "verify_signature_with is_key verify bs ?s"
    using assms(1-4)
    by (simp add: verify_signature_with_def decode_pubkey_def decode_sig_def id_hex_round_trip)
  ultimately show ?thesis
    using id_hex_lower [of public] id_hex_lower [of "sign bs"] assms(1,3) by (intro exI [of _ ?s]) simp
qed

theorem signed_frames_verify_witness:
  "\<exists>s. gm_signed demo_json (replicate 32 1) (\<lambda>bs. replicate 64 2) demo_frame = Some s \<and>
     verify_signature_with (\<lambda>_. True) (\<lambda>pk bs sg. sg = replicate 64 2)
       (concat (map framed (canonical_fields demo_json (demo_frame\<lparr>gm_pubkey := id_to_hex (replicate 32 1)\<rparr>)))) s"
proof -
  have "list_all (\<lambda>f. length f \<le> u32_max) (canonical_fields demo_json (demo_frame\<lparr>gm_pubkey := id_to_hex (replicate 32 1)\<rparr>))"
    by (rule demo_fields_short) (simp add: id_hex_bytes to_hex_length u32_max_def)
  then have c: "canonical_bytes demo_json (demo_frame\<lparr>gm_pubkey := id_to_hex (replicate 32 1)\<rparr>) =
      Some (concat (map framed (canonical_fields demo_json (demo_frame\<lparr>gm_pubkey := id_to_hex (replicate 32 1)\<rparr>))))"
    by (simp add: canonical_bytes_def)
  show ?thesis
    using signed_frames_verify [where is_key = "\<lambda>_. True" and sign = "\<lambda>bs. replicate 64 2"
        and verify = "\<lambda>pk bs sg. sg = replicate 64 2", OF _ _ _ _ c] by auto
qed

end
