(* ===== verification/MessageLog.thy ===== *)
theory MessageLog
  imports GossipMessage "HOL-Library.AList" "HOL-Library.List_Lexorder" "HOL-Library.Product_Lexorder"
    "HOL-Library.Option_ord"
begin

text \<open>
  The messages a member retains: \<open>daemon/message_log.rs\<close> of \<open>fofoca/src\<close>. Strings compare by their
  UTF-8 bytes, timestamps as signed numbers, tuples and options as in Rust. The function \<open>dk\<close> stands
  for \<open>Message::dedup_key\<close>, which rests on SHA-256.
\<close>

subsection \<open>The log\<close>

record 'x message_log =
  ml_capacity :: nat
  ml_messages :: "'x gossip_message list"
  ml_per_author :: "(ustring \<times> nat) list"

definition ml_new :: "nat \<Rightarrow> 'x message_log" where
  "ml_new capacity = \<lparr>ml_capacity = capacity, ml_messages = [], ml_per_author = []\<rparr>"

type_synonym evict_key = "int \<times> bytes \<times> 64 word option \<times> bytes"

definition eviction_key :: "'x gossip_message \<Rightarrow> evict_key" where
  "eviction_key m = (sint (gm_timestamp m), utf8 (gm_pubkey m), gm_seq m, utf8 (gm_id m))"

text \<open>\<open>Iterator::max_by\<close>, the last of the greatest, and \<open>Iterator::min_by\<close>, the first of the least.\<close>

fun max_by :: "('a \<Rightarrow> 'a \<Rightarrow> bool) \<Rightarrow> 'a list \<Rightarrow> 'a option" where
  "max_by le [] = None"
| "max_by le (x # xs) = (case max_by le xs of None \<Rightarrow> Some x | Some y \<Rightarrow> if le x y then Some y else Some x)"

fun min_by :: "('a \<Rightarrow> 'a \<Rightarrow> bool) \<Rightarrow> 'a list \<Rightarrow> 'a option" where
  "min_by le [] = None"
| "min_by le (x # xs) = (case min_by le xs of None \<Rightarrow> Some x | Some y \<Rightarrow> if le x y then Some x else Some y)"

definition author_le :: "ustring \<times> nat \<Rightarrow> ustring \<times> nat \<Rightarrow> bool" where
  "author_le a b = (snd a < snd b \<or> snd a = snd b \<and> utf8 (fst b) \<le> utf8 (fst a))"

definition eviction_index :: "'x message_log \<Rightarrow> nat option" where
  "eviction_index l =
     (case max_by author_le (ml_per_author l) of
        None \<Rightarrow> None
      | Some (fullest, _) \<Rightarrow>
          map_option fst
            (min_by (\<lambda>a b. eviction_key (snd a) \<le> eviction_key (snd b))
              (filter (\<lambda>(_, m). gm_pubkey m = fullest) (enumerate 0 (ml_messages l)))))"

definition ml_add :: "'x gossip_message \<Rightarrow> 'x message_log \<Rightarrow> 'x message_log" where
  "ml_add msg l =
     l\<lparr>ml_per_author := AList.update (gm_pubkey msg)
          ((case map_of (ml_per_author l) (gm_pubkey msg) of None \<Rightarrow> 0 | Some n \<Rightarrow> n) + 1) (ml_per_author l),
       ml_messages := ml_messages l @ [msg]\<rparr>"

definition ml_take_out :: "nat \<Rightarrow> 'x message_log \<Rightarrow> 'x gossip_message \<times> 'x message_log" where
  "ml_take_out victim l =
     (let gone = ml_messages l ! victim in
      (gone,
       l\<lparr>ml_messages := take victim (ml_messages l) @ drop (victim + 1) (ml_messages l),
         ml_per_author :=
           (case map_of (ml_per_author l) (gm_pubkey gone) of
              None \<Rightarrow> ml_per_author l
            | Some n \<Rightarrow>
                if n - 1 = 0 then AList.delete (gm_pubkey gone) (ml_per_author l)
                else AList.update (gm_pubkey gone) (n - 1) (ml_per_author l))\<rparr>))"

text \<open>\<open>None\<close> where the code's \<open>expect\<close> would panic.\<close>

definition ml_push :: "'x gossip_message \<Rightarrow> 'x message_log \<Rightarrow> ('x gossip_message option \<times> 'x message_log) option" where
  "ml_push msg l =
     (let l1 = ml_add msg l in
      if length (ml_messages l1) \<le> ml_capacity l1 then Some (None, l1)
      else case eviction_index l1 of
          None \<Rightarrow> None
        | Some victim \<Rightarrow> (case ml_take_out victim l1 of (gone, l2) \<Rightarrow> Some (Some gone, l2)))"

text \<open>A history: the messages in the order of their arrival.\<close>

definition ml_pushed :: "'x gossip_message \<Rightarrow> 'x message_log option \<Rightarrow> 'x message_log option" where
  "ml_pushed m l = (case l of None \<Rightarrow> None | Some l \<Rightarrow> map_option snd (ml_push m l))"

definition ml_run :: "nat \<Rightarrow> 'x gossip_message list \<Rightarrow> 'x message_log option" where
  "ml_run capacity ms = fold ml_pushed ms (Some (ml_new capacity))"

subsection \<open>Windows and gaps\<close>

record digest_window =
  dw_lo :: int
  dw_hi :: int
  dw_ids :: "bytes list"

definition i64_max :: int where "i64_max = 9223372036854775807"

definition gm_ts :: "'x gossip_message \<Rightarrow> int" where
  "gm_ts m = sint (gm_timestamp m)"

definition collect_shards :: "ustring \<Rightarrow> ustring \<Rightarrow> nat \<Rightarrow> 'x message_log \<Rightarrow> 'x gossip_message option list" where
  "collect_shards grp pubkey n_slots l =
     fold (\<lambda>m slots.
        case gm_shard m of
          None \<Rightarrow> slots
        | Some sh \<Rightarrow>
            if sh_group sh = grp \<and> sh_total sh = n_slots \<and> gm_pubkey m = pubkey \<and> sh_idx sh < length slots \<and>
               slots ! sh_idx sh = None
            then slots[sh_idx sh := Some m] else slots)
      (ml_messages l) (replicate n_slots None)"

definition window_at :: "('x gossip_message \<Rightarrow> bytes) \<Rightarrow> nat \<Rightarrow> nat \<Rightarrow> 'x message_log \<Rightarrow> digest_window option" where
  "window_at dk start n l =
     (let sl = take n (drop start (ml_messages l)) in
      if sl = [] then None
      else Some \<lparr>dw_lo = Min (set (map gm_ts sl)), dw_hi = Max (set (map gm_ts sl)), dw_ids = map dk sl\<rparr>)"

definition recent_window :: "('x gossip_message \<Rightarrow> bytes) \<Rightarrow> nat \<Rightarrow> 'x message_log \<Rightarrow> digest_window option" where
  "recent_window dk recent l =
     map_option (\<lambda>w. w\<lparr>dw_hi := i64_max\<rparr>) (window_at dk (length (ml_messages l) - recent) recent l)"

definition older_len :: "nat \<Rightarrow> 'x message_log \<Rightarrow> nat" where
  "older_len recent l = length (ml_messages l) - recent"

definition older_window :: "('x gossip_message \<Rightarrow> bytes) \<Rightarrow> nat \<Rightarrow> nat \<Rightarrow> nat \<Rightarrow> 'x message_log \<Rightarrow> digest_window option" where
  "older_window dk recent start n l =
     (if older_len recent l = 0 then None
      else let start = start mod older_len recent l in
        window_at dk start (min n (older_len recent l - start)) l)"

definition resendable_to :: "'x gossip_message \<Rightarrow> ustring \<Rightarrow> bool" where
  "resendable_to m requester = (case sole_addressee (gm_kind m) of None \<Rightarrow> True | Some to \<Rightarrow> to = requester)"

definition missing_in_window :: "('x gossip_message \<Rightarrow> bytes) \<Rightarrow> int \<Rightarrow> int \<Rightarrow> bytes set \<Rightarrow> nat \<Rightarrow> ustring \<Rightarrow>
    'x message_log \<Rightarrow> 'x gossip_message list" where
  "missing_in_window dk lo hi known n requester l =
     take n (filter (\<lambda>m. gm_ts m \<ge> lo \<and> gm_ts m \<le> hi \<and> dk m \<notin> known \<and> resendable_to m requester)
       (rev (ml_messages l)))"

end
