(* ===== verification/Bounded.thy ===== *)
theory Bounded
  imports Prelude
begin

text \<open>
  The bounded containers of \<open>fofoca-util/src\<close>: \<open>bounded_fifo_set.rs\<close>, \<open>bounded_queue.rs\<close> and
  \<open>cooldown.rs\<close>. A hash map is a function to \<open>option\<close>, an \<open>Instant\<close> a number of nanoseconds.
\<close>

subsection \<open>A set that forgets its oldest entry\<close>

record 'a bounded_fifo_set =
  bf_capacity :: nat
  bf_set :: "'a set"
  bf_order :: "'a list"

definition bf_new :: "nat \<Rightarrow> 'a bounded_fifo_set" where
  "bf_new capacity = \<lparr>bf_capacity = max capacity 1, bf_set = {}, bf_order = []\<rparr>"

definition bf_insert :: "'a \<Rightarrow> 'a bounded_fifo_set \<Rightarrow> bool \<times> 'a bounded_fifo_set" where
  "bf_insert item s =
     (if item \<in> bf_set s then (False, s)
      else
        let set1 = insert item (bf_set s); order1 = bf_order s @ [item] in
        (True,
         if length order1 > bf_capacity s
         then (case order1 of
                 [] \<Rightarrow> s\<lparr>bf_set := set1, bf_order := order1\<rparr>
               | oldest # rest \<Rightarrow> s\<lparr>bf_set := set1 - {oldest}, bf_order := rest\<rparr>)
         else s\<lparr>bf_set := set1, bf_order := order1\<rparr>))"

definition bf_remove :: "'a \<Rightarrow> 'a bounded_fifo_set \<Rightarrow> bool \<times> 'a bounded_fifo_set" where
  "bf_remove item s =
     (if item \<in> bf_set s
      then (True, s\<lparr>bf_set := bf_set s - {item}, bf_order := filter (\<lambda>q. q \<noteq> item) (bf_order s)\<rparr>)
      else (False, s))"

definition bf_contains :: "'a \<Rightarrow> 'a bounded_fifo_set \<Rightarrow> bool" where
  "bf_contains item s = (item \<in> bf_set s)"

definition bf_len :: "'a bounded_fifo_set \<Rightarrow> nat" where
  "bf_len s = card (bf_set s)"

definition bf_inv :: "'a bounded_fifo_set \<Rightarrow> bool" where
  "bf_inv s \<longleftrightarrow> bf_set s = set (bf_order s) \<and> distinct (bf_order s) \<and> length (bf_order s) \<le> bf_capacity s \<and> 0 < bf_capacity s"

lemma bf_new_inv [simp]: "bf_inv (bf_new c)"
  by (simp add: bf_inv_def bf_new_def)

lemma bf_insert_order:
  assumes "bf_inv s" "item \<notin> bf_set s"
  shows "bf_order (snd (bf_insert item s)) =
    (if length (bf_order s) < bf_capacity s then bf_order s @ [item] else tl (bf_order s) @ [item])"
  using assms by (cases "bf_order s") (auto simp: bf_insert_def Let_def bf_inv_def)

lemma bf_insert_capacity [simp]: "bf_capacity (snd (bf_insert item s)) = bf_capacity s"
  by (auto simp: bf_insert_def Let_def split: list.split)

lemma bf_insert_inv: "bf_inv s \<Longrightarrow> bf_inv (snd (bf_insert item s))"
  by (cases "bf_order s") (auto simp: bf_insert_def Let_def bf_inv_def)

lemma bf_remove_inv: "bf_inv s \<Longrightarrow> bf_inv (snd (bf_remove item s))"
  by (auto simp: bf_remove_def bf_inv_def intro: order_trans [OF length_filter_le])

lemma bf_insert_new: "fst (bf_insert item s) = (item \<notin> bf_set s)"
  by (simp add: bf_insert_def Let_def)

lemma bf_insert_in: "bf_inv s \<Longrightarrow> item \<in> bf_set (snd (bf_insert item s))"
  by (cases "bf_order s") (auto simp: bf_insert_def Let_def bf_inv_def)

lemma bf_len_bound: "bf_inv s \<Longrightarrow> bf_len s \<le> bf_capacity s"
  by (simp add: bf_len_def bf_inv_def distinct_card)

text \<open>The set holds the last entries inserted, as many as fit: the oldest goes first.\<close>

lemma bf_inserts:
  assumes "distinct xs" "0 < c"
  defines "s \<equiv> fold (\<lambda>x s. snd (bf_insert x s)) xs (bf_new c)"
  shows "bf_inv s \<and> bf_order s = drop (length xs - c) xs \<and> bf_capacity s = c"
  unfolding s_def using assms(1)
proof (induction xs rule: rev_induct)
  case Nil
  then show ?case using assms(2) by (simp add: bf_inv_def bf_new_def)
next
  case (snoc x xs)
  define t where "t = fold (\<lambda>x s. snd (bf_insert x s)) xs (bf_new c)"
  have t: "bf_inv t" "bf_order t = drop (length xs - c) xs" "bf_capacity t = c"
    using snoc unfolding t_def by auto
  have "x \<notin> bf_set t" using snoc(2) t by (auto simp: bf_inv_def dest: in_set_dropD)
  then have "bf_order (snd (bf_insert x t)) = drop (length (xs @ [x]) - c) (xs @ [x])"
  proof (cases "length xs < c")
    case False
    then have "Suc (length xs - c) = Suc (length xs) - c" "\<not> length (bf_order t) < c" using t(2) by auto
    then show ?thesis using bf_insert_order [OF t(1) \<open>x \<notin> bf_set t\<close>] t False assms(2)
      by (simp add: drop_Suc [symmetric] tl_drop drop_append)
  qed (use bf_insert_order [OF t(1) \<open>x \<notin> bf_set t\<close>] t in simp)
  then show ?case using bf_insert_inv [OF t(1)] t(3) by (simp add: t_def)
qed

subsection \<open>A queue that refuses what does not fit\<close>

record 'a bounded_queue =
  bq_capacity :: nat
  bq_queue :: "'a list"

definition bq_new :: "nat \<Rightarrow> 'a bounded_queue" where
  "bq_new capacity = \<lparr>bq_capacity = capacity, bq_queue = []\<rparr>"

definition bq_push :: "'a \<Rightarrow> 'a bounded_queue \<Rightarrow> bool \<times> 'a bounded_queue" where
  "bq_push item q =
     (if length (bq_queue q) \<ge> bq_capacity q then (False, q)
      else (True, q\<lparr>bq_queue := bq_queue q @ [item]\<rparr>))"

definition bq_take :: "'a bounded_queue \<Rightarrow> 'a list \<times> 'a bounded_queue" where
  "bq_take q = (bq_queue q, q\<lparr>bq_queue := []\<rparr>)"

definition bq_remaining :: "'a bounded_queue \<Rightarrow> nat" where
  "bq_remaining q = bq_capacity q - length (bq_queue q)"

text \<open>What is pushed past the capacity is refused; the oldest run stays as it is.\<close>

lemma bq_pushes:
  "bq_queue (fold (\<lambda>x q. snd (bq_push x q)) xs (bq_new c)) = take c xs \<and>
   bq_capacity (fold (\<lambda>x q. snd (bq_push x q)) xs (bq_new c)) = c"
proof (induction xs rule: rev_induct)
  case (snoc x xs)
  then show ?case by (auto simp: bq_push_def)
qed (simp add: bq_new_def)

subsection \<open>A throttle per key\<close>

record 'k cooldown =
  cd_seen :: "'k \<Rightarrow> nat option"
  cd_window :: nat

definition cd_new :: "nat \<Rightarrow> 'k cooldown" where
  "cd_new window = \<lparr>cd_seen = (\<lambda>_. None), cd_window = window\<rparr>"

definition cd_on_cooldown :: "'k \<Rightarrow> nat \<Rightarrow> 'k cooldown \<Rightarrow> bool" where
  "cd_on_cooldown key now c = (case cd_seen c key of None \<Rightarrow> False | Some at \<Rightarrow> now - at < cd_window c)"

definition cd_note :: "'k \<Rightarrow> nat \<Rightarrow> 'k cooldown \<Rightarrow> 'k cooldown" where
  "cd_note key now c =
     c\<lparr>cd_seen :=
         (\<lambda>k. case cd_seen c k of None \<Rightarrow> None | Some at \<Rightarrow> if now - at < cd_window c then Some at else None)
         (key := Some now)\<rparr>"

definition cd_clear :: "'k cooldown \<Rightarrow> 'k cooldown" where
  "cd_clear c = c\<lparr>cd_seen := (\<lambda>_. None)\<rparr>"

definition cd_forget :: "'k \<Rightarrow> 'k cooldown \<Rightarrow> bool \<times> 'k cooldown" where
  "cd_forget key c = (cd_seen c key \<noteq> None, c\<lparr>cd_seen := (cd_seen c)(key := None)\<rparr>)"

text \<open>Noting a key never puts another one on cooldown or takes it off, and holds its own until
  the window is over.\<close>

lemma cd_note_other: "k \<noteq> key \<Longrightarrow> now \<le> at \<Longrightarrow> cd_on_cooldown k at (cd_note key now c) = cd_on_cooldown k at c"
  by (auto simp: cd_on_cooldown_def cd_note_def split: option.split)

lemma cd_note_self: "cd_on_cooldown key at (cd_note key now c) = (at - now < cd_window c)"
  by (simp add: cd_on_cooldown_def cd_note_def)

text \<open>After a note every entry is younger than the window.\<close>

lemma cd_note_fresh: "cd_seen (cd_note key now c) k = Some at \<Longrightarrow> now - at < cd_window c \<or> at = now"
  by (auto simp: cd_note_def split: if_splits option.splits)

subsection \<open>What a throttle promises\<close>

text \<open>Asks in the order of the clock, each granted and noted unless its key is on cooldown: those granted.\<close>

fun throttled :: "('k \<Rightarrow> nat \<Rightarrow> 's \<Rightarrow> bool) \<Rightarrow> ('k \<Rightarrow> nat \<Rightarrow> 's \<Rightarrow> 's) \<Rightarrow> ('k \<times> nat) list \<Rightarrow> 's \<Rightarrow> ('k \<times> nat) list" where
  "throttled on_cooldown noted [] s = []"
| "throttled on_cooldown noted ((k, t) # asks) s =
     (if on_cooldown k t s then throttled on_cooldown noted asks s
      else (k, t) # throttled on_cooldown noted asks (noted k t s))"

lemma throttled_subset: "set (throttled on_cooldown noted asks s) \<subseteq> set asks"
proof (induction asks arbitrary: s)
  case (Cons a asks)
  then show ?case by (cases a) auto
qed simp

locale throttle =
  fixes on_cooldown :: "'k \<Rightarrow> nat \<Rightarrow> 's \<Rightarrow> bool"
    and noted :: "'k \<Rightarrow> nat \<Rightarrow> 's \<Rightarrow> 's"
    and well_formed :: "'s \<Rightarrow> bool"
    and window :: nat
  assumes noted_well: "well_formed s \<Longrightarrow> well_formed (noted k t s)"
    and noted_self: "well_formed s \<Longrightarrow> on_cooldown k u (noted k t s) \<longleftrightarrow> u - t < window"
    and noted_other: "well_formed s \<Longrightarrow> k \<noteq> j \<Longrightarrow> t \<le> u \<Longrightarrow> on_cooldown k u (noted j t s) = on_cooldown k u s"
begin

lemma held_until:
  assumes "well_formed s" "\<And>u. t \<le> u \<Longrightarrow> u < until \<Longrightarrow> on_cooldown k u s" "sorted (t # map snd asks)"
    and "(k, u) \<in> set (throttled on_cooldown noted asks s)"
  shows "until \<le> u"
  using assms
proof (induction asks arbitrary: s t)
  case (Cons a asks)
  obtain j v where a: "a = (j, v)" by fastforce
  have v: "t \<le> v" "sorted (v # map snd asks)" using Cons.prems(3) by (auto simp: a)
  show ?case
  proof (cases "on_cooldown j v s")
    case True
    then show ?thesis using Cons.IH [of s v] Cons.prems v by (auto simp: a)
  next
    case False
    have w: "well_formed (noted j v s)" by (rule noted_well [OF Cons.prems(1)])
    show ?thesis
    proof (cases "j = k")
      case True
      then have "until \<le> v" using False Cons.prems(2) [of v] v(1) by (meson not_less)
      moreover have "v \<le> u" if "(k, u) \<in> set (throttled on_cooldown noted asks (noted j v s))"
        using that v(2) throttled_subset [of on_cooldown noted asks "noted j v s"] by force
      ultimately show ?thesis using Cons.prems(4) False by (auto simp: a)
    next
      case other: False
      have "\<And>x. v \<le> x \<Longrightarrow> x < until \<Longrightarrow> on_cooldown k x (noted j v s)"
        using noted_other [OF Cons.prems(1)] other Cons.prems(2) v(1) by (metis order_trans)
      from Cons.IH [OF w this v(2)] show ?thesis using Cons.prems(4) False other by (auto simp: a)
    qed
  qed
qed simp

lemma grants_spaced:
  assumes "well_formed s" "sorted (map snd asks)"
  shows "sorted_wrt (\<lambda>a b. fst a \<noteq> fst b \<or> snd a + window \<le> snd b) (throttled on_cooldown noted asks s)"
  using assms
proof (induction asks arbitrary: s)
  case (Cons a asks)
  obtain j v where a: "a = (j, v)" by fastforce
  have w: "well_formed (noted j v s)" by (rule noted_well [OF Cons.prems(1)])
  have "v + window \<le> u" if "(j, u) \<in> set (throttled on_cooldown noted asks (noted j v s))" for u
    by (rule held_until [OF w _ _ that, of v]) (use noted_self [OF Cons.prems(1)] Cons.prems(2) in \<open>auto simp: a\<close>)
  then show ?case using Cons.IH [of s] Cons.IH [OF w] Cons.prems by (auto simp: a)
qed simp

end

interpretation cd: throttle cd_on_cooldown cd_note "\<lambda>c. cd_window c = w" w for w
  by unfold_locales (simp_all add: cd_note_self cd_note_other, simp add: cd_note_def)

end
