(* ===== verification/LogRetention.thy ===== *)
theory LogRetention
  imports MessageLog Bounded "HOL-Library.Multiset"
begin

text \<open>
  What a full message log keeps (\<open>daemon/message_log.rs\<close>): the retained set is a function of the messages
  and of the capacity, each author is sure of its share, and the duplicate filter in front of the log
  (\<open>mark_seen\<close> of \<open>daemon/state.rs\<close>) does not cover it.
\<close>

subsection \<open>The retained set as a function of the messages\<close>

text \<open>\<open>rank\<close> counts the newer messages of the same author. A message is retained when fewer than
  \<open>capacity\<close> messages come before it, the lower rank first and, within a rank, the greater key of the
  author. Nothing of this depends on the order in which the messages arrived.\<close>

definition newer :: "'x gossip_message \<Rightarrow> 'x gossip_message \<Rightarrow> bool" where
  "newer y x \<longleftrightarrow> gm_pubkey y = gm_pubkey x \<and> eviction_key x < eviction_key y"

definition rank :: "'x gossip_message set \<Rightarrow> 'x gossip_message \<Rightarrow> nat" where
  "rank S x = card {y \<in> S. newer y x}"

definition before :: "'x gossip_message set \<Rightarrow> 'x gossip_message \<Rightarrow> 'x gossip_message \<Rightarrow> bool" where
  "before S x y \<longleftrightarrow> rank S x < rank S y \<or> rank S x = rank S y \<and> utf8 (gm_pubkey y) < utf8 (gm_pubkey x)"

definition retained :: "nat \<Rightarrow> 'x gossip_message set \<Rightarrow> 'x gossip_message set" where
  "retained c S = {x \<in> S. card {y \<in> S. before S y x} < c}"

lemma newer_trans: "newer z y \<Longrightarrow> newer y x \<Longrightarrow> newer z x"
  by (auto simp: newer_def)

lemma newer_irrefl [simp]: "\<not> newer x x"
  by (simp add: newer_def)

lemma before_trans: "before S x y \<Longrightarrow> before S y z \<Longrightarrow> before S x z"
  unfolding before_def by (auto dest: less_trans)

lemma before_irrefl [simp]: "\<not> before S x x"
  by (simp add: before_def)

lemma newer_total:
  "inj_on eviction_key S \<Longrightarrow> x \<in> S \<Longrightarrow> y \<in> S \<Longrightarrow> gm_pubkey x = gm_pubkey y \<Longrightarrow> x \<noteq> y \<Longrightarrow> newer x y \<or> newer y x"
  unfolding newer_def by (metis inj_onD linorder_neqE)

lemma rank_less:
  assumes "finite S" "newer y x" "y \<in> S" shows "rank S y < rank S x"
  unfolding rank_def
proof (rule psubset_card_mono)
  show "finite {z \<in> S. newer z x}" using assms(1) by simp
  have "y \<in> {z \<in> S. newer z x} - {z \<in> S. newer z y}" using assms by simp
  then show "{z \<in> S. newer z y} \<subset> {z \<in> S. newer z x}" using assms newer_trans by blast
qed

lemma before_total:
  assumes S: "finite S" "inj_on eviction_key S" and xy: "x \<in> S" "y \<in> S" "x \<noteq> y"
  shows "before S x y \<or> before S y x"
proof (cases "gm_pubkey x = gm_pubkey y")
  case True
  then show ?thesis using newer_total [OF S(2) xy(1,2) True xy(3)] rank_less [OF S(1)] xy unfolding before_def by blast
next
  case False
  then have "utf8 (gm_pubkey x) \<noteq> utf8 (gm_pubkey y)" by (simp add: utf8_inject)
  then show ?thesis unfolding before_def by (meson linorder_neqE)
qed

text \<open>The \<open>c\<close> first of a set are the only part of that size that comes before the rest.\<close>

lemma first_unique:
  assumes fin: "finite A" and irr: "\<And>x. \<not> lt x x" and tr: "\<And>x y z. lt x y \<Longrightarrow> lt y z \<Longrightarrow> lt x z"
    and B: "B \<subseteq> A" "card B = c" "\<And>x y. x \<in> B \<Longrightarrow> y \<in> A - B \<Longrightarrow> lt x y"
  shows "{x \<in> A. card {y \<in> A. lt y x} < c} = B"
proof (intro equalityI subsetI)
  have finB: "finite B" using B(1) fin finite_subset by blast
  fix x assume x: "x \<in> B"
  have "{y \<in> A. lt y x} \<subseteq> B - {x}" using B(3) [OF x] irr tr x by blast
  then have "card {y \<in> A. lt y x} \<le> card (B - {x})" using finB by (intro card_mono) auto
  also have "\<dots> < c" using card_Diff1_less [OF finB x] B(2) by simp
  finally show "x \<in> {x \<in> A. card {y \<in> A. lt y x} < c}" using x B(1) by blast
next
  fix x assume x: "x \<in> {x \<in> A. card {y \<in> A. lt y x} < c}"
  show "x \<in> B"
  proof (rule ccontr)
    assume "x \<notin> B"
    then have "B \<subseteq> {y \<in> A. lt y x}" using B(1,3) x by blast
    then have "card B \<le> card {y \<in> A. lt y x}" using fin by (intro card_mono) auto
    then show False using x B(2) by simp
  qed
qed

text \<open>A part of that size exists.\<close>

lemma first_card:
  assumes fin: "finite A" and tot: "\<And>x y. x \<in> A \<Longrightarrow> y \<in> A \<Longrightarrow> x \<noteq> y \<Longrightarrow> lt x y \<or> lt y x"
    and irr: "\<And>x. \<not> lt x x" and tr: "\<And>x y z. lt x y \<Longrightarrow> lt y z \<Longrightarrow> lt x z" and c: "c \<le> card A"
  shows "\<exists>B. B \<subseteq> A \<and> card B = c \<and> (\<forall>x \<in> B. \<forall>y \<in> A - B. lt x y)"
  using c
proof (induction c)
  case 0
  then show ?case by (intro exI [of _ "{}"]) simp
next
  case (Suc c)
  then obtain B where B: "B \<subseteq> A" "card B = c" "\<forall>x \<in> B. \<forall>y \<in> A - B. lt x y" by auto
  have ne: "A - B \<noteq> {}" "finite (A - B)" "finite B"
    using Suc(2) B fin finite_subset [OF B(1)] by (auto dest: card_mono)
  have "\<exists>m \<in> D. \<forall>y \<in> D - {m}. lt m y" if "finite D" "D \<noteq> {}" "D \<subseteq> A" for D
    using that
  proof (induction D rule: finite_ne_induct)
    case (insert x D)
    then obtain m where m: "m \<in> D" "\<forall>y \<in> D - {m}. lt m y" by auto
    then have "lt m x \<or> lt x m" using tot insert by blast
    then show ?case using m tr by blast
  qed simp
  then obtain m where m: "m \<in> A - B" "\<forall>y \<in> A - B - {m}. lt m y" using ne by blast
  have "insert m B \<subseteq> A" "card (insert m B) = Suc c" using m B ne by auto
  moreover have "\<forall>x \<in> insert m B. \<forall>y \<in> A - insert m B. lt x y" using m B by blast
  ultimately show ?case by blast
qed

lemma retained_unique:
  assumes S: "finite S" "inj_on eviction_key S"
    and B: "B \<subseteq> S" "card B = c" "\<And>x y. x \<in> B \<Longrightarrow> y \<in> S - B \<Longrightarrow> before S x y"
  shows "retained c S = B"
  unfolding retained_def by (rule first_unique) (use S B before_irrefl before_trans in blast)+

lemma retained_all: "finite S \<Longrightarrow> card S \<le> c \<Longrightarrow> retained c S = S"
proof -
  assume a: "finite S" "card S \<le> c"
  have "card {y \<in> S. before S y x} < c" if "x \<in> S" for x
  proof -
    have "{y \<in> S. before S y x} \<subseteq> S - {x}" by auto
    then have "card {y \<in> S. before S y x} \<le> card (S - {x})" using a(1) by (intro card_mono) auto
    then show ?thesis using card_Diff1_less [OF a(1) that] a(2) by simp
  qed
  then show ?thesis unfolding retained_def by blast
qed

lemma retained_first:
  assumes S: "finite S" "inj_on eviction_key S" and c: "c \<le> card S"
  shows "retained c S \<subseteq> S \<and> card (retained c S) = c \<and> (\<forall>x \<in> retained c S. \<forall>y \<in> S - retained c S. before S x y)"
proof -
  have "\<exists>B. B \<subseteq> S \<and> card B = c \<and> (\<forall>x \<in> B. \<forall>y \<in> S - B. before S x y)"
    by (rule first_card [OF S(1) before_total [OF S] before_irrefl before_trans c])
  then obtain B where B: "B \<subseteq> S" "card B = c" "\<forall>x \<in> B. \<forall>y \<in> S - B. before S x y" by blast
  then have "retained c S = B" by (intro retained_unique [OF S]) auto
  then show ?thesis using B by simp
qed

text \<open>The step: of what was retained and one new message, the last one goes.\<close>

definition log_step :: "'x gossip_message set \<Rightarrow> 'x gossip_message \<Rightarrow> 'x gossip_message \<Rightarrow> nat \<Rightarrow>
    'x gossip_message set \<Rightarrow> 'x gossip_message set \<Rightarrow> 'x gossip_message set \<Rightarrow> bool" where
  "log_step S m v c R T S' \<longleftrightarrow>
     R = retained c S \<and> T = insert m R \<and> S' = insert m S \<and>
     finite S \<and> inj_on eviction_key S' \<and> m \<notin> S \<and> c \<le> card S \<and> v \<in> T \<and> (\<forall>x \<in> T. x \<noteq> v \<longrightarrow> before T x v)"

lemma log_step_facts:
  assumes st: "log_step S m v c R T S'"
  shows "T = insert m R" "S' = insert m S" "finite S" "m \<notin> S" "inj_on eviction_key S"
    "finite S'" "inj_on eviction_key S'" "finite T" "T \<subseteq> S'" "m \<notin> R" "R \<subseteq> S" "card R = c" "retained c S = R"
    "\<And>x y. x \<in> R \<Longrightarrow> y \<in> S - R \<Longrightarrow> before S x y" "v \<in> T" "\<And>x. x \<in> T \<Longrightarrow> x \<noteq> v \<Longrightarrow> before T x v"
proof -
  have a: "R = retained c S" "T = insert m R" "S' = insert m S" "finite S" "inj_on eviction_key S'" "m \<notin> S"
    "c \<le> card S" "v \<in> T" "\<And>x. x \<in> T \<Longrightarrow> x \<noteq> v \<Longrightarrow> before T x v"
    using st unfolding log_step_def by blast+
  have i: "inj_on eviction_key S" using a(3,5) by (simp add: inj_on_insert)
  note f = retained_first [OF a(4) i a(7), folded a(1)]
  show "T = insert m R" "S' = insert m S" "finite S" "m \<notin> S" "inj_on eviction_key S" "finite S'"
    "inj_on eviction_key S'" "R \<subseteq> S" "card R = c" "retained c S = R" "v \<in> T" "finite T" "m \<notin> R" "T \<subseteq> S'"
    using a i f finite_subset [of R S] by auto
  show "\<And>x y. x \<in> R \<Longrightarrow> y \<in> S - R \<Longrightarrow> before S x y" using f by blast
  show "\<And>x. x \<in> T \<Longrightarrow> x \<noteq> v \<Longrightarrow> before T x v" using a(9) .
qed

lemma retained_closed:
  assumes st: "log_step S m v c R T S'" and x: "x \<in> R" and y: "y \<in> S" "newer y x"
  shows "y \<in> R"
proof (rule ccontr)
  assume "y \<notin> R"
  then have "before S x y" using log_step_facts(14) [OF st x] y(1) by blast
  moreover have "rank S y < rank S x" using rank_less [OF log_step_facts(3) [OF st] y(2,1)] .
  ultimately show False by (simp add: before_def)
qed

lemma rank_old:
  assumes st: "log_step S m v c R T S'"
  shows "rank S' z = rank S z + (if newer m z then 1 else 0)"
proof -
  have "{y \<in> S'. newer y z} = (if newer m z then insert m {y \<in> S. newer y z} else {y \<in> S. newer y z})"
    by (auto simp: log_step_facts(2) [OF st])
  then show ?thesis using log_step_facts(3,4) [OF st] by (simp add: rank_def)
qed

lemma rank_kept:
  assumes st: "log_step S m v c R T S'" and x: "x \<in> R" shows "rank T x = rank S' x"
proof -
  have "{y \<in> T. newer y x} = {y \<in> S'. newer y x}"
    using retained_closed [OF st x] log_step_facts(1,2,11) [OF st] by auto
  then show ?thesis by (simp add: rank_def)
qed

text \<open>When a newer message of its author was already let go, the new message is the one to go.\<close>

lemma late_goes:
  assumes st: "log_step S m v c R T S'" and y: "y \<in> S - R" "newer y m" shows "v = m"
proof -
  note fs = log_step_facts [OF st] and closed = retained_closed [OF st] and rank_old = rank_old [OF st]
    and rank_T = rank_kept [OF st]
  let ?D = "{z \<in> S - R. newer z m}"
  have fin: "finite (eviction_key ` ?D)" "eviction_key ` ?D \<noteq> {}" using fs(3) y by auto
  obtain w where w: "w \<in> ?D" "eviction_key w = Max (eviction_key ` ?D)"
    using Max_in [OF fin] by (auto elim!: imageE)
  have top: "z \<in> R" if "z \<in> S" "newer z w" for z
  proof (rule ccontr)
    assume "z \<notin> R"
    then have "z \<in> ?D" using that w(1) newer_trans by blast
    then have "eviction_key z \<le> eviction_key w" using w(2) fs(3) by (simp add: Max_ge)
    then show False using that(2) unfolding newer_def by (metis leD)
  qed
  have above: "newer x w" if "x \<in> R" "gm_pubkey x = gm_pubkey m" for x
  proof -
    have "x \<noteq> w" "x \<in> S" "w \<in> S" "gm_pubkey x = gm_pubkey w" using that w(1) fs(11) by (auto simp: newer_def)
    then show ?thesis using newer_total [OF fs(5)] closed [OF that(1)] w(1) by blast
  qed
  have "{z \<in> S. newer z w} = {z \<in> T. newer z m}"
    using top above w(1) fs(11) newer_trans by (auto simp: fs(1) newer_def)
  then have rank_m: "rank T m = rank S w" by (simp add: rank_def)
  have "before T x m" if "x \<in> R" for x
  proof -
    have "\<not> newer m x"
    proof
      assume "newer m x"
      then have "newer x w" using above [OF that] by (simp add: newer_def)
      then show False using \<open>newer m x\<close> w(1) newer_trans newer_irrefl by blast
    qed
    then have "rank T x = rank S x" using rank_T [OF that] rank_old by simp
    moreover have "before S x w" using fs(14) that w(1) by blast
    moreover have "gm_pubkey w = gm_pubkey m" using w(1) by (simp add: newer_def)
    ultimately show ?thesis using rank_m by (simp add: before_def)
  qed
  then have "before T v m" if "v \<noteq> m" using that fs(1,15) by blast
  moreover have "before T m v" if "v \<noteq> m" using that fs(1,16) by blast
  ultimately show ?thesis using before_trans before_irrefl by blast
qed

lemma retained_step:
  assumes st: "log_step S m v c R T S'" shows "retained c S' = T - {v}"
proof (rule retained_unique)
  note fs = log_step_facts [OF st] and closed = retained_closed [OF st] and rank_old = rank_old [OF st]
    and rank_T = rank_kept [OF st]
  show "finite S'" "inj_on eviction_key S'" using fs(6,7) by auto
  show "T - {v} \<subseteq> S'" using fs(9) by blast
  show "card (T - {v}) = c" using fs(15) fs(8,10) fs(12) fs(1)
    by (metis fs(3) fs(11) card_Diff_singleton card_insert_disjoint diff_Suc_1 finite_subset)
  fix x z assume x: "x \<in> T - {v}" and z: "z \<in> S' - (T - {v})"
  have rank_m: "rank T m = rank S' m" if "v \<noteq> m"
  proof -
    have "{y \<in> T. newer y m} = {y \<in> S'. newer y m}" using late_goes [OF st] that fs(11) by (auto simp: fs(1) fs(2))
    then show ?thesis by (simp add: rank_def)
  qed
  have le: "rank S' y = rank T y" if "y \<in> T" "y \<noteq> m \<or> v \<noteq> m" for y
    using that rank_T rank_m by (auto simp: fs(1))
  have le_m: "rank T m \<le> rank S' m" unfolding rank_def using fs(6,9) by (intro card_mono) auto
  have xv: "before T x v" using fs(16) x by blast
  have x_rank: "rank S' x = rank T x" using le x by (cases "x = m") auto
  show "before S' x z"
  proof (cases "z = v")
    case True
    have "rank T v \<le> rank S' v" using le [OF fs(15)] le_m by (cases "v = m") auto
    then show ?thesis using xv x_rank True by (auto simp: before_def)
  next
    case False
    then have z': "z \<in> S - R" using z by (auto simp: fs(2) fs(1))
    have z_rank: "rank S z \<le> rank S' z" using rank_old [of z] by simp
    show ?thesis
    proof (cases "x \<in> R \<and> \<not> newer m x")
      case True
      then have "before S x z" "rank S' x = rank S x" using fs(14) z' rank_old [of x] by auto
      then show ?thesis using z_rank by (auto simp: before_def)
    next
      case False
      then have old: "gm_pubkey x = gm_pubkey m" "x = m \<or> newer m x" using x by (auto simp: fs(1) newer_def)
      show ?thesis
      proof (cases "gm_pubkey z = gm_pubkey m")
        case True
        have "newer x z"
        proof (rule ccontr)
          assume "\<not> newer x z"
          moreover have "x \<noteq> z" "x \<in> S'" "z \<in> S'" using x z' z fs(9,10) by (auto simp: fs(1) fs(2) fs(4))
          ultimately have "newer z x" using newer_total [OF fs(7)] old(1) True by metis
          then show False using closed z' old(2) late_goes [OF st] x by (metis Diff_iff fs(1) insertE singletonI)
        qed
        then show ?thesis using rank_less [OF fs(6)] x fs(9) by (auto simp: before_def)
      next
        case other: False
        then have z_same: "rank S' z = rank S z" by (simp add: rank_old newer_def)
        show ?thesis
        proof (cases "gm_pubkey v = gm_pubkey m")
          case True
          have "v \<noteq> x" using x by blast
          then have "newer x v"
            using newer_total [OF fs(7), of x v] x fs(15) fs(8,9) old(1) True xv rank_less [OF fs(8), of v x]
            by (auto simp: before_def)
          then have "v \<noteq> m" "newer m v" using old(2) newer_trans by (auto dest: newer_trans)
          then have "v \<in> R" using fs(15) by (simp add: fs(1))
          moreover have "rank S' x < rank S' v" using rank_less [OF fs(6) \<open>newer x v\<close>] x fs(9) by blast
          then have "rank S' x \<le> rank S v" using rank_old [of v] \<open>newer m v\<close> by simp
          ultimately show ?thesis using fs(14) z' old(1) True z_same unfolding before_def by fastforce
        next
          case False
          then have "v \<in> R" "\<not> newer m v" using fs(15) by (auto simp: fs(1) newer_def)
          then have "before S v z" "rank T v = rank S v" using fs(14) z' rank_T rank_old [of v] by auto
          then have "before S' v z" using z_same rank_T [OF \<open>v \<in> R\<close>] by (simp add: before_def)
          moreover have "before S' x v" using xv x_rank rank_T [OF \<open>v \<in> R\<close>] by (simp add: before_def)
          ultimately show ?thesis by (rule before_trans [rotated])
        qed
      qed
    qed
  qed
qed

subsection \<open>The log computes it\<close>

lemma max_by_None [simp]: "max_by le xs = None \<longleftrightarrow> xs = []"
  by (cases xs) (auto split: option.split)

lemma min_by_None [simp]: "min_by le xs = None \<longleftrightarrow> xs = []"
  by (cases xs) (auto split: option.split)

lemma max_by_spec:
  assumes tot: "\<And>x y. le x y \<or> le y x" and tr: "\<And>x y z. le x y \<Longrightarrow> le y z \<Longrightarrow> le x z"
  shows "max_by le xs = Some y \<Longrightarrow> y \<in> set xs \<and> (\<forall>x \<in> set xs. le x y)"
proof (induction xs arbitrary: y)
  case (Cons a xs)
  show ?case
  proof (cases "max_by le xs")
    case None
    then show ?thesis using Cons(2) tot by auto
  next
    case (Some z)
    note z = Cons(1) [OF Some]
    show ?thesis
    proof (cases "le a z")
      case True
      then show ?thesis using z Cons(2) Some by auto
    next
      case False
      then have "le z a" "y = a" using tot [of a z] Cons(2) Some by auto
      then show ?thesis using z tot [of a a] tr [OF _ \<open>le z a\<close>] by auto
    qed
  qed
qed simp

lemma min_by_spec:
  assumes tot: "\<And>x y. le x y \<or> le y x" and tr: "\<And>x y z. le x y \<Longrightarrow> le y z \<Longrightarrow> le x z"
  shows "min_by le xs = Some y \<Longrightarrow> y \<in> set xs \<and> (\<forall>x \<in> set xs. le y x)"
proof (induction xs arbitrary: y)
  case (Cons a xs)
  show ?case
  proof (cases "min_by le xs")
    case None
    then show ?thesis using Cons(2) tot by auto
  next
    case (Some z)
    note z = Cons(1) [OF Some]
    show ?thesis
    proof (cases "le a z")
      case True
      then have "y = a" using Cons(2) Some by auto
      then show ?thesis using z tot [of a a] tr [OF True] by auto
    next
      case False
      then have "le z a" "y = z" using tot [of a z] Cons(2) Some by auto
      then show ?thesis using z by auto
    qed
  qed
qed simp

definition held :: "ustring \<Rightarrow> 'x gossip_message list \<Rightarrow> nat" where
  "held a ms = length (filter (\<lambda>m. gm_pubkey m = a) ms)"

definition ml_inv :: "'x message_log \<Rightarrow> bool" where
  "ml_inv l \<longleftrightarrow>
     distinct (map fst (ml_per_author l)) \<and>
     (\<forall>a. map_of (ml_per_author l) a = (if held a (ml_messages l) = 0 then None else Some (held a (ml_messages l))))"

lemma held_append [simp]: "held a (xs @ ys) = held a xs + held a ys"
  by (simp add: held_def)

lemma held_simps [simp]: "held a [] = 0" "held a (m # ms) = (if gm_pubkey m = a then 1 else 0) + held a ms"
  by (simp_all add: held_def)

lemma ml_new_inv: "ml_inv (ml_new c)"
  by (simp add: ml_inv_def ml_new_def)

lemma held_le_rank:
  assumes "distinct ms" "inj_on eviction_key (set ms)" "x \<in> set ms"
  shows "rank (set ms) x < held (gm_pubkey x) ms"
proof -
  have "{y \<in> set ms. newer y x} \<subset> {y \<in> set ms. gm_pubkey y = gm_pubkey x}"
    using assms(3) by (auto simp: newer_def)
  then have "rank (set ms) x < card {y \<in> set ms. gm_pubkey y = gm_pubkey x}"
    unfolding rank_def by (intro psubset_card_mono) auto
  also have "\<dots> = held (gm_pubkey x) ms" using assms(1)
    by (simp add: held_def distinct_card [symmetric])
  finally show ?thesis .
qed

lemma held_oldest:
  assumes d: "distinct ms" "inj_on eviction_key (set ms)" and x: "x \<in> set ms"
    and least: "\<And>y. y \<in> set ms \<Longrightarrow> gm_pubkey y = gm_pubkey x \<Longrightarrow> eviction_key x \<le> eviction_key y"
  shows "Suc (rank (set ms) x) = held (gm_pubkey x) ms"
proof -
  have "newer y x" if "y \<in> set ms" "gm_pubkey y = gm_pubkey x" "y \<noteq> x" for y
    using newer_total [OF d(2) that(1) x that(2,3)] least [OF that(1,2)] unfolding newer_def by (metis leD)
  then have eq: "{y \<in> set ms. gm_pubkey y = gm_pubkey x} = insert x {y \<in> set ms. newer y x}"
    using x by (auto simp: newer_def)
  have "held (gm_pubkey x) ms = card {y \<in> set ms. gm_pubkey y = gm_pubkey x}" using d(1)
    by (simp add: held_def distinct_card [symmetric])
  also have "\<dots> = Suc (rank (set ms) x)" unfolding eq rank_def by simp
  finally show ?thesis ..
qed

lemma author_le_total: "author_le a b \<or> author_le b a"
  unfolding author_le_def using linorder_linear by (metis nat_neq_iff)

lemma author_le_trans: "author_le a b \<Longrightarrow> author_le b d \<Longrightarrow> author_le a d"
  unfolding author_le_def by (auto intro: less_trans order_trans)

lemma eviction_index_spec:
  assumes inv: "ml_inv l" and d: "distinct (ml_messages l)" "inj_on eviction_key (set (ml_messages l))"
    and ne: "ml_messages l \<noteq> []"
  obtains i where "eviction_index l = Some i" "i < length (ml_messages l)"
    "\<And>x. x \<in> set (ml_messages l) \<Longrightarrow> x \<noteq> ml_messages l ! i \<Longrightarrow> before (set (ml_messages l)) x (ml_messages l ! i)"
proof -
  let ?ms = "ml_messages l"
  have per: "map_of (ml_per_author l) a = (if held a ?ms = 0 then None else Some (held a ?ms))" for a
    using inv by (simp add: ml_inv_def)
  have dist: "distinct (map fst (ml_per_author l))" using inv by (simp add: ml_inv_def)
  have pos: "0 < held (gm_pubkey x) ?ms" if "x \<in> set ?ms" for x
    using held_le_rank [OF d that] by simp
  have "ml_per_author l \<noteq> []"
  proof
    assume "ml_per_author l = []"
    then have "held a ?ms = 0" for a using per [of a] by (auto split: if_splits)
    then show False using pos [of "hd ?ms"] ne by simp
  qed
  then obtain f n where f: "max_by author_le (ml_per_author l) = Some (f, n)"
    by (metis max_by_None not_None_eq surj_pair)
  have fmax: "(f, n) \<in> set (ml_per_author l) \<and> (\<forall>x \<in> set (ml_per_author l). author_le x (f, n))"
    by (rule max_by_spec [OF author_le_total _ f]) (rule author_le_trans)
  then have "map_of (ml_per_author l) f = Some n" using dist by simp
  then have n: "held f ?ms = n" "n \<noteq> 0" using per [of f] by (auto split: if_splits)
  let ?es = "filter (\<lambda>(_, m). gm_pubkey m = f) (enumerate 0 ?ms)"
  let ?le = "\<lambda>a b. eviction_key (snd a) \<le> eviction_key (snd b)"
  have "\<exists>x \<in> set ?ms. gm_pubkey x = f" using n by (auto simp: held_def filter_empty_conv)
  then obtain k where "(k, ?ms ! k) \<in> set (enumerate 0 ?ms)" "gm_pubkey (?ms ! k) = f"
    by (auto simp: in_set_enumerate_eq in_set_conv_nth [of _ ?ms])
  then have "?es \<noteq> []" by (force simp: filter_empty_conv)
  then obtain i m where im: "min_by ?le ?es = Some (i, m)" by (metis min_by_None not_None_eq surj_pair)
  have "(i, m) \<in> set ?es \<and> (\<forall>x \<in> set ?es. ?le (i, m) x)"
    by (rule min_by_spec [OF _ _ im]) (auto intro: linorder_linear order_trans)
  moreover have idx: "e \<in> set (enumerate 0 ?ms) \<longleftrightarrow> fst e < length ?ms \<and> ?ms ! fst e = snd e" for e
    by (auto simp: in_set_enumerate_eq)
  ultimately have i: "i < length ?ms" "?ms ! i = m" "gm_pubkey m = f"
    and le: "\<And>j y. (j, y) \<in> set (enumerate 0 ?ms) \<Longrightarrow> gm_pubkey y = f \<Longrightarrow> eviction_key m \<le> eviction_key y"
    by auto
  have least: "eviction_key m \<le> eviction_key y" if "y \<in> set ?ms" "gm_pubkey y = f" for y
  proof -
    obtain j where "j < length ?ms" "?ms ! j = y" using \<open>y \<in> set ?ms\<close> by (auto simp: in_set_conv_nth)
    then show ?thesis using le [of j y] idx [of "(j, y)"] \<open>gm_pubkey y = f\<close> by simp
  qed
  have m: "m \<in> set ?ms" using i by (metis nth_mem)
  have rank_m: "Suc (rank (set ?ms) m) = n" using held_oldest [OF d m] least i(3) n(1) by simp
  show thesis
  proof (rule that)
    show "eviction_index l = Some i" using f im by (simp add: eviction_index_def)
    show "i < length ?ms" by (rule i)
    fix x assume x: "x \<in> set ?ms" "x \<noteq> ?ms ! i"
    show "before (set ?ms) x (?ms ! i)"
    proof (cases "gm_pubkey x = f")
      case True
      then have "newer x m" using newer_total [OF d(2) x(1) m] x(2) i least [OF x(1)]
        unfolding newer_def by (metis leD)
      then show ?thesis using rank_less [of "set ?ms" x m] x(1) i(2) by (simp add: before_def)
    next
      case False
      have "(gm_pubkey x, held (gm_pubkey x) ?ms) \<in> set (ml_per_author l)"
        using per [of "gm_pubkey x"] pos [OF x(1)] by (auto intro: map_of_SomeD)
      then have "author_le (gm_pubkey x, held (gm_pubkey x) ?ms) (f, n)" using fmax by blast
      moreover have "utf8 f \<noteq> utf8 (gm_pubkey x)" using False by (simp add: utf8_inject)
      ultimately have "held (gm_pubkey x) ?ms < n \<or> held (gm_pubkey x) ?ms = n \<and> utf8 f < utf8 (gm_pubkey x)"
        by (simp add: author_le_def order_less_le)
      then show ?thesis using held_le_rank [OF d x(1)] rank_m i by (auto simp: before_def)
    qed
  qed
qed


lemma take_out_nth:
  assumes "i < length xs" "distinct xs"
  shows "distinct (take i xs @ drop (i + 1) xs)" "xs ! i \<notin> set (take i xs @ drop (i + 1) xs)"
    "set (take i xs @ drop (i + 1) xs) = set xs - {xs ! i}"
proof -
  have "xs = take i xs @ xs ! i # drop (i + 1) xs"
    unfolding Suc_eq_plus1 [symmetric] by (rule id_take_nth_drop [OF assms(1)])
  then obtain v where v: "v = xs ! i" "xs = take i xs @ v # drop (i + 1) xs" by blast
  then have "distinct (take i xs @ v # drop (i + 1) xs)" "set (take i xs @ v # drop (i + 1) xs) = set xs"
    using assms(2) by metis+
  then show "distinct (take i xs @ drop (i + 1) xs)" "xs ! i \<notin> set (take i xs @ drop (i + 1) xs)"
    "set (take i xs @ drop (i + 1) xs) = set xs - {xs ! i}"
    unfolding v(1) [symmetric] by auto
qed

lemma eviction_index_some:
  assumes inv: "ml_inv l" and ne: "ml_messages l \<noteq> []"
  obtains i where "eviction_index l = Some i" "i < length (ml_messages l)"
proof -
  let ?ms = "ml_messages l"
  have per: "map_of (ml_per_author l) a = (if held a ?ms = 0 then None else Some (held a ?ms))" for a
    using inv by (simp add: ml_inv_def)
  have "0 < held (gm_pubkey (hd ?ms)) ?ms" using ne by (cases ?ms) auto
  then have "ml_per_author l \<noteq> []" using per [of "gm_pubkey (hd ?ms)"] by auto
  then obtain f n where f: "max_by author_le (ml_per_author l) = Some (f, n)"
    by (metis max_by_None not_None_eq surj_pair)
  have "(f, n) \<in> set (ml_per_author l) \<and> (\<forall>x \<in> set (ml_per_author l). author_le x (f, n))"
    by (rule max_by_spec [OF author_le_total _ f]) (rule author_le_trans)
  moreover have "distinct (map fst (ml_per_author l))" using inv by (simp add: ml_inv_def)
  ultimately have "map_of (ml_per_author l) f = Some n" by simp
  then have "0 < held f ?ms" using per [of f] by (auto split: if_splits)
  then have "\<exists>x \<in> set ?ms. gm_pubkey x = f" by (auto simp: held_def filter_empty_conv)
  then obtain k where "(k, ?ms ! k) \<in> set (enumerate 0 ?ms)" "gm_pubkey (?ms ! k) = f"
    by (auto simp: in_set_enumerate_eq in_set_conv_nth [of _ ?ms])
  let ?es = "filter (\<lambda>(_, m). gm_pubkey m = f) (enumerate 0 ?ms)"
  let ?le = "\<lambda>a b. eviction_key (snd a) \<le> eviction_key (snd b)"
  have "?es \<noteq> []" using \<open>(k, ?ms ! k) \<in> _\<close> \<open>gm_pubkey (?ms ! k) = f\<close> by (force simp: filter_empty_conv)
  then obtain i m where im: "min_by ?le ?es = Some (i, m)" by (metis min_by_None not_None_eq surj_pair)
  have "(i, m) \<in> set ?es \<and> (\<forall>x \<in> set ?es. ?le (i, m) x)"
    by (rule min_by_spec [OF _ _ im]) (auto intro: linorder_linear order_trans)
  then have "i < length ?ms" by (auto simp: in_set_enumerate_eq)
  then show thesis using that f im by (simp add: eviction_index_def)
qed

text \<open>A push in general: the log's invariant, and which message it drops.\<close>

lemma ml_push_any:
  assumes inv: "ml_inv l"
  shows "\<exists>gone l'. ml_push m l = Some (gone, l') \<and> ml_inv l' \<and> ml_capacity l' = ml_capacity l \<and>
    (if length (ml_messages l) < ml_capacity l then gone = None \<and> ml_messages l' = ml_messages l @ [m]
     else \<exists>i. eviction_index (ml_add m l) = Some i \<and> i < length (ml_messages l @ [m]) \<and> gone = Some ((ml_messages l @ [m]) ! i) \<and>
       ml_messages l' = take i (ml_messages l @ [m]) @ drop (i + 1) (ml_messages l @ [m]))"
proof -
  let ?ms = "ml_messages l @ [m]"
  define l1 where "l1 = ml_add m l"
  have per: "distinct (map fst (ml_per_author l))"
    "\<And>a. map_of (ml_per_author l) a = (if held a (ml_messages l) = 0 then None else Some (held a (ml_messages l)))"
    using inv by (simp_all add: ml_inv_def)
  have l1: "ml_inv l1" "ml_messages l1 = ?ms" "ml_capacity l1 = ml_capacity l"
    using per(1) by (auto simp: l1_def ml_add_def ml_inv_def update_conv' per(2) distinct_update)
  show ?thesis
  proof (cases "length (ml_messages l) < ml_capacity l")
    case True
    then have "ml_push m l = Some (None, l1)" using l1(2,3) by (simp add: ml_push_def Let_def l1_def [symmetric])
    then show ?thesis using True l1 by auto
  next
    case False
    obtain i where i: "eviction_index l1 = Some i" "i < length ?ms"
      using eviction_index_some [of l1] l1 by (metis append_is_Nil_conv not_Cons_self2)
    define v where "v = ?ms ! i"
    define ms' where "ms' = take i ?ms @ drop (i + 1) ?ms"
    define l' where "l' = snd (ml_take_out i l1)"
    have push: "ml_push m l = Some (Some v, l')"
      using False i(1) l1 by (simp add: ml_push_def Let_def l1_def [symmetric] l'_def v_def ml_take_out_def)
    have ms: "?ms = take i ?ms @ v # drop (i + 1) ?ms" unfolding v_def Suc_eq_plus1 [symmetric] by (rule id_take_nth_drop [OF i(2)])
    have held: "held a ?ms = held a ms' + (if gm_pubkey v = a then 1 else 0)" for a
      by (subst ms) (simp add: ms'_def)
    have per1: "distinct (map fst (ml_per_author l1))"
      "\<And>a. map_of (ml_per_author l1) a = (if held a ?ms = 0 then None else Some (held a ?ms))"
      using l1 by (simp_all add: ml_inv_def)
    have out: "ml_messages l' = ms'" "ml_capacity l' = ml_capacity l"
      "ml_per_author l' = (case map_of (ml_per_author l1) (gm_pubkey v) of
         None \<Rightarrow> ml_per_author l1
       | Some n \<Rightarrow> if n - 1 = 0 then AList.delete (gm_pubkey v) (ml_per_author l1)
                   else AList.update (gm_pubkey v) (n - 1) (ml_per_author l1))"
      using l1(2,3) by (simp_all add: l'_def ml_take_out_def Let_def v_def [symmetric] ms'_def del: take_append drop_append)
    have hv: "held (gm_pubkey v) ?ms = Suc (held (gm_pubkey v) ms')" using held [of "gm_pubkey v"] by simp
    have mv: "map_of (ml_per_author l1) (gm_pubkey v) = Some (Suc (held (gm_pubkey v) ms'))"
      unfolding per1(2) hv by simp
    have "map_of (ml_per_author l') a = (if held a ms' = 0 then None else Some (held a ms'))" for a
    proof (cases "a = gm_pubkey v")
      case True
      then show ?thesis unfolding out(3) mv by (simp add: delete_conv' update_conv')
    next
      case False
      then have "map_of (ml_per_author l') a = map_of (ml_per_author l1) a"
        unfolding out(3) mv by (simp add: delete_conv' update_conv')
      then show ?thesis using held [of a] False unfolding per1(2) by simp
    qed
    moreover have "distinct (map fst (ml_per_author l'))"
      unfolding out(3) mv using per1(1) by (simp add: distinct_delete distinct_update)
    ultimately have "ml_inv l'" using out(1) by (simp add: ml_inv_def)
    then show ?thesis using push False i out(1,2) by (auto simp: l1_def v_def ms'_def)
  qed
qed

lemma ml_push_spec:
  assumes inv: "ml_inv l" and d: "distinct (ml_messages l @ [m])" "inj_on eviction_key (set (ml_messages l @ [m]))"
  shows "\<exists>gone l'. ml_push m l = Some (gone, l') \<and> ml_inv l' \<and> ml_capacity l' = ml_capacity l \<and>
    distinct (ml_messages l') \<and>
    (if length (ml_messages l) < ml_capacity l then gone = None \<and> ml_messages l' = ml_messages l @ [m]
     else \<exists>v. gone = Some v \<and> v \<in> set (ml_messages l @ [m]) \<and> set (ml_messages l') = set (ml_messages l @ [m]) - {v} \<and>
       length (ml_messages l') = length (ml_messages l) \<and>
       (\<forall>x \<in> set (ml_messages l @ [m]). x \<noteq> v \<longrightarrow> before (set (ml_messages l @ [m])) x v))"
proof -
  let ?ms = "ml_messages l @ [m]"
  obtain gone l' where p: "ml_push m l = Some (gone, l')" "ml_inv l'" "ml_capacity l' = ml_capacity l"
    "if length (ml_messages l) < ml_capacity l then gone = None \<and> ml_messages l' = ?ms
     else \<exists>i. eviction_index (ml_add m l) = Some i \<and> i < length ?ms \<and> gone = Some (?ms ! i) \<and>
       ml_messages l' = take i ?ms @ drop (i + 1) ?ms"
    using ml_push_any [OF inv, of m] by blast
  show ?thesis
  proof (cases "length (ml_messages l) < ml_capacity l")
    case True
    then show ?thesis using p d(1) by auto
  next
    case False
    then obtain i where i: "eviction_index (ml_add m l) = Some i" "i < length ?ms" "gone = Some (?ms ! i)"
      "ml_messages l' = take i ?ms @ drop (i + 1) ?ms" using p(4) by auto
    have l1: "ml_inv (ml_add m l)" "ml_messages (ml_add m l) = ?ms"
      using inv by (auto simp: ml_add_def ml_inv_def update_conv' distinct_update)
    obtain j where "eviction_index (ml_add m l) = Some j"
      "\<And>x. x \<in> set ?ms \<Longrightarrow> x \<noteq> ?ms ! j \<Longrightarrow> before (set ?ms) x (?ms ! j)"
      using eviction_index_spec [OF l1(1)] unfolding l1(2) using d by (metis append_is_Nil_conv not_Cons_self2)
    then have b: "\<And>x. x \<in> set ?ms \<Longrightarrow> x \<noteq> ?ms ! i \<Longrightarrow> before (set ?ms) x (?ms ! i)" using i(1) by simp
    have dv: "distinct (ml_messages l')" "set (ml_messages l') = set ?ms - {?ms ! i}"
      using take_out_nth [OF i(2) d(1)] unfolding i(4) by blast+
    have "?ms ! i \<in> set ?ms" by (rule nth_mem [OF i(2)])
    moreover have "length (ml_messages l') = length (ml_messages l)" using i(2) by (simp add: i(4))
    ultimately show ?thesis using p(1-3) i(3) dv b False by auto
  qed
qed

lemma ml_run_snoc: "ml_run c (ms @ [m]) = ml_pushed m (ml_run c ms)"
  by (simp add: ml_run_def)

lemma ml_run_spec:
  assumes "distinct ms" "inj_on eviction_key (set ms)"
  shows "\<exists>l. ml_run c ms = Some l \<and> ml_inv l \<and> ml_capacity l = c \<and> distinct (ml_messages l) \<and>
    set (ml_messages l) = retained c (set ms) \<and> length (ml_messages l) = min c (length ms)"
  using assms
proof (induction ms rule: rev_induct)
  case Nil
  then show ?case by (simp add: ml_run_def ml_new_inv) (simp add: ml_new_def retained_def)
next
  case (snoc m ms)
  let ?S = "set ms"
  obtain l where l: "ml_run c ms = Some l" "ml_inv l" "ml_capacity l = c" "distinct (ml_messages l)"
    "set (ml_messages l) = retained c ?S" "length (ml_messages l) = min c (length ms)"
    using snoc by (auto simp: inj_on_insert)
  have sub: "set (ml_messages l @ [m]) \<subseteq> set (ms @ [m])" using l(5) by (auto simp: retained_def)
  have m: "m \<notin> ?S" "card ?S = length ms" using snoc(2) by (simp_all add: distinct_card)
  have d: "distinct (ml_messages l @ [m])" "inj_on eviction_key (set (ml_messages l @ [m]))"
    using l(4,5) m(1) inj_on_subset [OF snoc(3) sub] by (auto simp: retained_def)
  obtain gone l' where p: "ml_push m l = Some (gone, l')" "ml_inv l'" "ml_capacity l' = ml_capacity l"
    "distinct (ml_messages l')"
    and c: "if length (ml_messages l) < ml_capacity l then gone = None \<and> ml_messages l' = ml_messages l @ [m]
     else \<exists>v. gone = Some v \<and> v \<in> set (ml_messages l @ [m]) \<and> set (ml_messages l') = set (ml_messages l @ [m]) - {v} \<and>
       length (ml_messages l') = length (ml_messages l) \<and>
       (\<forall>x \<in> set (ml_messages l @ [m]). x \<noteq> v \<longrightarrow> before (set (ml_messages l @ [m])) x v)"
    using ml_push_spec [OF l(2) d] by blast
  have run: "ml_run c (ms @ [m]) = Some l'" by (simp add: ml_run_snoc l(1) ml_pushed_def p(1))
  show ?case
  proof (cases "length ms < c")
    case True
    then have "ml_messages l' = ml_messages l @ [m]" using c l(3,6) by simp
    moreover have "retained c ?S = ?S" using True m(2) by (intro retained_all) auto
    moreover have "retained c (set (ms @ [m])) = set (ms @ [m])" using True snoc(2)
      by (intro retained_all) (simp_all add: distinct_card [OF snoc(2)] del: set_append)
    ultimately show ?thesis using run p l(3,5,6) True by auto
  next
    case False
    then obtain v where v: "v \<in> set (ml_messages l @ [m])" "set (ml_messages l') = set (ml_messages l @ [m]) - {v}"
      "length (ml_messages l') = length (ml_messages l)"
      "\<forall>x \<in> set (ml_messages l @ [m]). x \<noteq> v \<longrightarrow> before (set (ml_messages l @ [m])) x v"
      using c l(3,6) by auto
    have "log_step ?S m v c (retained c ?S) (insert m (retained c ?S)) (insert m ?S)"
      using v m False snoc(3) l(5) unfolding log_step_def by auto
    from retained_step [OF this] have "set (ml_messages l') = retained c (set (ms @ [m]))"
      using v(2) l(5) by simp
    then show ?thesis using run p l(3,6) v(3) False by auto
  qed
qed

text \<open>C5: which messages a log retains does not depend on the order in which they arrived: it is a
  function of the messages and of the capacity. No push panics, and no more messages go than have to.\<close>

theorem log_order_irrelevant:
  assumes "distinct (map eviction_key ms)" "mset ms' = mset ms"
  shows "\<exists>l l'. ml_run c ms = Some l \<and> ml_run c ms' = Some l' \<and> mset (ml_messages l) = mset (ml_messages l') \<and>
    set (ml_messages l) = retained c (set ms) \<and> length (ml_messages l) = min c (length ms)"
proof -
  have d: "distinct ms" "inj_on eviction_key (set ms)" using assms(1) by (simp_all add: distinct_map)
  have same: "set ms' = set ms" "length ms' = length ms" "distinct ms'"
    using assms(2) d(1) mset_eq_setD mset_eq_length mset_eq_imp_distinct_iff by blast+
  obtain l where l: "ml_run c ms = Some l" "distinct (ml_messages l)" "set (ml_messages l) = retained c (set ms)"
    "length (ml_messages l) = min c (length ms)"
    using ml_run_spec [OF d] by blast
  obtain l' where l': "ml_run c ms' = Some l'" "distinct (ml_messages l')" "set (ml_messages l') = retained c (set ms)"
    using ml_run_spec [of ms' c] d same by auto
  have "mset (ml_messages l) = mset (ml_messages l')"
    using l(2,3) l'(2,3) by (metis set_eq_iff_mset_eq_distinct)
  then show ?thesis using l l' by blast
qed

lemma rank_few:
  assumes S: "finite S" "inj_on eviction_key S"
  shows "card {y \<in> S. gm_pubkey y = a \<and> rank S y \<le> r} \<le> Suc r"
proof -
  let ?A = "{y \<in> S. gm_pubkey y = a \<and> rank S y \<le> r}"
  have "inj_on (rank S) ?A"
  proof (rule inj_onI)
    fix x y assume xy: "x \<in> ?A" "y \<in> ?A" "rank S x = rank S y"
    show "x = y"
    proof (rule ccontr)
      assume "x \<noteq> y"
      then have "newer x y \<or> newer y x" using newer_total [OF S(2)] xy(1,2) by auto
      moreover have "x \<in> S" "y \<in> S" using xy(1,2) by simp_all
      ultimately have "rank S x < rank S y \<or> rank S y < rank S x" using rank_less [OF S(1)] by blast
      then show False using xy(3) by simp
    qed
  qed
  moreover have "rank S ` ?A \<subseteq> {..r}" by auto
  ultimately have "card ?A \<le> card {..r}" by (rule card_inj_on_le) simp
  then show ?thesis by simp
qed

lemma retained_share:
  assumes S: "finite S" "inj_on eviction_key S" and x: "x \<in> S"
    and share: "card (gm_pubkey ` S) * Suc (rank S x) \<le> c"
  shows "x \<in> retained c S"
proof -
  let ?F = "\<lambda>a. {y \<in> S. gm_pubkey y = a \<and> rank S y \<le> rank S x}"
  let ?B = "{y \<in> S. before S y x}"
  have "insert x ?B \<subseteq> (\<Union>a \<in> gm_pubkey ` S. ?F a)" using x by (auto simp: before_def)
  then have "card (insert x ?B) \<le> card (\<Union>a \<in> gm_pubkey ` S. ?F a)" using S(1) by (intro card_mono) auto
  also have "\<dots> \<le> (\<Sum>a \<in> gm_pubkey ` S. card (?F a))" using S(1) by (intro card_UN_le) simp
  also have "\<dots> \<le> (\<Sum>a \<in> gm_pubkey ` S. Suc (rank S x))" by (intro sum_mono rank_few [OF S])
  also have "\<dots> \<le> c" using share by simp
  finally have "card ?B < c" using S(1) by simp
  then show ?thesis using x by (simp add: retained_def)
qed

lemma rank_held:
  assumes "distinct ms" "inj_on eviction_key (set ms)" "x \<in> set ms"
  shows "Suc (rank (set ms) x) \<le> held (gm_pubkey x) ms"
  using held_le_rank [OF assms] by simp

text \<open>an author is sure of its share: while its messages, times the number of authors, fit into the
  log, none of them goes, whatever the others send and however their frames are stamped.\<close>

theorem log_fair_share:
  assumes "distinct (map eviction_key ms)" "ml_run c ms = Some l"
    and "card (gm_pubkey ` set ms) * held (gm_pubkey m) ms \<le> c" and "m \<in> set ms"
  shows "m \<in> set (ml_messages l)"
proof -
  have d: "distinct ms" "inj_on eviction_key (set ms)" using assms(1) by (simp_all add: distinct_map)
  have "card (gm_pubkey ` set ms) * Suc (rank (set ms) m) \<le> c"
    using rank_held [OF d assms(4)] assms(3) by (meson mult_le_mono2 order_trans)
  then have "m \<in> retained c (set ms)" using retained_share [OF _ d(2) assms(4)] by simp
  then show ?thesis using ml_run_spec [OF d, of c] assms(2) by auto
qed


subsection \<open>The duplicate filter\<close>

definition MESSAGE_LOG_SIZE :: nat where "MESSAGE_LOG_SIZE = 1000"
definition SEEN_IDS_CAP :: nat where "SEEN_IDS_CAP = MESSAGE_LOG_SIZE * 2"

definition mark_seen :: "('x gossip_message \<Rightarrow> bytes) \<Rightarrow> 'x gossip_message \<Rightarrow> bytes bounded_fifo_set \<Rightarrow>
    bool \<times> bytes bounded_fifo_set" where
  "mark_seen dk m seen = (case bf_insert (dk m) seen of (new, seen') \<Rightarrow> (\<not> new, seen'))"

definition seen_after :: "('x gossip_message \<Rightarrow> bytes) \<Rightarrow> 'x gossip_message list \<Rightarrow> bytes bounded_fifo_set" where
  "seen_after dk ms = fold (\<lambda>m s. snd (mark_seen dk m s)) ms (bf_new SEEN_IDS_CAP)"

lemma seen_after_order:
  assumes "distinct (map dk ms)"
  shows "bf_inv (seen_after dk ms) \<and> bf_order (seen_after dk ms) = drop (length ms - SEEN_IDS_CAP) (map dk ms)"
proof -
  have "fold (\<lambda>m s. snd (mark_seen dk m s)) ms t = fold (\<lambda>x s. snd (bf_insert x s)) (map dk ms) t" for t
    by (induction ms arbitrary: t) (simp_all add: mark_seen_def split: prod.split)
  then show ?thesis
    using bf_inserts [OF assms, of SEEN_IDS_CAP]
    by (simp add: seen_after_def SEEN_IDS_CAP_def MESSAGE_LOG_SIZE_def)
qed

lemma held_other: "\<forall>x \<in> set ms. gm_pubkey x \<noteq> a \<Longrightarrow> held a ms = 0"
  by (induction ms) auto

text \<open>C38: the duplicate filter does not cover the log. When a quiet author's message is followed by as many
  messages of one other author as the filter holds, the log still has it but the filter has forgotten
  it, so a second delivery passes as new. \<open>SEEN_IDS_CAP\<close> is said to cover the retention window always.\<close>

theorem dedup_forgets_retained:
  assumes keys: "distinct (map eviction_key (m # ms))" and ids: "distinct (map dk (m # ms))"
    and one: "list_all (\<lambda>x. gm_pubkey x = b) ms" "b \<noteq> gm_pubkey m" and n: "SEEN_IDS_CAP \<le> length ms"
    and l: "ml_run MESSAGE_LOG_SIZE (m # ms) = Some l"
  shows "m \<in> set (ml_messages l) \<and> fst (mark_seen dk m (seen_after dk (m # ms))) = False"
proof -
  have "gm_pubkey ` set ms \<subseteq> {b}" using one(1) by (auto simp: list_all_iff)
  then have "card (gm_pubkey ` set (m # ms)) \<le> card {gm_pubkey m, b}" by (intro card_mono) auto
  then have two: "card (gm_pubkey ` set (m # ms)) \<le> 2" using one(2) by simp
  have "held (gm_pubkey m) (m # ms) = 1"
    using one held_other [of ms "gm_pubkey m"] by (auto simp: list_all_iff)
  then have d: "card (gm_pubkey ` set (m # ms)) * held (gm_pubkey m) (m # ms) \<le> MESSAGE_LOG_SIZE"
    using two by (simp only: mult_1_right) (simp add: MESSAGE_LOG_SIZE_def)
  have dist: "distinct (m # ms)" "inj_on eviction_key (set (m # ms))" using keys unfolding distinct_map by blast+
  have "card (gm_pubkey ` set (m # ms)) * Suc (rank (set (m # ms)) m) \<le> MESSAGE_LOG_SIZE"
    using rank_held [OF dist, of m] d by (meson list.set_intros(1) mult_le_mono2 order_trans)
  then have "m \<in> retained MESSAGE_LOG_SIZE (set (m # ms))" by (intro retained_share [OF _ dist(2)]) simp_all
  then have "m \<in> set (ml_messages l)" using ml_run_spec [OF dist, of MESSAGE_LOG_SIZE] l by auto
  moreover have "dk m \<notin> bf_set (seen_after dk (m # ms))"
  proof -
    have "dk m \<notin> set (drop k (map dk ms))" for k using ids by (auto dest: in_set_dropD)
    moreover have "length (m # ms) - SEEN_IDS_CAP = Suc (length ms - SEEN_IDS_CAP)" using n by simp
    ultimately show ?thesis using seen_after_order [OF ids] by (simp add: bf_inv_def)
  qed
  ultimately show ?thesis by (simp add: mark_seen_def bf_insert_new split: prod.split) (metis bf_insert_new fst_conv)
qed

subsection \<open>Demonstrations\<close>

definition demo_msg :: "ustring \<Rightarrow> nat \<Rightarrow> unit gossip_message" where
  "demo_msg a i = demo_frame\<lparr>gm_pubkey := a, gm_timestamp := word_of_nat i\<rparr>"

lemma demo_key: "eviction_key (demo_msg a i) = (sint (word_of_nat i :: 64 word), utf8 a, None, utf8 (ustr ''id''))"
  by (simp add: eviction_key_def demo_msg_def demo_frame_def gm_new_def demo_stamp_def)

lemma demo_word: "i < 4000 \<Longrightarrow> j < 4000 \<Longrightarrow> (word_of_nat i :: 64 word) = word_of_nat j \<longleftrightarrow> i = j"
  by (simp add: word_unat_eq_iff unat_of_nat take_bit_nat_eq_self)

lemma log_order_irrelevant_witness:
  "\<exists>l l'. ml_run 2 [demo_msg [1] 1, demo_msg [1] 2, demo_msg [2] 3] = Some l \<and>
     ml_run 2 [demo_msg [2] 3, demo_msg [1] 2, demo_msg [1] 1] = Some l' \<and>
     mset (ml_messages l) = mset (ml_messages l')"
  using log_order_irrelevant [of "[demo_msg [1] 1, demo_msg [1] 2, demo_msg [2] 3]"
      "[demo_msg [2] 3, demo_msg [1] 2, demo_msg [1] 1]" 2]
  by (auto simp: demo_key)

lemma log_fair_share_witness:
  "\<exists>l. ml_run 2 [demo_msg [1] 1, demo_msg [2] 8, demo_msg [2] 9] = Some l \<and> demo_msg [1] 1 \<in> set (ml_messages l)"
proof -
  let ?ms = "[demo_msg [1] 1, demo_msg [2] 8, demo_msg [2] 9]"
  have d: "distinct (map eviction_key ?ms)" by (simp add: demo_key)
  then have "distinct ?ms" "inj_on eviction_key (set ?ms)" unfolding distinct_map by blast+
  then obtain l where l: "ml_run 2 ?ms = Some l" using ml_run_spec by blast
  have "gm_pubkey ` set ?ms = {[1], [2]}" "held (gm_pubkey (demo_msg [1] 1)) ?ms = 1"
    by (auto simp: demo_msg_def)
  then have "demo_msg [1] 1 \<in> set (ml_messages l)" by (intro log_fair_share [OF d l]) simp_all
  then show ?thesis using l by blast
qed

lemma dedup_forgets_retained_witness:
  "\<exists>l. ml_run MESSAGE_LOG_SIZE (demo_msg [1] 0 # map (demo_msg [2]) [1..<3000]) = Some l \<and>
     demo_msg [1] 0 \<in> set (ml_messages l)"
proof -
  let ?m = "demo_msg [1] 0" and ?ms = "map (demo_msg [2]) [1..<3000]"
  let ?dk = "\<lambda>m :: unit gossip_message. replicate (unat (gm_timestamp m)) (0 :: byte)"
  have small: "sint (word_of_nat i :: 64 word) = int i" if "i < 3000" for i
    using that by (simp add: signed_of_nat signed_take_bit_int_eq_self)
  have keys: "distinct (map eviction_key (?m # ?ms))"
    by (auto simp: demo_key distinct_map inj_on_def small utf8_inject)
  have ids: "distinct (map ?dk (?m # ?ms))"
    by (auto simp: distinct_map inj_on_def demo_msg_def unat_of_nat take_bit_nat_eq_self)
  have "distinct (?m # ?ms)" "inj_on eviction_key (set (?m # ?ms))" using keys unfolding distinct_map by blast+
  then obtain l where l: "ml_run MESSAGE_LOG_SIZE (?m # ?ms) = Some l" using ml_run_spec by blast
  have "list_all (\<lambda>x. gm_pubkey x = [2]) ?ms" "[2] \<noteq> gm_pubkey ?m" "SEEN_IDS_CAP \<le> length ?ms"
    by (simp_all add: list_all_iff demo_msg_def SEEN_IDS_CAP_def MESSAGE_LOG_SIZE_def)
  from dedup_forgets_retained [OF keys ids this l] show ?thesis using l by blast
qed

end
