(* ===== verification/NodeLinks.thy ===== *)
theory NodeLinks
  imports LogRetention
begin

text \<open>
  The links of a node and its view of the mesh: \<open>handle_gossip_event\<close>, \<open>arms_reclaim\<close> and \<open>flush_pending\<close> of
  \<open>gossip/recv.rs\<close>, the watchdog and path bookkeeping of \<open>daemon/state.rs\<close>, \<open>recover_from_starvation\<close> of
  \<open>gossip/heal.rs\<close>, \<open>run_heal\<close> and \<open>resubscribe_tick\<close> (its restored arm) of \<open>daemon/heal.rs\<close>. Endpoint ids are numbers, an \<open>Instant\<close> a number of nanoseconds; what a handler sends is a
  list of actions. A handler's readings of the clock, \<open>conn_path\<close>, the WebRTC handle and the outcome of a
  delivery are arguments.
\<close>

definition RELINK_COOLDOWN :: nat where "RELINK_COOLDOWN = 10 * 1000000000"
definition RECLAIM_WINDOW :: nat where "RECLAIM_WINDOW = 6 * 1000000000"
definition KNOWN_ENDPOINTS_CAP :: nat where "KNOWN_ENDPOINTS_CAP = 64"
definition PENDING_OUTBOUND_CAP :: nat where "PENDING_OUTBOUND_CAP = 1024"

datatype path_summary = PathDirect | PathRelay | PathMixed | PathUnknown
datatype direct_state = DPending | DDirect | DRelayOnly

definition conn_summary :: "bool \<Rightarrow> bool \<Rightarrow> path_summary" where
  "conn_summary has_direct has_relay =
     (if has_direct then (if has_relay then PathMixed else PathDirect)
      else if has_relay then PathRelay else PathUnknown)"

fun direct_from_summary :: "path_summary \<Rightarrow> direct_state option" where
  "direct_from_summary PathDirect = Some DDirect"
| "direct_from_summary PathRelay = Some DRelayOnly"
| "direct_from_summary PathMixed = None"
| "direct_from_summary PathUnknown = None"

record 'm node_links =
  nl_rendezvous_id :: nat
  nl_relay_transport :: bool
  nl_linked :: "nat set"
  nl_direct :: "nat \<Rightarrow> direct_state option"
  nl_known :: "nat bounded_fifo_set"
  nl_relink :: "nat cooldown"
  nl_peerinfo :: "nat cooldown"
  nl_flooded_at :: "nat option"
  nl_last_sent :: nat
  nl_gossip_open :: bool
  nl_rendezvous_linked :: bool
  nl_session_stale :: bool
  nl_offer_fallback :: bool
  nl_probe_free :: bool
  nl_announced :: bool
  nl_meshed :: bool
  nl_degraded :: bool
  nl_last_inbound :: nat
  nl_last_recovery :: "nat option"
  nl_trips :: nat
  nl_reclaim_until :: "nat option"
  nl_rival_recheck :: "nat option"
  nl_pending :: "'m bounded_queue"

definition nl_new :: "nat \<Rightarrow> bool \<Rightarrow> nat \<Rightarrow> 'm node_links" where
  "nl_new rdv relay now =
     \<lparr>nl_rendezvous_id = rdv, nl_relay_transport = relay, nl_linked = {}, nl_direct = (\<lambda>_. None),
      nl_known = bf_new KNOWN_ENDPOINTS_CAP, nl_relink = cd_new RELINK_COOLDOWN, nl_peerinfo = cd_new RELINK_COOLDOWN,
      nl_flooded_at = None, nl_last_sent = now, nl_gossip_open = True, nl_rendezvous_linked = False, nl_session_stale = False,
      nl_offer_fallback = False, nl_probe_free = False, nl_announced = False, nl_meshed = False, nl_degraded = False,
      nl_last_inbound = now, nl_last_recovery = None, nl_trips = 0, nl_reclaim_until = None, nl_rival_recheck = None,
      nl_pending = bq_new PENDING_OUTBOUND_CAP\<rparr>"

datatype 'm link_action =
    Announce | FloodPeerInfo | Delivered 'm | Requeued 'm | Dropped 'm | StateDigests | ChatDigest | OnMeshed
  | DetachSession | OfferRendezvous | RegisterRendezvous | RegraftHard | Regraft | Rebridge "nat set" | EmitInfo | EmitError

subsection \<open>Paths\<close>

definition observe_path :: "nat \<Rightarrow> path_summary \<Rightarrow> 'm node_links \<Rightarrow> 'm node_links" where
  "observe_path peer summary st =
     (if \<not> nl_relay_transport st \<and> summary = PathRelay then st
      else case direct_from_summary summary of
          None \<Rightarrow> st
        | Some d \<Rightarrow> st\<lparr>nl_direct := (nl_direct st)(peer := Some d)\<rparr>)"

definition demote_unproven :: "nat \<Rightarrow> 'm node_links \<Rightarrow> bool \<times> 'm node_links" where
  "demote_unproven peer st =
     (if nl_direct st peer = Some DPending then (True, st\<lparr>nl_direct := (nl_direct st)(peer := Some DRelayOnly)\<rparr>)
      else (False, st))"

definition unlink :: "nat \<Rightarrow> 'm node_links \<Rightarrow> 'm node_links" where
  "unlink peer st = st\<lparr>nl_linked := nl_linked st - {peer}\<rparr>"

subsection \<open>The watchdog\<close>

definition overlay_reachable :: "'m node_links \<Rightarrow> bool" where
  "overlay_reachable st = (nl_meshed st \<or> (nl_rendezvous_linked st \<and> \<not> nl_degraded st))"

definition note_degraded :: "'m node_links \<Rightarrow> 'm node_links" where
  "note_degraded st = st\<lparr>nl_meshed := False, nl_degraded := True\<rparr>"

definition note_inbound :: "nat \<Rightarrow> 'm node_links \<Rightarrow> bool \<times> 'm node_links" where
  "note_inbound now st =
     (let st1 = st\<lparr>nl_last_inbound := now, nl_trips := 0, nl_last_recovery := None\<rparr>
      in if nl_degraded st1 then (True, st1\<lparr>nl_degraded := False, nl_meshed := True\<rparr>) else (False, st1))"

definition starvation_due :: "nat \<Rightarrow> nat \<Rightarrow> 'm node_links \<Rightarrow> bool" where
  "starvation_due now threshold st =
     (if \<not> nl_announced st \<or> bf_len (nl_known st) = 0 then False
      else if now - nl_last_inbound st \<le> threshold then False
      else let backoff = threshold * 2 ^ min (nl_trips st) 3
           in case nl_last_recovery st of None \<Rightarrow> True | Some at \<Rightarrow> now - at > backoff)"

definition u32_cap :: nat where "u32_cap = 2 ^ 32 - 1"

definition note_recovery :: "nat \<Rightarrow> 'm node_links \<Rightarrow> 'm node_links" where
  "note_recovery now st = st\<lparr>nl_trips := min (nl_trips st + 1) u32_cap, nl_last_recovery := Some now\<rparr>"

subsection \<open>The outbound buffer\<close>

fun flush_each :: "('m \<Rightarrow> bool) \<Rightarrow> 'm list \<Rightarrow> 'm bounded_queue \<Rightarrow> 'm link_action list \<times> 'm bounded_queue" where
  "flush_each deliver [] q = ([], q)"
| "flush_each deliver (m # ms) q =
     (if deliver m then (case flush_each deliver ms q of (out, q') \<Rightarrow> (Delivered m # out, q'))
      else case bq_push m q of (ok, q1) \<Rightarrow>
        (case flush_each deliver ms q1 of (out, q') \<Rightarrow> ((if ok then Requeued m else Dropped m) # out, q')))"

definition flush_pending :: "('m \<Rightarrow> bool) \<Rightarrow> 'm node_links \<Rightarrow> 'm link_action list \<times> 'm node_links" where
  "flush_pending deliver st =
     (case bq_take (nl_pending st) of (ms, q) \<Rightarrow>
       (case flush_each deliver ms q of (out, q') \<Rightarrow> (out, st\<lparr>nl_pending := q'\<rparr>)))"

subsection \<open>Gossip events\<close>

definition broadcast_peer_info :: "nat \<Rightarrow> 'm node_links \<Rightarrow> 'm link_action list \<times> 'm node_links" where
  "broadcast_peer_info now st = ([FloodPeerInfo], st\<lparr>nl_flooded_at := Some now\<rparr>)"

definition announce_arrival :: "nat \<Rightarrow> 'm node_links \<Rightarrow> 'm link_action list \<times> 'm node_links" where
  "announce_arrival now st = (case broadcast_peer_info now st of (out, st1) \<Rightarrow> (Announce # out, st1))"

definition arms_reclaim :: "bool \<Rightarrow> nat \<Rightarrow> bool \<Rightarrow> bool" where
  "arms_reclaim is_rendezvous links_left rendezvous_linked = (is_rendezvous \<or> links_left = 0 \<or> \<not> rendezvous_linked)"

definition greet_link :: "nat \<Rightarrow> nat \<Rightarrow> 'm node_links \<Rightarrow> 'm link_action list \<times> 'm node_links" where
  "greet_link node now st =
     (if nl_announced st then
        (if cd_on_cooldown node now (nl_peerinfo st) then ([], st)
         else case broadcast_peer_info now st of (out, st1) \<Rightarrow>
           (out, st1\<lparr>nl_peerinfo := cd_note node now (nl_peerinfo st1), nl_last_sent := now\<rparr>))
      else case announce_arrival now st of (out, st1) \<Rightarrow>
        (out, st1\<lparr>nl_announced := True, nl_peerinfo := cd_note node now (nl_peerinfo st1), nl_last_sent := now\<rparr>))"

definition neighbor_up :: "nat \<Rightarrow> path_summary \<Rightarrow> ('m \<Rightarrow> bool) \<Rightarrow> nat \<Rightarrow> 'm node_links \<Rightarrow> 'm link_action list \<times> 'm node_links" where
  "neighbor_up node conn deliver now st =
     (case greet_link node now st of (out, st1) \<Rightarrow>
        if node = nl_rendezvous_id st1
        then (out, st1\<lparr>nl_rendezvous_linked := True, nl_session_stale := False, nl_offer_fallback := False, nl_probe_free := False\<rparr>)
        else
          let st2 = st1\<lparr>nl_linked := insert node (nl_linked st1)\<rparr>;
              st3 = (if nl_relay_transport st2 then observe_path node conn st2
                     else st2\<lparr>nl_direct := (nl_direct st2)(node := Some DDirect)\<rparr>)
          in if \<not> nl_meshed st3
             then (case flush_pending deliver (st3\<lparr>nl_meshed := True, nl_degraded := False\<rparr>) of (sent, st4) \<Rightarrow>
                     (out @ sent @ [StateDigests, ChatDigest, OnMeshed], st4))
             else (out, st3))"

definition neighbor_down :: "nat \<Rightarrow> bool \<Rightarrow> nat \<Rightarrow> 'm node_links \<Rightarrow> 'm link_action list \<times> 'm node_links" where
  "neighbor_down node webrtc now st =
     (let is_rdv = (node = nl_rendezvous_id st);
          (out, st1) = (if is_rdv
             then ((if webrtc then [DetachSession] else []) @ [OfferRendezvous],
                   st\<lparr>nl_rendezvous_linked := False, nl_probe_free := False\<rparr>)
             else ([], unlink node st))
      in (out, if arms_reclaim is_rdv (card (nl_linked st1)) (nl_rendezvous_linked st1)
               then st1\<lparr>nl_reclaim_until := Some (now + RECLAIM_WINDOW)\<rparr> else st1))"

definition recover_from_starvation :: "nat \<Rightarrow> 'm node_links \<Rightarrow> 'm link_action list \<times> 'm node_links" where
  "recover_from_starvation now st =
     (let st1 = note_degraded st;
          st2 = st1\<lparr>nl_relink := cd_clear (nl_relink st1), nl_peerinfo := cd_clear (nl_peerinfo st1)\<rparr>
      in case announce_arrival now st2 of (out, st3) \<Rightarrow>
           (EmitInfo # Rebridge (bf_set (nl_known st)) # out, note_recovery now (st3\<lparr>nl_last_sent := now\<rparr>)))"

definition is_resume :: "nat \<Rightarrow> nat \<Rightarrow> bool" where "is_resume gap stall = (gap > stall)"

definition is_wall_resume :: "nat \<Rightarrow> nat \<Rightarrow> nat \<Rightarrow> bool" where
  "is_wall_resume wall_gap mono_gap stall = (wall_gap - mono_gap > stall)"

record heal_params =
  hp_mono :: nat
  hp_wall :: nat
  hp_stall :: nat
  hp_starvation :: nat
  hp_recheck :: nat
  hp_graftable :: bool

definition rebridge_known :: "'m node_links \<Rightarrow> 'm link_action list" where
  "rebridge_known st = [Rebridge (bf_set (nl_known st))]"

definition run_heal :: "heal_params \<Rightarrow> nat \<Rightarrow> 'm node_links \<Rightarrow> 'm link_action list \<times> 'm node_links" where
  "run_heal hp now st =
     (let hard = (is_resume (hp_mono hp) (hp_stall hp) \<or> is_wall_resume (hp_wall hp) (hp_mono hp) (hp_stall hp));
          (out1, st1) =
            (if hard
             then ([RegisterRendezvous] @ (if hp_graftable hp then [RegraftHard] else []),
                   (note_degraded st)\<lparr>nl_rendezvous_linked := False, nl_probe_free := False,
                     nl_rival_recheck := (case nl_rival_recheck st of None \<Rightarrow> None | Some _ \<Rightarrow> Some (now + hp_recheck hp))\<rparr>)
             else if nl_rendezvous_linked st then ([], st)
             else if hp_graftable hp then ([Regraft], st) else ([], st));
          out2 = (if (hard \<or> nl_linked st1 = {}) \<and> bf_len (nl_known st1) \<noteq> 0 then rebridge_known st1 else [])
      in if starvation_due now (hp_starvation hp) st1
         then (case recover_from_starvation now st1 of (out3, st2) \<Rightarrow> (OfferRendezvous # out1 @ out2 @ out3, st2))
         else (OfferRendezvous # out1 @ out2, st1))"

definition on_inbound :: "('m \<Rightarrow> bool) \<Rightarrow> nat \<Rightarrow> 'm node_links \<Rightarrow> 'm link_action list \<times> 'm node_links" where
  "on_inbound deliver now st =
     (case note_inbound now st of (flipped, st1) \<Rightarrow> if flipped then flush_pending deliver st1 else ([], st1))"

fun drain_dead_receiver :: "(('m \<Rightarrow> bool) \<times> nat) list \<Rightarrow> 'm node_links \<Rightarrow> 'm link_action list \<times> 'm node_links" where
  "drain_dead_receiver [] st = ([], st)"
| "drain_dead_receiver ((deliver, now) # rest) st =
     (case on_inbound deliver now st of (out, st1) \<Rightarrow>
        (case drain_dead_receiver rest st1 of (out', st2) \<Rightarrow> (out @ out', st2)))"

definition resubscribed :: "(('m \<Rightarrow> bool) \<times> nat) list \<Rightarrow> nat \<Rightarrow> 'm node_links \<Rightarrow> 'm link_action list \<times> 'm node_links" where
  "resubscribed buffered now st =
     (case drain_dead_receiver buffered (st\<lparr>nl_gossip_open := True, nl_rendezvous_linked := False\<rparr>) of (out, st1) \<Rightarrow>
        (case recover_from_starvation now st1 of (out', st2) \<Rightarrow> (out @ out', st2)))"

text \<open>The events: of the gossip stream, a verified inbound frame, a peer learnt from its \<open>PeerInfo\<close>, the heal
  tick, the stream opened again with the verified frames of the old buffer, and a message held back for want
  of a mesh.\<close>

datatype 'm link_event =
    NeighborUp nat path_summary "'m \<Rightarrow> bool" nat
  | NeighborDown nat bool nat
  | Lagged
  | StreamError
  | StreamEnded
  | Inbound "'m \<Rightarrow> bool" nat
  | PeerKnown nat
  | HealTick heal_params nat
  | Resubscribed "(('m \<Rightarrow> bool) \<times> nat) list" nat
  | Hold 'm

fun link_step :: "'m link_event \<Rightarrow> 'm node_links \<Rightarrow> 'm link_action list \<times> 'm node_links" where
  "link_step (NeighborUp node conn deliver now) st = neighbor_up node conn deliver now st"
| "link_step (NeighborDown node webrtc now) st = neighbor_down node webrtc now st"
| "link_step Lagged st = ([EmitInfo], st)"
| "link_step StreamError st = ([EmitError], st)"
| "link_step StreamEnded st = ([EmitError], st\<lparr>nl_gossip_open := False\<rparr>)"
| "link_step (Inbound deliver now) st = on_inbound deliver now st"
| "link_step (PeerKnown peer) st =
     (if peer = nl_rendezvous_id st then ([], st) else ([], st\<lparr>nl_known := snd (bf_insert peer (nl_known st))\<rparr>))"
| "link_step (HealTick hp now) st = run_heal hp now st"
| "link_step (Resubscribed buffered now) st = resubscribed buffered now st"
| "link_step (Hold m) st = (case bq_push m (nl_pending st) of (ok, q) \<Rightarrow> ([], st\<lparr>nl_pending := q\<rparr>))"

fun link_run :: "'m link_event list \<Rightarrow> 'm node_links \<Rightarrow> 'm link_action list \<times> 'm node_links" where
  "link_run [] st = ([], st)"
| "link_run (e # es) st =
     (case link_step e st of (out, st1) \<Rightarrow> case link_run es st1 of (out', st2) \<Rightarrow> (out @ out', st2))"

subsection \<open>The link view\<close>

text \<open>The links that are up by the stream's own account: the last word on each neighbor.\<close>

fun up_links :: "'m link_event list \<Rightarrow> nat set \<Rightarrow> nat set" where
  "up_links [] ls = ls"
| "up_links (NeighborUp node _ _ _ # es) ls = up_links es (insert node ls)"
| "up_links (NeighborDown node _ _ # es) ls = up_links es (ls - {node})"
| "up_links (_ # es) ls = up_links es ls"

definition link_inv :: "nat \<Rightarrow> nat set \<Rightarrow> 'm node_links \<Rightarrow> bool" where
  "link_inv rdv ls st \<longleftrightarrow> nl_rendezvous_id st = rdv \<and> nl_linked st = ls - {rdv} \<and> finite ls \<and>
     (nl_rendezvous_linked st \<longrightarrow> rdv \<in> ls) \<and> \<not> (nl_degraded st \<and> nl_meshed st) \<and>
     (nl_linked st \<noteq> {} \<longrightarrow> nl_announced st)"

lemma link_inv_fields [simp]:
  "link_inv rdv ls (st\<lparr>nl_pending := q\<rparr>) = link_inv rdv ls st"
  "link_inv rdv ls (st\<lparr>nl_flooded_at := f\<rparr>) = link_inv rdv ls st"
  "link_inv rdv ls (st\<lparr>nl_last_sent := t\<rparr>) = link_inv rdv ls st"
  "link_inv rdv ls (st\<lparr>nl_peerinfo := c\<rparr>) = link_inv rdv ls st"
  "link_inv rdv ls (st\<lparr>nl_relink := c\<rparr>) = link_inv rdv ls st"
  "link_inv rdv ls (st\<lparr>nl_known := k\<rparr>) = link_inv rdv ls st"
  "link_inv rdv ls (st\<lparr>nl_direct := d\<rparr>) = link_inv rdv ls st"
  "link_inv rdv ls (st\<lparr>nl_gossip_open := g\<rparr>) = link_inv rdv ls st"
  "link_inv rdv ls (st\<lparr>nl_reclaim_until := u\<rparr>) = link_inv rdv ls st"
  by (simp_all add: link_inv_def)

lemma flush_inv [simp]: "link_inv rdv ls (snd (flush_pending deliver st)) = link_inv rdv ls st"
  by (simp add: flush_pending_def case_prod_beta)

lemma greet_inv:
  assumes "link_inv rdv ls st"
  shows "link_inv rdv ls (snd (greet_link node now st)) \<and> nl_announced (snd (greet_link node now st)) \<and>
    nl_rendezvous_id (snd (greet_link node now st)) = nl_rendezvous_id st"
  using assms by (simp add: greet_link_def announce_arrival_def broadcast_peer_info_def) (simp add: link_inv_def)

lemma inbound_inv: "link_inv rdv ls st \<Longrightarrow> link_inv rdv ls (snd (on_inbound deliver now st))"
  by (simp add: on_inbound_def note_inbound_def Let_def) (simp add: link_inv_def)

lemma drain_inv: "link_inv rdv ls st \<Longrightarrow> link_inv rdv ls (snd (drain_dead_receiver bs st))"
proof (induction bs arbitrary: st)
  case (Cons b bs)
  then show ?case by (cases b) (simp add: case_prod_beta inbound_inv)
qed simp

lemma recover_inv: "link_inv rdv ls st \<Longrightarrow> link_inv rdv ls (snd (recover_from_starvation now st))"
  by (simp add: recover_from_starvation_def note_degraded_def note_recovery_def announce_arrival_def
      broadcast_peer_info_def Let_def) (simp add: link_inv_def)

lemma hard_inv:
  "link_inv rdv ls st \<Longrightarrow> link_inv rdv ls ((note_degraded st)\<lparr>nl_rendezvous_linked := False, nl_probe_free := False, nl_rival_recheck := r\<rparr>)"
  by (simp add: link_inv_def note_degraded_def)

lemma heal_inv:
  assumes "link_inv rdv ls st" shows "link_inv rdv ls (snd (run_heal hp now st))"
  unfolding run_heal_def Let_def using assms by (simp add: case_prod_beta hard_inv recover_inv)

text \<open>A handler's effect on the links a stream reports.\<close>

lemma up_inv:
  assumes "link_inv rdv ls st" shows "link_inv rdv (insert node ls) (snd (neighbor_up node conn deliver now st))"
proof -
  define st1 where "st1 = snd (greet_link node now st)"
  have i: "link_inv rdv ls st1" "nl_announced st1" "nl_rendezvous_id st1 = rdv"
    using greet_inv [OF assms, of node now] assms by (simp_all add: st1_def link_inv_def)
  show ?thesis
  proof (cases "node = rdv")
    case True
    then have e: "snd (neighbor_up node conn deliver now st) =
        st1\<lparr>nl_rendezvous_linked := True, nl_session_stale := False, nl_offer_fallback := False, nl_probe_free := False\<rparr>"
      unfolding neighbor_up_def case_prod_beta st1_def [symmetric] using i(3) by simp
    show ?thesis unfolding e using i True by (simp add: link_inv_def)
  next
    case False
    define st2 where "st2 = st1\<lparr>nl_linked := insert node (nl_linked st1)\<rparr>"
    define st3 where "st3 = (if nl_relay_transport st2 then observe_path node conn st2
                     else st2\<lparr>nl_direct := (nl_direct st2)(node := Some DDirect)\<rparr>)"
    have i2: "link_inv rdv (insert node ls) st2" using i False by (simp add: st2_def) (simp add: link_inv_def insert_Diff_if)
    then have i3: "link_inv rdv (insert node ls) st3" by (simp add: st3_def observe_path_def split: option.split)
    have e: "snd (neighbor_up node conn deliver now st) =
        (if \<not> nl_meshed st3 then snd (flush_pending deliver (st3\<lparr>nl_meshed := True, nl_degraded := False\<rparr>)) else st3)"
      using False i(3) by (simp add: neighbor_up_def case_prod_beta st1_def [symmetric] Let_def st2_def [symmetric] st3_def [symmetric])
    have "link_inv rdv (insert node ls) (st3\<lparr>nl_meshed := True, nl_degraded := False\<rparr>)"
      using i3 by (simp add: link_inv_def)
    then show ?thesis using i3 unfolding e by simp
  qed
qed

lemma down_inv:
  assumes "link_inv rdv ls st" shows "link_inv rdv (ls - {node}) (snd (neighbor_down node webrtc now st))"
proof -
  have "link_inv rdv (ls - {node}) (unlink node st)" if "node \<noteq> rdv"
    using assms that by (auto simp: unlink_def link_inv_def)
  moreover have "link_inv rdv (ls - {rdv}) (st\<lparr>nl_rendezvous_linked := False, nl_probe_free := False\<rparr>)"
    using assms by (simp add: link_inv_def)
  ultimately show ?thesis using assms by (simp add: neighbor_down_def Let_def case_prod_beta link_inv_def [of rdv ls])
qed

fun up_link :: "'m link_event \<Rightarrow> nat set \<Rightarrow> nat set" where
  "up_link (NeighborUp node _ _ _) ls = insert node ls"
| "up_link (NeighborDown node _ _) ls = ls - {node}"
| "up_link _ ls = ls"

lemma up_links_step: "up_links (e # es) ls = up_links es (up_link e ls)"
  by (cases e) simp_all

lemma link_step_inv:
  assumes "link_inv rdv ls st" shows "link_inv rdv (up_link e ls) (snd (link_step e st))"
proof (cases e)
  case (NeighborUp node conn deliver now)
  then show ?thesis using up_inv [OF assms] by simp
next
  case (NeighborDown node webrtc now)
  then show ?thesis using down_inv [OF assms] by simp
next
  case (Inbound deliver now)
  then show ?thesis using inbound_inv [OF assms] by simp
next
  case (HealTick hp now)
  then show ?thesis using heal_inv [OF assms] by simp
next
  case (Resubscribed bs now)
  have "link_inv rdv ls (st\<lparr>nl_gossip_open := True, nl_rendezvous_linked := False\<rparr>)" using assms by (simp add: link_inv_def)
  then show ?thesis using Resubscribed by (simp add: resubscribed_def case_prod_beta recover_inv drain_inv)
qed (use assms in \<open>simp_all add: case_prod_beta\<close>)

lemma link_run_inv: "link_inv rdv ls st \<Longrightarrow> link_inv rdv (up_links es ls) (snd (link_run es st))"
proof (induction es arbitrary: ls st)
  case (Cons e es)
  then show ?case using link_step_inv [OF Cons(2), of e] unfolding up_links_step by (simp add: case_prod_beta)
qed simp

lemma new_inv: "link_inv rdv {} (nl_new rdv relay now)"
  by (simp add: link_inv_def nl_new_def)

text \<open>C9: the link view is what the gossip stream last said of each real peer, whatever healing, recovery,
  traffic and new subscriptions happen between: the rendezvous is never counted as a peer, is linked only if
  it is up, and a mesh under recovery is never counted as meshed.\<close>

theorem links_follow_the_stream:
  "let st = snd (link_run es (nl_new rdv relay now))
   in nl_linked st = up_links es {} - {rdv} \<and> \<not> (nl_rendezvous_linked st \<and> rdv \<notin> up_links es {}) \<and>
      \<not> (nl_degraded st \<and> nl_meshed st)"
  using link_run_inv [OF new_inv [of rdv relay now], of es] by (simp add: Let_def link_inv_def)

text \<open>Frames in flight while a subscription is replaced: a neighbor whose loss the dead stream reported is
  still counted as linked, because only \<open>NeighborUp\<close> and \<open>NeighborDown\<close> write the view, the drain of the old
  buffer drops them, and the restored arm clears the rendezvous alone.\<close>

lemma recover_linked [simp]: "nl_linked (snd (recover_from_starvation now st)) = nl_linked st"
  by (simp add: recover_from_starvation_def note_degraded_def note_recovery_def announce_arrival_def broadcast_peer_info_def Let_def)

lemma inbound_linked [simp]: "nl_linked (snd (on_inbound deliver now st)) = nl_linked st"
  by (simp add: on_inbound_def note_inbound_def flush_pending_def case_prod_beta Let_def)

lemma drain_linked [simp]: "nl_linked (snd (drain_dead_receiver bs st)) = nl_linked st"
proof (induction bs arbitrary: st)
  case (Cons b bs)
  then show ?case by (cases b) (simp add: case_prod_beta)
qed simp

text \<open>a new subscription keeps every link of the dead one, whatever became of the peers meanwhile; such a
  link goes only when the new stream reports that peer down, which a peer it never reported up does not do.\<close>

theorem resubscribe_keeps_links:
  "nl_linked (snd (link_step (Resubscribed buffered now) st)) = nl_linked st"
  by (simp add: resubscribed_def case_prod_beta)

subsection \<open>The watchdog's promises\<close>

text \<open>a node that only ever reached the rendezvous can be counted as meshed. It is announced, it learns of a
  peer by a relayed \<open>PeerInfo\<close>, then hears nothing for longer than the threshold: the watchdog degrades it, and
  the next inbound frame, relayed too, marks it meshed and flushes what it held back for its first real peer.\<close>

theorem meshed_without_a_peer:
  assumes "peer \<noteq> rdv" "hp_starvation hp < now" "hp_mono hp \<le> hp_stall hp" "hp_wall hp \<le> hp_mono hp"
  shows "let (out, st) = link_run [NeighborUp rdv conn (\<lambda>_. True) 0, PeerKnown peer, Hold m, HealTick hp now, Inbound (\<lambda>_. True) later]
      (nl_new rdv relay 0)
    in nl_meshed st \<and> nl_linked st = {} \<and> Delivered m \<in> set out"
  using assms
  by (simp add: nl_new_def neighbor_up_def greet_link_def announce_arrival_def broadcast_peer_info_def bf_insert_def bf_new_def
      bf_len_def KNOWN_ENDPOINTS_CAP_def bq_push_def bq_new_def PENDING_OUTBOUND_CAP_def run_heal_def is_resume_def is_wall_resume_def
      starvation_due_def recover_from_starvation_def note_degraded_def note_recovery_def on_inbound_def note_inbound_def
      flush_pending_def bq_take_def rebridge_known_def Let_def)

theorem meshed_without_a_peer_witness:
  "let (out, st) = link_run [NeighborUp 7 PathRelay (\<lambda>_. True) 0, PeerKnown 8, Hold (1::nat),
       HealTick \<lparr>hp_mono = 5, hp_wall = 5, hp_stall = 9, hp_starvation = 90, hp_recheck = 1, hp_graftable = True\<rparr> 100,
       Inbound (\<lambda>_. True) 101] (nl_new 7 False 0)
    in nl_meshed st \<and> nl_linked st = {} \<and> Delivered 1 \<in> set out"
  using meshed_without_a_peer [of 8 7 "\<lparr>hp_mono = 5, hp_wall = 5, hp_stall = 9, hp_starvation = 90, hp_recheck = 1, hp_graftable = True\<rparr>"
      100 PathRelay "1::nat" 101 False] by (simp del: link_run.simps)

text \<open>Heal ticks in a silence: the times the watchdog acts.\<close>

fun recoveries :: "nat \<Rightarrow> nat list \<Rightarrow> 'm node_links \<Rightarrow> nat list" where
  "recoveries threshold [] st = []"
| "recoveries threshold (now # ts) st =
     (if starvation_due now threshold st then now # recoveries threshold ts (snd (recover_from_starvation now st))
      else recoveries threshold ts st)"

text \<open>The gaps between them, the n-th after n trips.\<close>

fun backed_off :: "nat \<Rightarrow> nat \<Rightarrow> nat \<Rightarrow> nat list \<Rightarrow> bool" where
  "backed_off threshold trips at [] = True"
| "backed_off threshold trips at (t # ts) =
     (at + threshold * 2 ^ min trips 3 < t \<and> backed_off threshold (min (trips + 1) u32_cap) t ts)"

lemma recover_watch [simp]:
  "nl_trips (snd (recover_from_starvation now st)) = min (nl_trips st + 1) u32_cap"
  "nl_last_recovery (snd (recover_from_starvation now st)) = Some now"
  "nl_announced (snd (recover_from_starvation now st)) = nl_announced st"
  "nl_known (snd (recover_from_starvation now st)) = nl_known st"
  "nl_last_inbound (snd (recover_from_starvation now st)) = nl_last_inbound st"
  by (simp_all add: recover_from_starvation_def note_degraded_def note_recovery_def announce_arrival_def broadcast_peer_info_def Let_def)

lemma recoveries_back_off:
  "nl_last_recovery st = Some at \<Longrightarrow> backed_off threshold (nl_trips st) at (recoveries threshold ts st)"
proof (induction ts arbitrary: st at)
  case (Cons now ts)
  show ?case
  proof (cases "starvation_due now threshold st")
    case True
    then have "at + threshold * 2 ^ min (nl_trips st) 3 < now"
      using Cons(2) by (simp add: starvation_due_def Let_def split: if_splits)
    then show ?thesis using True Cons(1) [of "snd (recover_from_starvation now st)" now] by simp
  qed (use Cons in simp)
qed simp

lemma starved_acts:
  assumes "nl_announced st" "bf_len (nl_known st) \<noteq> 0" "nl_last_inbound st + threshold < now"
    and "case nl_last_recovery st of None \<Rightarrow> True | Some at \<Rightarrow> at + 8 * threshold < now"
  shows "starvation_due now threshold st"
proof -
  have "(2::nat) ^ min (nl_trips st) 3 \<le> 2 ^ 3" by (intro power_increasing) simp_all
  then have b: "threshold * 2 ^ min (nl_trips st) 3 \<le> threshold * 8" by (intro mult_le_mono2) simp
  show ?thesis
  proof (cases "nl_last_recovery st")
    case None
    then show ?thesis using assms(1-3) by (simp add: starvation_due_def Let_def)
  next
    case (Some at)
    then have "at + 8 * threshold < now" using assms(4) by simp
    then have "\<not> now - at \<le> threshold * 2 ^ min (nl_trips st) 3" using b by linarith
    then show ?thesis using assms(1-3) Some by (simp add: starvation_due_def Let_def)
  qed
qed

text \<open>C33: in a silence the watchdog neither gives up nor spins: after the first recovery the n-th comes more
  than \<open>2 ^ min n 3\<close> thresholds later, and no tick more than eight thresholds after the last is skipped.\<close>

theorem starvation_retries:
  assumes "nl_announced st" "bf_len (nl_known st) \<noteq> 0" "nl_last_recovery st = Some at" "nl_last_inbound st \<le> at"
  shows "backed_off threshold (nl_trips st) at (recoveries threshold ts st) \<and>
    (case ts of [] \<Rightarrow> True | now # _ \<Rightarrow> at + 8 * threshold < now \<longrightarrow> now \<in> set (recoveries threshold ts st))"
proof -
  have "starvation_due now threshold st" if "at + 8 * threshold < now" for now
    by (rule starved_acts) (use assms that in simp_all)
  then show ?thesis using recoveries_back_off [OF assms(3)] by (simp split: list.split)
qed

definition demo_starved :: "nat node_links" where
  "demo_starved = (nl_new 7 False 0)\<lparr>nl_announced := True, nl_known := snd (bf_insert 8 (bf_new KNOWN_ENDPOINTS_CAP)),
     nl_last_recovery := Some 10, nl_trips := 1\<rparr>"

theorem starvation_retries_witness:
  "backed_off 4 1 10 (recoveries 4 [100, 120] demo_starved) \<and> 100 \<in> set (recoveries 4 [100, 120] demo_starved)"
  using starvation_retries [of demo_starved 10 4 "[100, 120]"]
  by (simp add: demo_starved_def nl_new_def bf_insert_def bf_new_def bf_len_def KNOWN_ENDPOINTS_CAP_def del: recoveries.simps)

subsection \<open>Held messages\<close>

lemma flush_each_spec:
  assumes "length (bq_queue q) + length ms \<le> bq_capacity q"
  shows "flush_each deliver ms q =
    (map (\<lambda>m. if deliver m then Delivered m else Requeued m) ms, q\<lparr>bq_queue := bq_queue q @ filter (\<lambda>m. \<not> deliver m) ms\<rparr>)"
  using assms
proof (induction ms arbitrary: q)
  case (Cons m ms)
  then show ?case by (cases "deliver m") (simp_all add: bq_push_def)
qed simp

text \<open>a flush loses nothing and keeps the order: what can be delivered goes out in the order it was held,
  the rest stays held in that order.\<close>

theorem flush_keeps_order:
  assumes "length (bq_queue (nl_pending st)) \<le> bq_capacity (nl_pending st)"
  shows "flush_pending deliver st =
    (map (\<lambda>m. if deliver m then Delivered m else Requeued m) (bq_queue (nl_pending st)),
     st\<lparr>nl_pending := (nl_pending st)\<lparr>bq_queue := filter (\<lambda>m. \<not> deliver m) (bq_queue (nl_pending st))\<rparr>\<rparr>)"
  using assms flush_each_spec [of "(nl_pending st)\<lparr>bq_queue := []\<rparr>" "bq_queue (nl_pending st)" deliver]
  by (simp add: flush_pending_def bq_take_def)

theorem flush_keeps_order_witness:
  "fst (flush_pending (\<lambda>m. m < 3) ((nl_new 7 False 0)\<lparr>nl_pending := \<lparr>bq_capacity = 4, bq_queue = [5, 1, 9 :: nat]\<rparr>\<rparr>)) =
     [Requeued 5, Delivered 1, Requeued 9]"
  using flush_keeps_order [of "(nl_new 7 False 0)\<lparr>nl_pending := \<lparr>bq_capacity = 4, bq_queue = [5, 1, 9 :: nat]\<rparr>\<rparr>" "\<lambda>m. m < 3"]
  by simp

end
