(* ===== verification/EventIndex.thy ===== *)
theory EventIndex
  imports LogRetention
begin

text \<open>
  The indexes kept beside the message log: forks and the cross-author DAG (\<open>note_msg_seq\<close>,
  \<open>forget_msg_seq\<close>, \<open>note_dag\<close>, \<open>forget_hash\<close>, \<open>dag_parents\<close> of \<open>daemon/state.rs\<close>) and the retention
  step that keeps them in line with the log (\<open>retain_and_index\<close>, \<open>push_to_log\<close>, \<open>retain_own_broadcast\<close> of
  \<open>gossip/recv.rs\<close>). A hash set is a duplicate-free list, the inner map of \<open>author_seqs\<close> an association
  list; \<open>hx\<close> stands for the hex SHA-256 of a message's canonical bytes.
\<close>

record event_index =
  ei_seqs :: "ustring \<Rightarrow> (64 word \<times> ustring) list option"
  ei_forked :: "ustring list"
  ei_by_hash :: "(ustring \<times> int) list"
  ei_heads :: "ustring list"

definition ei_new :: event_index where
  "ei_new = \<lparr>ei_seqs = (\<lambda>_. None), ei_forked = [], ei_by_hash = [], ei_heads = []\<rparr>"

definition hset_insert :: "'a \<Rightarrow> 'a list \<Rightarrow> bool \<times> 'a list" where
  "hset_insert x xs = (if x \<in> set xs then (False, xs) else (True, xs @ [x]))"

definition note_msg_seq :: "ustring \<Rightarrow> 64 word \<Rightarrow> ustring \<Rightarrow> event_index \<Rightarrow> bool \<times> event_index" where
  "note_msg_seq pubkey sq hash ix =
     (let seen = (case ei_seqs ix pubkey of None \<Rightarrow> [] | Some seqs \<Rightarrow> seqs);
          ix1 = ix\<lparr>ei_seqs := (ei_seqs ix)(pubkey := Some seen)\<rparr>
      in case map_of seen sq of
           None \<Rightarrow> (False, ix1\<lparr>ei_seqs := (ei_seqs ix1)(pubkey := Some (AList.update sq hash seen))\<rparr>)
         | Some existing \<Rightarrow>
             if existing \<noteq> hash
             then (case hset_insert pubkey (ei_forked ix1) of (new, forked) \<Rightarrow> (new, ix1\<lparr>ei_forked := forked\<rparr>))
             else (False, ix1))"

definition forget_msg_seq :: "ustring \<Rightarrow> 64 word \<Rightarrow> ustring \<Rightarrow> event_index \<Rightarrow> event_index" where
  "forget_msg_seq pubkey sq hash ix =
     (case ei_seqs ix pubkey of
        None \<Rightarrow> ix
      | Some seqs \<Rightarrow>
          if map_of seqs sq = Some hash
          then let rest = AList.delete sq seqs
               in if rest = []
                  then ix\<lparr>ei_seqs := (ei_seqs ix)(pubkey := None), ei_forked := filter (\<lambda>k. k \<noteq> pubkey) (ei_forked ix)\<rparr>
                  else ix\<lparr>ei_seqs := (ei_seqs ix)(pubkey := Some rest)\<rparr>
          else ix)"

definition MAX_DAG_PARENTS :: nat where "MAX_DAG_PARENTS = 16"

definition dag_parents :: "event_index \<Rightarrow> ustring list" where
  "dag_parents ix = take MAX_DAG_PARENTS (sort_key utf8 (ei_heads ix))"

definition note_dag :: "ustring \<Rightarrow> ustring list \<Rightarrow> int \<Rightarrow> event_index \<Rightarrow> bool \<times> event_index" where
  "note_dag hash parents ts ix =
     (let backdated = list_ex (\<lambda>p. case map_of (ei_by_hash ix) p of None \<Rightarrow> False | Some pts \<Rightarrow> ts < pts) parents;
          heads = filter (\<lambda>h. h \<notin> set parents) (ei_heads ix)
      in (backdated,
          ix\<lparr>ei_by_hash := AList.update hash ts (ei_by_hash ix), ei_heads := snd (hset_insert hash heads)\<rparr>))"

definition forget_hash :: "ustring \<Rightarrow> event_index \<Rightarrow> event_index" where
  "forget_hash hash ix =
     ix\<lparr>ei_by_hash := AList.delete hash (ei_by_hash ix), ei_heads := filter (\<lambda>h. h \<noteq> hash) (ei_heads ix)\<rparr>"

subsection \<open>Retention\<close>

record app_class =
  ac_loggable :: bool
  ac_beat :: bool
  ac_valid :: bool
  ac_chained :: bool
  ac_sealed :: bool

definition is_loggable :: "message_kind \<Rightarrow> bool" where
  "is_loggable k = (case k of
       Presence Alive \<Rightarrow> False | PeerInfo \<Rightarrow> False | Digest \<Rightarrow> False | StateDigest \<Rightarrow> False | MetaDigest \<Rightarrow> False | Ping \<Rightarrow> False
     | Pong to \<Rightarrow> False | State \<Rightarrow> False | Meta \<Rightarrow> False | App tag to corr \<Rightarrow> False | _ \<Rightarrow> True)"

record 'x retention =
  rt_log :: "'x message_log"
  rt_index :: event_index

definition rt_new :: "nat \<Rightarrow> 'x retention" where
  "rt_new capacity = \<lparr>rt_log = ml_new capacity, rt_index = ei_new\<rparr>"

text \<open>\<open>None\<close>: the log's \<open>expect\<close> panicked.\<close>

definition push_to_log :: "('x gossip_message \<Rightarrow> ustring) \<Rightarrow> 'x gossip_message \<Rightarrow> 'x retention \<Rightarrow> 'x retention option" where
  "push_to_log hx m st =
     (case ml_push m (rt_log st) of
        None \<Rightarrow> None
      | Some (None, l) \<Rightarrow> Some (st\<lparr>rt_log := l\<rparr>)
      | Some (Some gone, l) \<Rightarrow>
          let ix = forget_hash (hx gone) (rt_index st);
              ix2 = (case gm_seq gone of None \<Rightarrow> ix | Some sq \<Rightarrow> forget_msg_seq (gm_pubkey gone) sq (hx gone) ix)
          in Some (st\<lparr>rt_log := l, rt_index := ix2\<rparr>))"

record retain_report =
  rr_fork :: bool
  rr_backdated :: bool

definition retain_and_index :: "('x gossip_message \<Rightarrow> ustring) \<Rightarrow> 'x gossip_message \<Rightarrow> app_class option \<Rightarrow> 'x retention \<Rightarrow>
    (retain_report \<times> 'x retention) option" where
  "retain_and_index hx m cls st =
     (let loggable = (case cls of None \<Rightarrow> is_loggable (gm_kind m) | Some c \<Rightarrow> ac_loggable c);
          beat = (case cls of None \<Rightarrow> False | Some c \<Rightarrow> ac_beat c)
      in if \<not> loggable \<or> beat then Some (\<lparr>rr_fork = False, rr_backdated = False\<rparr>, st)
         else let chained = (case cls of None \<Rightarrow> False | Some c \<Rightarrow> ac_chained c);
                  (fork, ix1) = (case (chained, gm_seq m) of
                       (True, Some sq) \<Rightarrow> note_msg_seq (gm_pubkey m) sq (hx m) (rt_index st)
                     | _ \<Rightarrow> (False, rt_index st));
                  (backdated, ix2) = (if chained then note_dag (hx m) (gm_parents m) (gm_ts m) ix1 else (False, ix1))
              in map_option (\<lambda>st'. (\<lparr>rr_fork = fork, rr_backdated = backdated\<rparr>, st')) (push_to_log hx m (st\<lparr>rt_index := ix2\<rparr>)))"

definition retain_own_broadcast :: "('x gossip_message \<Rightarrow> bytes) \<Rightarrow> ('x gossip_message \<Rightarrow> ustring) \<Rightarrow> 'x gossip_message \<Rightarrow>
    bytes bounded_fifo_set \<times> 'x retention \<Rightarrow> (bytes bounded_fifo_set \<times> 'x retention) option" where
  "retain_own_broadcast dk hx m st =
     (if \<not> is_loggable (gm_kind m) then Some st
      else map_option (Pair (snd (mark_seen dk m (fst st)))) (push_to_log hx m (snd st)))"

text \<open>A history of retained frames with the reports it drew, oldest first.\<close>

fun retain_all :: "('x gossip_message \<Rightarrow> ustring) \<Rightarrow> ('x gossip_message \<times> app_class option) list \<Rightarrow> 'x retention \<Rightarrow>
    (retain_report list \<times> 'x retention) option" where
  "retain_all hx [] st = Some ([], st)"
| "retain_all hx ((m, cls) # ms) st =
     (case retain_and_index hx m cls st of
        None \<Rightarrow> None
      | Some (r, st1) \<Rightarrow> map_option (\<lambda>(rs, st2). (r # rs, st2)) (retain_all hx ms st1))"

subsection \<open>The indexes stay within the log\<close>

definition seqs_ok :: "('x gossip_message \<Rightarrow> ustring) \<Rightarrow> 'x gossip_message set \<Rightarrow> event_index \<Rightarrow> bool" where
  "seqs_ok hx M ix \<longleftrightarrow>
     (\<forall>pk seqs. ei_seqs ix pk = Some seqs \<longrightarrow> seqs \<noteq> [] \<and> distinct (map fst seqs) \<and>
        (\<forall>sq h. map_of seqs sq = Some h \<longrightarrow> (\<exists>m\<in>M. gm_pubkey m = pk \<and> gm_seq m = Some sq \<and> hx m = h))) \<and>
     set (ei_forked ix) \<subseteq> dom (ei_seqs ix)"

definition dag_ok :: "('x gossip_message \<Rightarrow> ustring) \<Rightarrow> 'x gossip_message set \<Rightarrow> event_index \<Rightarrow> bool" where
  "dag_ok hx M ix \<longleftrightarrow>
     distinct (map fst (ei_by_hash ix)) \<and> fst ` set (ei_by_hash ix) \<subseteq> hx ` M \<and>
     distinct (ei_heads ix) \<and> set (ei_heads ix) \<subseteq> fst ` set (ei_by_hash ix)"

lemma hset_insert_set [simp]: "set (snd (hset_insert x xs)) = insert x (set xs)"
  by (auto simp: hset_insert_def)

lemma hset_insert_distinct [simp]: "distinct (snd (hset_insert x xs)) = distinct xs"
  by (auto simp: hset_insert_def)

lemma note_dag_seqs [simp]:
  "ei_seqs (snd (note_dag h ps ts ix)) = ei_seqs ix" "ei_forked (snd (note_dag h ps ts ix)) = ei_forked ix"
  by (simp_all add: note_dag_def Let_def)

lemma note_seq_dag [simp]:
  "ei_by_hash (snd (note_msg_seq pk sq h ix)) = ei_by_hash ix" "ei_heads (snd (note_msg_seq pk sq h ix)) = ei_heads ix"
  by (simp_all add: note_msg_seq_def Let_def split: option.split prod.split)

lemma forget_seq_dag [simp]:
  "ei_by_hash (forget_msg_seq pk sq h ix) = ei_by_hash ix" "ei_heads (forget_msg_seq pk sq h ix) = ei_heads ix"
  by (simp_all add: forget_msg_seq_def Let_def split: option.split)

lemma forget_hash_seqs [simp]: "ei_seqs (forget_hash h ix) = ei_seqs ix" "ei_forked (forget_hash h ix) = ei_forked ix"
  by (simp_all add: forget_hash_def)

lemma update_keys: "fst ` set (AList.update k v xs) = insert k (fst ` set xs)"
  unfolding dom_map_of_conv_image_fst [symmetric] update_conv' by (simp add: dom_map_of_conv_image_fst)

lemma delete_keys: "fst ` set (AList.delete k xs) = fst ` set xs - {k}"
  unfolding dom_map_of_conv_image_fst [symmetric] delete_conv' by (simp add: dom_map_of_conv_image_fst)

lemma note_dag_ok:
  assumes "dag_ok hx M ix" "h \<in> hx ` M" shows "dag_ok hx M (snd (note_dag h ps ts ix))"
  using assms by (auto simp: dag_ok_def note_dag_def Let_def update_keys distinct_update)

lemma note_seq_ok:
  assumes ok: "seqs_ok hx M ix" and m: "m \<in> M" "gm_pubkey m = pk" "gm_seq m = Some sq" "hx m = h"
  shows "seqs_ok hx M (snd (note_msg_seq pk sq h ix))"
proof (cases "ei_seqs ix pk")
  case None
  then show ?thesis using ok m by (auto simp: seqs_ok_def note_msg_seq_def Let_def)
next
  case (Some seqs)
  show ?thesis
  proof (cases "map_of seqs sq")
    case None
    have "AList.update sq h seqs \<noteq> []" using update_keys [of sq h seqs] by force
    then show ?thesis using ok m Some None
      by (auto simp: seqs_ok_def note_msg_seq_def Let_def update_conv' distinct_update simp del: map_of_eq_Some_iff)
  next
    case (Some h')
    then show ?thesis using ok \<open>ei_seqs ix pk = Some seqs\<close>
      by (auto simp: seqs_ok_def note_msg_seq_def hset_insert_def Let_def fun_upd_idem simp del: map_of_eq_Some_iff split: prod.split)
  qed
qed

lemma forget_hash_ok:
  assumes "dag_ok hx M ix" "M \<subseteq> insert gone M'" shows "dag_ok hx M' (forget_hash (hx gone) ix)"
proof -
  have "hx ` M - {hx gone} \<subseteq> hx ` M'" using assms(2) by blast
  then have "fst ` set (ei_by_hash ix) - {hx gone} \<subseteq> hx ` M'" using assms(1) unfolding dag_ok_def by blast
  then show ?thesis using assms(1) by (auto simp: dag_ok_def forget_hash_def delete_keys distinct_delete)
qed

lemma forget_seq_ok:
  assumes ok: "seqs_ok hx M ix" and M: "M \<subseteq> insert gone M'"
  shows "seqs_ok hx M' (case gm_seq gone of None \<Rightarrow> ix | Some sq \<Rightarrow> forget_msg_seq (gm_pubkey gone) sq (hx gone) ix)"
proof -
  have old: "\<exists>m\<in>M'. gm_pubkey m = pk \<and> gm_seq m = Some sq \<and> hx m = h"
    if "ei_seqs ix pk = Some seqs" "map_of seqs sq = Some h"
      "\<not> (pk = gm_pubkey gone \<and> gm_seq gone = Some sq \<and> h = hx gone)" for pk seqs sq h
    using ok M that unfolding seqs_ok_def by blast
  have ne: "\<And>pk seqs. ei_seqs ix pk = Some seqs \<Longrightarrow> seqs \<noteq> [] \<and> distinct (map fst seqs)" and fk: "set (ei_forked ix) \<subseteq> dom (ei_seqs ix)"
    using ok by (simp_all add: seqs_ok_def)
  show ?thesis
  proof (cases "\<exists>sq seqs. gm_seq gone = Some sq \<and> ei_seqs ix (gm_pubkey gone) = Some seqs \<and> map_of seqs sq = Some (hx gone)")
    case False
    then have "(case gm_seq gone of None \<Rightarrow> ix | Some sq \<Rightarrow> forget_msg_seq (gm_pubkey gone) sq (hx gone) ix) = ix"
      by (auto simp: forget_msg_seq_def simp del: map_of_eq_Some_iff split: option.split)
    then show ?thesis using False ne fk old unfolding seqs_ok_def by fastforce
  next
    case True
    then obtain sq seqs where g: "gm_seq gone = Some sq" "ei_seqs ix (gm_pubkey gone) = Some seqs" "map_of seqs sq = Some (hx gone)"
      by blast
    define rest where "rest = AList.delete sq seqs"
    have rest: "distinct (map fst rest)" "map_of rest = (map_of seqs)(sq := None)"
      using ne [OF g(2)] by (simp_all add: rest_def distinct_delete delete_conv')
    show ?thesis using g ne fk old rest
      by (auto simp: seqs_ok_def forget_msg_seq_def rest_def [symmetric] Let_def simp del: map_of_eq_Some_iff)
  qed
qed

definition rt_ok :: "nat \<Rightarrow> ('x gossip_message \<Rightarrow> ustring) \<Rightarrow> 'x retention \<Rightarrow> bool" where
  "rt_ok c hx st \<longleftrightarrow> ml_inv (rt_log st) \<and> ml_capacity (rt_log st) = c \<and> length (ml_messages (rt_log st)) \<le> c \<and>
     seqs_ok hx (set (ml_messages (rt_log st))) (rt_index st) \<and> dag_ok hx (set (ml_messages (rt_log st))) (rt_index st)"

lemma rt_new_ok: "rt_ok c hx (rt_new c)"
  by (simp add: rt_ok_def rt_new_def ml_new_inv seqs_ok_def dag_ok_def ei_new_def) (simp add: ml_new_def)

lemma seqs_ok_mono: "seqs_ok hx M ix \<Longrightarrow> M \<subseteq> M' \<Longrightarrow> seqs_ok hx M' ix"
  unfolding seqs_ok_def by blast

lemma dag_ok_mono: "dag_ok hx M ix \<Longrightarrow> M \<subseteq> M' \<Longrightarrow> dag_ok hx M' ix"
  unfolding dag_ok_def by blast

lemma push_to_log_ok:
  assumes l: "ml_inv (rt_log st)" "ml_capacity (rt_log st) = c" "length (ml_messages (rt_log st)) \<le> c"
    and ix: "seqs_ok hx (insert m (set (ml_messages (rt_log st)))) (rt_index st)"
      "dag_ok hx (insert m (set (ml_messages (rt_log st)))) (rt_index st)"
  shows "\<exists>st'. push_to_log hx m st = Some st' \<and> rt_ok c hx st'"
proof -
  let ?ms = "ml_messages (rt_log st) @ [m]"
  obtain gone l' where p: "ml_push m (rt_log st) = Some (gone, l')" "ml_inv l'" "ml_capacity l' = ml_capacity (rt_log st)"
    "if length (ml_messages (rt_log st)) < ml_capacity (rt_log st) then gone = None \<and> ml_messages l' = ?ms
     else \<exists>i. eviction_index (ml_add m (rt_log st)) = Some i \<and> i < length ?ms \<and> gone = Some (?ms ! i) \<and>
       ml_messages l' = take i ?ms @ drop (i + 1) ?ms"
    using ml_push_any [OF l(1), of m] by blast
  show ?thesis
  proof (cases "length (ml_messages (rt_log st)) < ml_capacity (rt_log st)")
    case True
    then show ?thesis using p l ix by (simp add: push_to_log_def rt_ok_def)
  next
    case False
    then obtain i where i: "i < length ?ms" "gone = Some (?ms ! i)" "ml_messages l' = take i ?ms @ drop (i + 1) ?ms"
      using p(4) by auto
    have "?ms = take i ?ms @ ?ms ! i # drop (i + 1) ?ms"
      unfolding Suc_eq_plus1 [symmetric] by (rule id_take_nth_drop [OF i(1)])
    then have "set ?ms = insert (?ms ! i) (set (ml_messages l'))"
      unfolding i(3) by (metis Un_insert_right list.set(2) set_append)
    then have sub: "insert m (set (ml_messages (rt_log st))) \<subseteq> insert (?ms ! i) (set (ml_messages l'))" by auto
    have len: "length (ml_messages l') \<le> c" using i l(3) by (simp add: i(3))
    define ix1 where "ix1 = forget_hash (hx (?ms ! i)) (rt_index st)"
    have s1: "seqs_ok hx (insert m (set (ml_messages (rt_log st)))) ix1" using ix(1) by (simp add: seqs_ok_def ix1_def)
    have d1: "dag_ok hx (set (ml_messages l')) ix1" unfolding ix1_def by (rule forget_hash_ok [OF ix(2) sub])
    have "seqs_ok hx (set (ml_messages l')) (case gm_seq (?ms ! i) of None \<Rightarrow> ix1
        | Some sq \<Rightarrow> forget_msg_seq (gm_pubkey (?ms ! i)) sq (hx (?ms ! i)) ix1)"
      by (rule forget_seq_ok [OF s1 sub])
    moreover have "dag_ok hx (set (ml_messages l')) (case gm_seq (?ms ! i) of None \<Rightarrow> ix1
        | Some sq \<Rightarrow> forget_msg_seq (gm_pubkey (?ms ! i)) sq (hx (?ms ! i)) ix1)"
      using d1 by (simp add: dag_ok_def split: option.split)
    ultimately show ?thesis using p(1-3) i(2) l(2) len
      by (simp add: push_to_log_def rt_ok_def Let_def ix1_def [symmetric])
  qed
qed

lemma retain_ok:
  assumes "rt_ok c hx st" shows "\<exists>r st'. retain_and_index hx m cls st = Some (r, st') \<and> rt_ok c hx st'"
proof -
  let ?M = "insert m (set (ml_messages (rt_log st)))"
  have l: "ml_inv (rt_log st)" "ml_capacity (rt_log st) = c" "length (ml_messages (rt_log st)) \<le> c"
    and ix: "seqs_ok hx ?M (rt_index st)" "dag_ok hx ?M (rt_index st)"
    using assms by (auto simp: rt_ok_def elim: seqs_ok_mono dag_ok_mono)
  define chained where "chained = (case cls of None \<Rightarrow> False | Some cl \<Rightarrow> ac_chained cl)"
  define forkix where "forkix = (case (chained, gm_seq m) of
     (True, Some sq) \<Rightarrow> note_msg_seq (gm_pubkey m) sq (hx m) (rt_index st) | _ \<Rightarrow> (False, rt_index st))"
  define dagix where "dagix = (if chained then note_dag (hx m) (gm_parents m) (gm_ts m) (snd forkix) else (False, snd forkix))"
  have s1: "seqs_ok hx ?M (snd forkix)" using ix(1) by (auto simp: forkix_def intro: note_seq_ok split: bool.split option.split)
  have d1: "dag_ok hx ?M (snd forkix)" using ix(2) by (auto simp: forkix_def dag_ok_def split: bool.split option.split)
  have s2: "seqs_ok hx ?M (snd dagix)" using s1 by (simp add: dagix_def seqs_ok_def)
  have d2: "dag_ok hx ?M (snd dagix)" using d1 note_dag_ok [OF d1] by (simp add: dagix_def)
  obtain st' where "push_to_log hx m (st\<lparr>rt_index := snd dagix\<rparr>) = Some st'" "rt_ok c hx st'"
    using push_to_log_ok [of "st\<lparr>rt_index := snd dagix\<rparr>" c hx m] l s2 d2 by auto
  moreover have "retain_and_index hx m cls st =
     (if \<not> (case cls of None \<Rightarrow> is_loggable (gm_kind m) | Some cl \<Rightarrow> ac_loggable cl) \<or> (case cls of None \<Rightarrow> False | Some cl \<Rightarrow> ac_beat cl)
      then Some (\<lparr>rr_fork = False, rr_backdated = False\<rparr>, st)
      else map_option (Pair \<lparr>rr_fork = fst forkix, rr_backdated = fst dagix\<rparr>) (push_to_log hx m (st\<lparr>rt_index := snd dagix\<rparr>)))"
    unfolding retain_and_index_def Let_def chained_def [symmetric] forkix_def [symmetric]
    by (simp add: case_prod_beta dagix_def)
  ultimately show ?thesis using assms by auto
qed

lemma retain_all_ok: "rt_ok c hx st \<Longrightarrow> \<exists>rs st'. retain_all hx ms st = Some (rs, st') \<and> rt_ok c hx st'"
proof (induction ms arbitrary: st)
  case (Cons a ms)
  obtain m cls where a: "a = (m, cls)" by fastforce
  obtain r st1 where "retain_and_index hx m cls st = Some (r, st1)" "rt_ok c hx st1" using retain_ok [OF Cons(2)] by blast
  then show ?case using Cons(1) [of st1] by (auto simp: a)
qed simp

text \<open>C12: whatever frames are retained, in any order, with repeats: the log never panics and never outgrows its
  capacity, and the indexes beside it hold nothing but what a retained message put there: at most one DAG
  entry and one tip per retained message, and a key flagged as forked still has a retained message.\<close>

theorem indexes_bounded:
  "\<exists>rs st. retain_all hx ms (rt_new c) = Some (rs, st) \<and> length (ml_messages (rt_log st)) \<le> c \<and>
     length (ei_by_hash (rt_index st)) \<le> c \<and> length (ei_heads (rt_index st)) \<le> c \<and>
     set (ei_heads (rt_index st)) \<subseteq> hx ` set (ml_messages (rt_log st)) \<and>
     dom (ei_seqs (rt_index st)) \<subseteq> gm_pubkey ` set (ml_messages (rt_log st)) \<and>
     set (ei_forked (rt_index st)) \<subseteq> gm_pubkey ` set (ml_messages (rt_log st))"
proof -
  obtain rs st where st: "retain_all hx ms (rt_new c) = Some (rs, st)" "rt_ok c hx st" using retain_all_ok [OF rt_new_ok] by blast
  let ?M = "set (ml_messages (rt_log st))"
  have ok: "length (ml_messages (rt_log st)) \<le> c" "seqs_ok hx ?M (rt_index st)" "dag_ok hx ?M (rt_index st)"
    using st(2) by (simp_all add: rt_ok_def)
  have "card (hx ` ?M) \<le> c" using ok(1) card_length [of "ml_messages (rt_log st)"] card_image_le [of ?M hx] by simp
  moreover have "length (ei_by_hash (rt_index st)) = card (fst ` set (ei_by_hash (rt_index st)))"
    using ok(3) distinct_card [of "map fst (ei_by_hash (rt_index st))"] by (simp add: dag_ok_def)
  moreover have "\<dots> \<le> card (hx ` ?M)" using ok(3) by (intro card_mono) (simp_all add: dag_ok_def)
  moreover have "length (ei_heads (rt_index st)) = card (set (ei_heads (rt_index st)))"
    using ok(3) by (simp add: dag_ok_def distinct_card)
  moreover have "\<dots> \<le> card (hx ` ?M)" using ok(3) by (intro card_mono) (auto simp: dag_ok_def)
  moreover have "pk \<in> gm_pubkey ` ?M" if "ei_seqs (rt_index st) pk = Some seqs" for pk seqs
  proof -
    from ok(2) that have "seqs \<noteq> []" "\<And>sq h. map_of seqs sq = Some h \<Longrightarrow> \<exists>m\<in>?M. gm_pubkey m = pk" unfolding seqs_ok_def by blast+
    then show ?thesis by (cases seqs) fastforce+
  qed
  ultimately show ?thesis using st(1) ok by (intro exI [of _ rs] exI [of _ st]) (auto simp: seqs_ok_def dag_ok_def)
qed

subsection \<open>Forks\<close>

text \<open>The frames that enter the indexes, and the author, number and hash a numbered one claims.\<close>

definition indexed :: "'x gossip_message \<times> app_class option \<Rightarrow> bool" where
  "indexed e = (case snd e of None \<Rightarrow> False | Some cl \<Rightarrow> ac_loggable cl \<and> \<not> ac_beat cl \<and> ac_chained cl)"

definition seq_claim :: "('x gossip_message \<Rightarrow> ustring) \<Rightarrow> 'x gossip_message \<times> app_class option \<Rightarrow>
    (ustring \<times> 64 word \<times> ustring) option" where
  "seq_claim hx e = (if indexed e then map_option (\<lambda>sq. (gm_pubkey (fst e), sq, hx (fst e))) (gm_seq (fst e)) else None)"

text \<open>Two different hashes signed by one author at one number.\<close>

definition equivocates :: "('x gossip_message \<Rightarrow> ustring) \<Rightarrow> ('x gossip_message \<times> app_class option) list \<Rightarrow> ustring \<Rightarrow> bool" where
  "equivocates hx es pk =
     (let claims = List.map_filter (seq_claim hx) es
      in list_ex (\<lambda>(p, sq, h). p = pk \<and> list_ex (\<lambda>(p', sq', h'). p' = pk \<and> sq' = sq \<and> h' \<noteq> h) claims) claims)"

definition claims_of :: "('x gossip_message \<Rightarrow> ustring) \<Rightarrow> ('x gossip_message \<times> app_class option) list \<Rightarrow>
    (ustring \<times> 64 word \<times> ustring) set" where
  "claims_of hx es = {c. \<exists>e\<in>set es. seq_claim hx e = Some c}"

lemma equivocates_iff:
  "equivocates hx es pk \<longleftrightarrow> (\<exists>sq h h'. (pk, sq, h) \<in> claims_of hx es \<and> (pk, sq, h') \<in> claims_of hx es \<and> h' \<noteq> h)"
proof -
  have "set (List.map_filter (seq_claim hx) es) = claims_of hx es"
    by (force simp: claims_of_def List.map_filter_def)
  then show ?thesis by (auto simp: equivocates_def Let_def list_ex_iff) blast
qed

lemma claims_snoc [simp]: "claims_of hx (es @ [e]) = claims_of hx es \<union> set_option (seq_claim hx e)"
  by (auto simp: claims_of_def)

definition fork_inv :: "('x gossip_message \<Rightarrow> ustring) \<Rightarrow> ('x gossip_message \<times> app_class option) list \<Rightarrow> event_index \<Rightarrow> bool" where
  "fork_inv hx es ix \<longleftrightarrow>
     (\<forall>pk. case ei_seqs ix pk of
         None \<Rightarrow> \<forall>sq h. (pk, sq, h) \<notin> claims_of hx es
       | Some seqs \<Rightarrow> \<forall>sq. case map_of seqs sq of
           None \<Rightarrow> \<forall>h. (pk, sq, h) \<notin> claims_of hx es
         | Some h \<Rightarrow> (pk, sq, h) \<in> claims_of hx es) \<and>
     set (ei_forked ix) = {pk. equivocates hx es pk}"

lemma fork_step:
  assumes inv: "fork_inv hx es ix" and e: "seq_claim hx e = Some (pk, sq, h)"
  shows "fst (note_msg_seq pk sq h ix) = (equivocates hx (es @ [e]) pk \<and> \<not> equivocates hx es pk) \<and>
    fork_inv hx (es @ [e]) (snd (note_msg_seq pk sq h ix))"
proof -
  let ?C = "claims_of hx es"
  define seqs where "seqs = (case ei_seqs ix pk of None \<Rightarrow> [] | Some seqs \<Rightarrow> seqs)"
  have C: "claims_of hx (es @ [e]) = insert (pk, sq, h) ?C" using e by simp
  have other: "case ei_seqs ix p of None \<Rightarrow> \<forall>sq h. (p, sq, h) \<notin> ?C
      | Some seqs \<Rightarrow> \<forall>sq. case map_of seqs sq of None \<Rightarrow> \<forall>h. (p, sq, h) \<notin> ?C | Some h \<Rightarrow> (p, sq, h) \<in> ?C" for p
    using inv unfolding fork_inv_def by blast
  have known: "case map_of seqs sq' of None \<Rightarrow> \<forall>h. (pk, sq', h) \<notin> ?C | Some h \<Rightarrow> (pk, sq', h) \<in> ?C" for sq'
    using other [of pk] by (cases "ei_seqs ix pk") (simp_all add: seqs_def)
  have forked: "set (ei_forked ix) = {pk. equivocates hx es pk}" using inv by (simp add: fork_inv_def)
  have eq_other: "equivocates hx (es @ [e]) p = equivocates hx es p" if "p \<noteq> pk" for p
    using that unfolding equivocates_iff C by auto
  have eq_mono: "equivocates hx es pk \<Longrightarrow> equivocates hx (es @ [e]) pk" unfolding equivocates_iff C by blast
  show ?thesis
  proof (cases "map_of seqs sq")
    case None
    then have new: "\<And>h. (pk, sq, h) \<notin> ?C" using known [of sq] by simp
    have eq: "equivocates hx (es @ [e]) p = equivocates hx es p" for p
      unfolding equivocates_iff C using new by auto
    have nm: "note_msg_seq pk sq h ix = (False, ix\<lparr>ei_seqs := (ei_seqs ix)(pk := Some (AList.update sq h seqs))\<rparr>)"
      using None by (simp add: note_msg_seq_def seqs_def [symmetric] Let_def)
    have "case ei_seqs (snd (note_msg_seq pk sq h ix)) p of None \<Rightarrow> \<forall>sq h. (p, sq, h) \<notin> claims_of hx (es @ [e])
      | Some seqs \<Rightarrow> \<forall>sq. case map_of seqs sq of None \<Rightarrow> \<forall>h. (p, sq, h) \<notin> claims_of hx (es @ [e])
          | Some h \<Rightarrow> (p, sq, h) \<in> claims_of hx (es @ [e])" for p
    proof (cases "p = pk")
      case True
      have "case ((map_of seqs)(sq \<mapsto> h)) x of None \<Rightarrow> \<forall>h. (pk, x, h) \<notin> claims_of hx (es @ [e])
          | Some h \<Rightarrow> (pk, x, h) \<in> claims_of hx (es @ [e])" for x
        using known [of x] unfolding C by (auto split: option.splits)
      then show ?thesis unfolding True by (simp add: nm update_conv' fun_upd_same del: fun_upd_apply claims_snoc)
    next
      case False
      then have "((p, sq', h') \<in> claims_of hx (es @ [e])) = ((p, sq', h') \<in> ?C)" for sq' h' unfolding C by simp
      then show ?thesis using other [of p] False unfolding nm by (simp del: claims_snoc cong: option.case_cong)
    qed
    then show ?thesis unfolding fork_inv_def eq forked [symmetric] by (simp add: nm)
  next
    case (Some h0)
    then have h0: "(pk, sq, h0) \<in> ?C" using known [of sq] by simp
    have nm: "note_msg_seq pk sq h ix =
       (if h0 \<noteq> h then (fst (hset_insert pk (ei_forked ix)), ix\<lparr>ei_seqs := (ei_seqs ix)(pk := Some seqs),
          ei_forked := snd (hset_insert pk (ei_forked ix))\<rparr>)
        else (False, ix\<lparr>ei_seqs := (ei_seqs ix)(pk := Some seqs)\<rparr>))"
      using Some by (simp add: note_msg_seq_def seqs_def [symmetric] Let_def case_prod_beta)
    have eq: "equivocates hx (es @ [e]) pk = (h0 \<noteq> h \<or> equivocates hx es pk)"
      unfolding equivocates_iff C using h0 by auto
    have eqp: "equivocates hx (es @ [e]) p = (p = pk \<and> h0 \<noteq> h \<or> equivocates hx es p)" for p
      using eq eq_other by (cases "p = pk") auto
    have seqs: "case ei_seqs (snd (note_msg_seq pk sq h ix)) p of None \<Rightarrow> \<forall>sq h. (p, sq, h) \<notin> claims_of hx (es @ [e])
      | Some seqs \<Rightarrow> \<forall>sq. case map_of seqs sq of None \<Rightarrow> \<forall>h. (p, sq, h) \<notin> claims_of hx (es @ [e])
          | Some h \<Rightarrow> (p, sq, h) \<in> claims_of hx (es @ [e])" for p
    proof (cases "p = pk")
      case True
      have "case map_of seqs x of None \<Rightarrow> \<forall>h. (pk, x, h) \<notin> claims_of hx (es @ [e])
          | Some h \<Rightarrow> (pk, x, h) \<in> claims_of hx (es @ [e])" for x
        using known [of x] Some unfolding C by (cases "x = sq") (auto simp del: map_of_eq_Some_iff split: option.splits)
      then show ?thesis unfolding True by (simp add: nm)
    next
      case False
      then have "((p, sq', h') \<in> claims_of hx (es @ [e])) = ((p, sq', h') \<in> ?C)" for sq' h' unfolding C by simp
      then show ?thesis using other [of p] False unfolding nm by (simp del: claims_snoc cong: option.case_cong)
    qed
    have "set (ei_forked (snd (note_msg_seq pk sq h ix))) = {p. equivocates hx (es @ [e]) p}"
      using forked unfolding nm eqp by auto
    moreover have "fst (note_msg_seq pk sq h ix) = (equivocates hx (es @ [e]) pk \<and> \<not> equivocates hx es pk)"
      using forked eq unfolding nm by (auto simp: hset_insert_def)
    ultimately show ?thesis unfolding fork_inv_def using seqs by blast
  qed
qed

text \<open>A retention step while the log has room.\<close>

lemma retain_room:
  assumes "length (ml_messages (rt_log st)) < ml_capacity (rt_log st)"
  shows "\<exists>st'. retain_and_index hx m cls st =
      Some (\<lparr>rr_fork = (case seq_claim hx (m, cls) of None \<Rightarrow> False | Some (pk, sq, h) \<Rightarrow> fst (note_msg_seq pk sq h (rt_index st))),
        rr_backdated = rr_backdated (fst (the (retain_and_index hx m cls st)))\<rparr>, st') \<and>
    ml_capacity (rt_log st') = ml_capacity (rt_log st) \<and>
    length (ml_messages (rt_log st')) \<le> Suc (length (ml_messages (rt_log st))) \<and>
    (let ix1 = (case seq_claim hx (m, cls) of None \<Rightarrow> rt_index st | Some (pk, sq, h) \<Rightarrow> snd (note_msg_seq pk sq h (rt_index st)))
     in rt_index st' = (if indexed (m, cls) then snd (note_dag (hx m) (gm_parents m) (gm_ts m) ix1) else ix1))"
proof -
  have push: "push_to_log hx m (st\<lparr>rt_index := ix\<rparr>) = Some (st\<lparr>rt_index := ix, rt_log := ml_add m (rt_log st)\<rparr>)" for ix
    using assms by (simp add: push_to_log_def ml_push_def ml_add_def Let_def)
  have push0: "push_to_log hx m st = Some (st\<lparr>rt_log := ml_add m (rt_log st)\<rparr>)"
    using push [of "rt_index st"] by simp
  show ?thesis
  proof (cases cls)
    case None
    then show ?thesis by (simp add: retain_and_index_def Let_def push0 push seq_claim_def indexed_def) (simp add: ml_add_def)
  next
    case (Some cl)
    then show ?thesis
      by (cases "gm_seq m"; cases "ac_chained cl")
        (simp_all add: retain_and_index_def Let_def push0 push seq_claim_def indexed_def case_prod_beta, simp_all add: ml_add_def)
  qed
qed

lemma note_dag_fork_inv [simp]: "fork_inv hx es (snd (note_dag h ps ts ix)) = fork_inv hx es ix"
  by (simp add: fork_inv_def)

lemma claims_same: "seq_claim hx e = None \<Longrightarrow> fork_inv hx (es @ [e]) ix = fork_inv hx es ix"
proof -
  assume "seq_claim hx e = None"
  then have C: "claims_of hx (es @ [e]) = claims_of hx es" by simp
  show ?thesis unfolding fork_inv_def equivocates_iff C ..
qed

lemma retain_all_forks:
  assumes "fork_inv hx es (rt_index st)" "length (ml_messages (rt_log st)) + length ms \<le> ml_capacity (rt_log st)"
    and "retain_all hx ms st = Some (rs, st')" "i < length ms"
  shows "rr_fork (rs ! i) = (equivocates hx (es @ take (Suc i) ms) (gm_pubkey (fst (ms ! i))) \<and>
    \<not> equivocates hx (es @ take i ms) (gm_pubkey (fst (ms ! i))))"
  using assms
proof (induction ms arbitrary: es st rs i)
  case (Cons e ms)
  obtain m cls where e: "e = (m, cls)" by fastforce
  have room: "length (ml_messages (rt_log st)) < ml_capacity (rt_log st)" using Cons.prems(2) by simp
  obtain r st1 where r: "retain_and_index hx m cls st = Some (r, st1)"
      "rr_fork r = (case seq_claim hx e of None \<Rightarrow> False | Some (pk, sq, h) \<Rightarrow> fst (note_msg_seq pk sq h (rt_index st)))"
      "ml_capacity (rt_log st1) = ml_capacity (rt_log st)"
      "length (ml_messages (rt_log st1)) \<le> Suc (length (ml_messages (rt_log st)))"
      "rt_index st1 = (let ix1 = (case seq_claim hx e of None \<Rightarrow> rt_index st | Some (pk, sq, h) \<Rightarrow> snd (note_msg_seq pk sq h (rt_index st)))
         in if indexed e then snd (note_dag (hx m) (gm_parents m) (gm_ts m) ix1) else ix1)"
    using retain_room [OF room, of hx m cls] unfolding e by (auto simp: Let_def)
  obtain rs1 where rs: "retain_all hx ms st1 = Some (rs1, st')" "rs = r # rs1"
    using Cons.prems(3) r(1) by (auto simp: e)
  have step: "rr_fork r = (equivocates hx (es @ [e]) (gm_pubkey m) \<and> \<not> equivocates hx es (gm_pubkey m)) \<and>
      fork_inv hx (es @ [e]) (rt_index st1)"
  proof (cases "seq_claim hx e")
    case None
    then have "equivocates hx (es @ [e]) (gm_pubkey m) = equivocates hx es (gm_pubkey m)"
      by (simp add: equivocates_iff)
    then show ?thesis using None r(2,5) Cons.prems(1) by (simp add: claims_same Let_def)
  next
    case (Some c)
    obtain pk sq h where c: "c = (pk, sq, h)" by (metis prod_cases3)
    have pk: "pk = gm_pubkey m" using Some unfolding c e seq_claim_def by (auto split: if_splits)
    show ?thesis using fork_step [OF Cons.prems(1) Some [unfolded c]] r(2,5) Some pk by (simp add: c Let_def)
  qed
  show ?case
  proof (cases i)
    case 0
    then show ?thesis using step rs(2) e by simp
  next
    case (Suc k)
    have "length (ml_messages (rt_log st1)) + length ms \<le> ml_capacity (rt_log st1)" using Cons.prems(2) r(3,4) by simp
    from Cons.IH [OF conjunct2 [OF step] this rs(1), of k] show ?thesis using Suc Cons.prems(4) rs(2) by simp
  qed
qed simp

text \<open>C21: while the log has room, a fork is reported for exactly the frame that first shows its author signed
  two different messages at one number: never without that evidence, never twice for one key, and whatever
  the order of arrival.\<close>

theorem fork_report_exact:
  assumes "length ms \<le> c" "retain_all hx ms (rt_new c) = Some (rs, st)" "i < length ms"
  shows "rr_fork (rs ! i) = (equivocates hx (take (Suc i) ms) (gm_pubkey (fst (ms ! i))) \<and>
    \<not> equivocates hx (take i ms) (gm_pubkey (fst (ms ! i))))"
proof -
  have "fork_inv hx [] (rt_index (rt_new c))"
    by (simp add: fork_inv_def rt_new_def ei_new_def equivocates_iff claims_of_def)
  from retain_all_forks [OF this _ assms(2,3)] show ?thesis using assms(1) by (simp add: rt_new_def ml_new_def)
qed

subsection \<open>The tips\<close>

definition names :: "('x gossip_message \<times> app_class option) list \<Rightarrow> ustring \<Rightarrow> bool" where
  "names es h = list_ex (\<lambda>e. indexed e \<and> h \<in> set (gm_parents (fst e))) es"

lemma names_Cons: "names (e # es) h \<longleftrightarrow> indexed e \<and> h \<in> set (gm_parents (fst e)) \<or> names es h"
  by (simp add: names_def)

lemma retain_all_tips:
  assumes "length (ml_messages (rt_log st)) + length ms \<le> ml_capacity (rt_log st)" "retain_all hx ms st = Some (rs, st')"
  shows "h \<in> set (ei_heads (rt_index st')) \<longleftrightarrow>
    (h \<in> set (ei_heads (rt_index st)) \<and> \<not> names ms h) \<or>
    (\<exists>i < length ms. indexed (ms ! i) \<and> hx (fst (ms ! i)) = h \<and> \<not> names (drop (Suc i) ms) h)"
  using assms
proof (induction ms arbitrary: st rs)
  case Nil
  then show ?case by (simp add: names_def)
next
  case (Cons e ms)
  obtain m cls where e: "e = (m, cls)" by fastforce
  have room: "length (ml_messages (rt_log st)) < ml_capacity (rt_log st)" using Cons.prems(1) by simp
  obtain r st1 where r: "retain_and_index hx m cls st = Some (r, st1)"
      "ml_capacity (rt_log st1) = ml_capacity (rt_log st)"
      "length (ml_messages (rt_log st1)) \<le> Suc (length (ml_messages (rt_log st)))"
      "rt_index st1 = (let ix1 = (case seq_claim hx e of None \<Rightarrow> rt_index st | Some (pk, sq, h) \<Rightarrow> snd (note_msg_seq pk sq h (rt_index st)))
         in if indexed e then snd (note_dag (hx m) (gm_parents m) (gm_ts m) ix1) else ix1)"
    using retain_room [OF room, of hx m cls] unfolding e by (auto simp: Let_def)
  obtain rs1 where rs: "retain_all hx ms st1 = Some (rs1, st')" using Cons.prems(2) r(1) by (auto simp: e)
  have st1: "h \<in> set (ei_heads (rt_index st1)) \<longleftrightarrow>
      (h \<in> set (ei_heads (rt_index st)) \<and> \<not> (indexed e \<and> h \<in> set (gm_parents m))) \<or> indexed e \<and> hx m = h"
    unfolding r(4) Let_def by (auto simp: note_dag_def Let_def split: option.split prod.split)
  have "length (ml_messages (rt_log st1)) + length ms \<le> ml_capacity (rt_log st1)" using Cons.prems(1) r(2,3) by simp
  from Cons.IH [OF this rs] show ?case
    unfolding st1 list.size add_Suc_right add_0_right Ex_less_Suc2 nth_Cons_0 nth_Cons_Suc drop_Suc_Cons drop_0 names_Cons
    by (auto simp: e)
qed

lemma dag_tips:
  assumes "length ms \<le> c" "retain_all hx ms (rt_new c) = Some (rs, st)"
  shows "h \<in> set (ei_heads (rt_index st)) \<longleftrightarrow>
    (\<exists>i < length ms. indexed (ms ! i) \<and> hx (fst (ms ! i)) = h \<and> \<not> names (drop (Suc i) ms) h)"
  using retain_all_tips [OF _ assms(2), of h] assms(1) by (simp add: rt_new_def ml_new_def ei_new_def)

text \<open>while the log has room, the tips are exactly the retained messages that no message retained after
  them names as a parent.\<close>

theorem dag_tips_exact:
  assumes "length ms \<le> c" "retain_all hx ms (rt_new c) = Some (rs, st)"
  shows "h \<in> set (ei_heads (rt_index st)) \<longleftrightarrow>
    (\<exists>i < length ms. indexed (ms ! i) \<and> hx (fst (ms ! i)) = h \<and> \<not> names (drop (Suc i) ms) h)"
  using assms by (rule dag_tips)

text \<open>the tips depend on the order of arrival. A child and its parent retained in causal order leave only
  the child as a tip; in the other order the parent is a tip too, although its child is known, and the next
  message this node signs names both.\<close>

theorem late_parent_is_tip:
  assumes "indexed p" "indexed ch" "hx (fst p) \<in> set (gm_parents (fst ch))" "hx (fst p) \<noteq> hx (fst ch)" "2 \<le> c"
    and "retain_all hx [p, ch] (rt_new c) = Some (rs, st)" "retain_all hx [ch, p] (rt_new c) = Some (rs', st')"
    and "hx (fst ch) \<notin> set (gm_parents (fst p))"
  shows "set (ei_heads (rt_index st)) = {hx (fst ch)} \<and> set (ei_heads (rt_index st')) = {hx (fst ch), hx (fst p)}"
proof -
  have len: "length [p, ch] \<le> c" "length [ch, p] \<le> c" using assms(5) by simp_all
  have named: "names [] h = False" "names [p] h = (h \<in> set (gm_parents (fst p)))" "names [ch] h = (h \<in> set (gm_parents (fst ch)))" for h
    using assms(1,2) by (simp_all add: names_def)
  have tips: "h \<in> set (ei_heads (rt_index st)) \<longleftrightarrow> (hx (fst p) = h \<and> h \<notin> set (gm_parents (fst ch))) \<or> hx (fst ch) = h"
    "h \<in> set (ei_heads (rt_index st')) \<longleftrightarrow> (hx (fst ch) = h \<and> h \<notin> set (gm_parents (fst p))) \<or> hx (fst p) = h" for h
    unfolding dag_tips [OF len(1) assms(6)] dag_tips [OF len(2) assms(7)] list.size add_Suc_right add_0_right Ex_less_Suc2
    using assms(1,2) by (simp_all add: named)
  have "set (ei_heads (rt_index st)) = {hx (fst ch)}"
    using assms(3) by (intro set_eqI) (subst tips(1), simp, metis)
  moreover have "set (ei_heads (rt_index st')) = {hx (fst ch), hx (fst p)}"
    using assms(8) by (intro set_eqI) (subst tips(2), simp, metis)
  ultimately show ?thesis ..
qed

subsection \<open>Demonstrations\<close>

definition demo_chat :: "app_class option" where
  "demo_chat = Some \<lparr>ac_loggable = True, ac_beat = False, ac_valid = True, ac_chained = True, ac_sealed = False\<rparr>"

definition demo_note :: "nat \<Rightarrow> ustring list \<Rightarrow> unit gossip_message" where
  "demo_note i parents = (demo_msg [1] i)\<lparr>gm_seq := Some 5, gm_parents := parents\<rparr>"

definition demo_hash :: "unit gossip_message \<Rightarrow> ustring" where
  "demo_hash m = [ucast (gm_timestamp m)]"

lemma demo_run: "\<exists>rs st. retain_all demo_hash [(demo_note i ps, demo_chat), (demo_note j qs, demo_chat)] (rt_new 4) = Some (rs, st)"
  using retain_all_ok [OF rt_new_ok, of demo_hash] by blast

theorem fork_report_exact_witness:
  "\<exists>rs st. retain_all demo_hash [(demo_note 1 [], demo_chat), (demo_note 2 [], demo_chat)] (rt_new 4) = Some (rs, st) \<and>
     rr_fork (rs ! 1)"
proof -
  obtain rs st where r: "retain_all demo_hash [(demo_note 1 [], demo_chat), (demo_note 2 [], demo_chat)] (rt_new 4) = Some (rs, st)"
    using demo_run by blast
  have "rr_fork (rs ! 1)" using fork_report_exact [OF _ r, of 1]
    by (simp add: equivocates_def List.map_filter_def seq_claim_def indexed_def demo_chat_def demo_note_def demo_hash_def demo_msg_def)
  then show ?thesis using r by blast
qed

theorem dag_tips_exact_witness:
  "\<exists>rs st. retain_all demo_hash [(demo_note 1 [], demo_chat), (demo_note 2 [[1]], demo_chat)] (rt_new 4) = Some (rs, st) \<and>
     [1] \<notin> set (ei_heads (rt_index st)) \<and> [2] \<in> set (ei_heads (rt_index st))"
proof -
  obtain rs st where r: "retain_all demo_hash [(demo_note 1 [], demo_chat), (demo_note 2 [[1]], demo_chat)] (rt_new 4) = Some (rs, st)"
    using demo_run by blast
  have "[1] \<notin> set (ei_heads (rt_index st)) \<and> [2] \<in> set (ei_heads (rt_index st))"
    using dag_tips_exact [OF _ r, of "[1]"] dag_tips_exact [OF _ r, of "[2]"]
    by (simp add: Ex_less_Suc2 names_def indexed_def demo_chat_def demo_note_def demo_hash_def demo_msg_def)
  then show ?thesis using r by blast
qed

theorem late_parent_is_tip_witness:
  "\<exists>rs st. retain_all demo_hash [(demo_note 2 [[1]], demo_chat), (demo_note 1 [], demo_chat)] (rt_new 4) = Some (rs, st) \<and>
     set (ei_heads (rt_index st)) = {[2], [1]}"
proof -
  obtain rs st rs' st' where r: "retain_all demo_hash [(demo_note 1 [], demo_chat), (demo_note 2 [[1]], demo_chat)] (rt_new 4) = Some (rs, st)"
      "retain_all demo_hash [(demo_note 2 [[1]], demo_chat), (demo_note 1 [], demo_chat)] (rt_new 4) = Some (rs', st')"
    using demo_run by blast
  have "set (ei_heads (rt_index st')) = {[2], [1]}"
    using late_parent_is_tip [OF _ _ _ _ _ r]
    by (simp add: indexed_def demo_chat_def demo_note_def demo_hash_def demo_msg_def demo_frame_def gm_new_def)
  then show ?thesis using r by blast
qed

end
