(* ===== verification/Reassembly.thy ===== *)
theory Reassembly
  imports GossipMessage "HOL-Library.AList"
begin

text \<open>
  Putting multipart bodies together within byte budgets: \<open>reassembly.rs\<close> of \<open>fofoca-protocol/src\<close>.
  An \<open>Instant\<close> is a number of nanoseconds. The hash maps are association lists; the order in which
  the code iterates over one is that of the list, and nothing proved here depends on it. The
  accounting of the byte budgets is the invariant \<open>ra_inv\<close>, kept by every operation.
\<close>

subsection \<open>Limits\<close>

definition MAX_LOGICAL_BODY_BYTES :: nat where "MAX_LOGICAL_BODY_BYTES = 67108864"
definition REASSEMBLY_GROUP_MAX_BYTES :: nat where "REASSEMBLY_GROUP_MAX_BYTES = 2 * MAX_LOGICAL_BODY_BYTES"
definition REASSEMBLY_AUTHOR_BUDGET_BYTES :: nat where "REASSEMBLY_AUTHOR_BUDGET_BYTES = 3 * MAX_LOGICAL_BODY_BYTES"
definition REASSEMBLY_TOTAL_BUDGET_BYTES :: nat where "REASSEMBLY_TOTAL_BUDGET_BYTES = 6 * MAX_LOGICAL_BODY_BYTES"
definition REASSEMBLY_STALE_SECS :: nat where "REASSEMBLY_STALE_SECS = 300"
definition REASSEMBLY_MAX_GROUP_LIFETIME_SECS :: nat where "REASSEMBLY_MAX_GROUP_LIFETIME_SECS = 3600"
definition REASSEMBLY_SLOT_OVERHEAD_BYTES :: nat where "REASSEMBLY_SLOT_OVERHEAD_BYTES = 512"
definition REASSEMBLY_SLOT_MIN_CHARGE_BYTES :: nat where "REASSEMBLY_SLOT_MIN_CHARGE_BYTES = 2048"
definition REASSEMBLY_REPAIR_IDLE_SECS :: nat where "REASSEMBLY_REPAIR_IDLE_SECS = 60"
definition REASSEMBLY_REPAIR_MAX_IDXS :: nat where "REASSEMBLY_REPAIR_MAX_IDXS = 64"
definition SHARD_CACHE_BUDGET_BYTES :: nat where "SHARD_CACHE_BUDGET_BYTES = REASSEMBLY_GROUP_MAX_BYTES"

text \<open>\<open>now.duration_since(t).as_secs()\<close>.\<close>

definition secs_since :: "nat \<Rightarrow> nat \<Rightarrow> nat" where
  "secs_since now t = (now - t) div 1000000000"

definition slot_charge :: "nat \<Rightarrow> nat" where
  "slot_charge body_len = max (body_len + REASSEMBLY_SLOT_OVERHEAD_BYTES) REASSEMBLY_SLOT_MIN_CHARGE_BYTES"

subsection \<open>The store\<close>

datatype 'x shard_ingest = Buffered | Complete "'x gossip_message" | Dropped

record 'x partial_group =
  pg_total :: nat
  pg_kind :: message_kind
  pg_author :: ustring
  pg_slots :: "(nat \<times> ustring) list"
  pg_header :: "'x gossip_message option"
  pg_bytes :: nat
  pg_last_seen :: nat
  pg_created_at :: nat
  pg_last_repair :: "nat option"

type_synonym group_key = "ustring \<times> ustring"

definition pg_is_complete :: "'x partial_group \<Rightarrow> bool" where
  "pg_is_complete g = (length (pg_slots g) = pg_total g)"

record 'x reassembly_store =
  ra_groups :: "(group_key \<times> 'x partial_group) list"
  ra_author_bytes :: "(ustring \<times> nat) list"
  ra_total_bytes :: nat

definition ra_new :: "'x reassembly_store" where
  "ra_new = \<lparr>ra_groups = [], ra_author_bytes = [], ra_total_bytes = 0\<rparr>"

definition ra_evict :: "group_key \<Rightarrow> 'x reassembly_store \<Rightarrow> 'x partial_group option \<times> 'x reassembly_store" where
  "ra_evict key s =
     (case map_of (ra_groups s) key of
        None \<Rightarrow> (None, s)
      | Some g \<Rightarrow>
          (Some g,
           s\<lparr>ra_groups := AList.delete key (ra_groups s), ra_total_bytes := ra_total_bytes s - pg_bytes g,
             ra_author_bytes :=
               (case map_of (ra_author_bytes s) (fst key) of
                  None \<Rightarrow> ra_author_bytes s
                | Some a \<Rightarrow>
                    if a - pg_bytes g = 0 then AList.delete (fst key) (ra_author_bytes s)
                    else AList.update (fst key) (a - pg_bytes g) (ra_author_bytes s))\<rparr>))"

text \<open>\<open>Iterator::min_by_key\<close>: the first of the least.\<close>

fun min_by_key :: "('a \<Rightarrow> nat) \<Rightarrow> 'a list \<Rightarrow> 'a option" where
  "min_by_key f [] = None"
| "min_by_key f (x # xs) =
     (case min_by_key f xs of None \<Rightarrow> Some x | Some y \<Rightarrow> if f x \<le> f y then Some x else Some y)"

definition stalest_group_of :: "ustring \<Rightarrow> group_key \<Rightarrow> 'x reassembly_store \<Rightarrow> group_key option" where
  "stalest_group_of pubkey except s =
     map_option fst (min_by_key (\<lambda>(_, g). pg_last_seen g)
       (filter (\<lambda>(k, _). fst k = pubkey \<and> k \<noteq> except) (ra_groups s)))"

definition author_bytes_of :: "ustring \<Rightarrow> 'x reassembly_store \<Rightarrow> nat" where
  "author_bytes_of a s = (case map_of (ra_author_bytes s) a of None \<Rightarrow> 0 | Some n \<Rightarrow> n)"

lemma min_by_key_in: "min_by_key f xs = Some x \<Longrightarrow> x \<in> set xs"
  by (induction xs arbitrary: x) (auto split: option.splits if_splits)

lemma stalest_some:
  "stalest_group_of p e s = Some k \<Longrightarrow> k \<in> fst ` set (ra_groups s) \<and> fst k = p \<and> k \<noteq> e"
proof -
  assume "stalest_group_of p e s = Some k"
  then obtain g where "min_by_key (\<lambda>(_, g). pg_last_seen g)
      (filter (\<lambda>(k, _). fst k = p \<and> k \<noteq> e) (ra_groups s)) = Some (k, g)"
    by (auto simp: stalest_group_of_def)
  then have "(k, g) \<in> set (filter (\<lambda>(k, _). fst k = p \<and> k \<noteq> e) (ra_groups s))" by (rule min_by_key_in)
  then show ?thesis by force
qed

lemma evict_groups: "ra_groups (snd (ra_evict k s)) = AList.delete k (ra_groups s)"
  by (auto simp: ra_evict_def delete_id map_of_eq_None_iff split: option.split)

text \<open>The loop of \<open>admit\<close> over the author's other groups.\<close>

function ra_admit :: "group_key \<Rightarrow> nat \<Rightarrow> 'x reassembly_store \<Rightarrow> bool \<times> 'x reassembly_store" where
  "ra_admit key charge s =
     (if author_bytes_of (fst key) s + charge > REASSEMBLY_AUTHOR_BUDGET_BYTES
      then case stalest_group_of (fst key) key s of
          None \<Rightarrow> (False, s)
        | Some victim \<Rightarrow> ra_admit key charge (snd (ra_evict victim s))
      else (ra_total_bytes s + charge \<le> REASSEMBLY_TOTAL_BUDGET_BYTES, s))"
  by auto
termination
proof (relation "measure (\<lambda>(key, charge, s). length (ra_groups s))", goal_cases)
  case (2 key charge s victim)
  have "victim \<in> fst ` set (ra_groups s)" using stalest_some 2(2) by metis
  then have "length (AList.delete victim (ra_groups s)) < length (ra_groups s)"
    by (simp add: AList.delete_eq) (metis (mono_tags, lifting) case_prod_conv imageE length_filter_less prod.collapse)
  then show ?case by (simp add: evict_groups)
qed simp

declare ra_admit.simps [simp del]

definition synthesize_from :: "'x gossip_message \<Rightarrow> ustring \<Rightarrow> ustring \<Rightarrow> 'x gossip_message" where
  "synthesize_from envelope body group_id =
     envelope\<lparr>gm_id := group_id, gm_body := body, gm_shard := None, gm_seq := None, gm_prev := None, gm_parents := []\<rparr>"

definition synthesize_logical :: "'x partial_group \<Rightarrow> ustring \<Rightarrow> 'x gossip_message option" where
  "synthesize_logical g group_id =
     (case body_new (concat (map snd (pg_slots g))) of
        None \<Rightarrow> None
      | Some body \<Rightarrow> map_option (\<lambda>h. synthesize_from h body group_id) (pg_header g))"

text \<open>The group a shard joins or starts.\<close>

definition group_entry :: "'x gossip_message \<Rightarrow> shard \<Rightarrow> nat \<Rightarrow> 'x partial_group option \<Rightarrow> 'x partial_group" where
  "group_entry m sh now g =
     (case g of
        Some g \<Rightarrow> g
      | None \<Rightarrow>
          \<lparr>pg_total = sh_total sh, pg_kind = gm_kind m, pg_author = gm_author m, pg_slots = [], pg_header = None,
           pg_bytes = 0, pg_last_seen = now, pg_created_at = now, pg_last_repair = None\<rparr>)"

definition fill_slot :: "'x gossip_message \<Rightarrow> shard \<Rightarrow> nat \<Rightarrow> 'x partial_group \<Rightarrow> 'x partial_group" where
  "fill_slot m sh now g =
     g\<lparr>pg_last_seen := now, pg_bytes := pg_bytes g + slot_charge (byte_len (gm_body m)),
       pg_slots := bt_insert (sh_idx sh) (gm_body m) (pg_slots g),
       pg_header := (if sh_idx sh = 0 then Some m else pg_header g)\<rparr>"

definition ra_put :: "group_key \<Rightarrow> 'x partial_group \<Rightarrow> nat \<Rightarrow> 'x reassembly_store \<Rightarrow> 'x reassembly_store" where
  "ra_put key g charge s =
     s\<lparr>ra_groups := AList.update key g (ra_groups s),
       ra_author_bytes := AList.update (fst key) (author_bytes_of (fst key) s + charge) (ra_author_bytes s),
       ra_total_bytes := ra_total_bytes s + charge\<rparr>"

text \<open>The early returns of \<open>ingest\<close> about the group the shard names: the store they leave.\<close>

definition ra_refusal :: "'x gossip_message \<Rightarrow> shard \<Rightarrow> group_key \<Rightarrow> nat \<Rightarrow> 'x reassembly_store \<Rightarrow>
    'x reassembly_store option" where
  "ra_refusal m sh key charge s =
     (case map_of (ra_groups s) key of
        None \<Rightarrow> None
      | Some g \<Rightarrow>
          if pg_total g \<noteq> sh_total sh \<or> pg_kind g \<noteq> gm_kind m then Some s
          else if map_of (pg_slots g) (sh_idx sh) \<noteq> None then Some s
          else if pg_bytes g + charge > REASSEMBLY_GROUP_MAX_BYTES then Some (snd (ra_evict key s))
          else None)"

text \<open>Its end, after \<open>admit\<close>: the slot is filled, and a complete group leaves the store.\<close>

definition ra_fill :: "'x gossip_message \<Rightarrow> shard \<Rightarrow> group_key \<Rightarrow> nat \<Rightarrow> nat \<Rightarrow> 'x reassembly_store \<Rightarrow>
    'x shard_ingest \<times> 'x reassembly_store" where
  "ra_fill m sh key charge now s =
     (let g = fill_slot m sh now (group_entry m sh now (map_of (ra_groups s) key));
          s' = ra_put key g charge s
      in if \<not> pg_is_complete g then (Buffered, s')
         else (case synthesize_logical g (snd key) of Some logical \<Rightarrow> Complete logical | None \<Rightarrow> Dropped,
               snd (ra_evict key s')))"

definition ra_ingest :: "'x gossip_message \<Rightarrow> nat \<Rightarrow> 'x reassembly_store \<Rightarrow>
    'x shard_ingest \<times> 'x reassembly_store" where
  "ra_ingest m now s =
     (case gm_shard m of
        None \<Rightarrow> (Dropped, s)
      | Some sh \<Rightarrow>
          let key = (gm_pubkey m, sh_group sh); charge = slot_charge (byte_len (gm_body m)) in
          case ra_refusal m sh key charge s of
            Some s' \<Rightarrow> (Dropped, s')
          | None \<Rightarrow>
              (case ra_admit key charge s of
                 (False, s1) \<Rightarrow> (Dropped, s1)
               | (True, s1) \<Rightarrow> ra_fill m sh key charge now s1))"

definition is_stale :: "nat \<Rightarrow> 'x partial_group \<Rightarrow> bool" where
  "is_stale now g =
     (secs_since now (pg_last_seen g) \<ge> REASSEMBLY_STALE_SECS \<or>
      secs_since now (pg_created_at g) \<ge> REASSEMBLY_MAX_GROUP_LIFETIME_SECS)"

definition ra_sweep_stale :: "nat \<Rightarrow> 'x reassembly_store \<Rightarrow> nat \<times> 'x reassembly_store" where
  "ra_sweep_stale now s =
     (let stale = map fst (filter (\<lambda>(_, g). is_stale now g) (ra_groups s)) in
      (length stale, fold (\<lambda>key s. snd (ra_evict key s)) stale s))"

definition ra_forget :: "ustring \<Rightarrow> ustring \<Rightarrow> 'x reassembly_store \<Rightarrow> 'x reassembly_store" where
  "ra_forget pubkey grp s = snd (ra_evict (pubkey, grp) s)"

record repair_ticket =
  rt_author :: ustring
  rt_group :: ustring
  rt_missing :: "nat list"

definition wants_repair :: "nat \<Rightarrow> 'x partial_group \<Rightarrow> bool" where
  "wants_repair now g =
     (\<not> (pg_total g \<le> LOGGED_SHARD_GROUP_MAX_TOTAL \<or> pg_is_complete g) \<and>
      \<not> (secs_since now (pg_last_seen g) < REASSEMBLY_REPAIR_IDLE_SECS \<or>
         (case pg_last_repair g of None \<Rightarrow> False | Some at \<Rightarrow> secs_since now at < REASSEMBLY_REPAIR_IDLE_SECS)))"

definition missing_idxs :: "'x partial_group \<Rightarrow> nat list" where
  "missing_idxs g =
     take REASSEMBLY_REPAIR_MAX_IDXS (filter (\<lambda>idx. map_of (pg_slots g) idx = None) [0..<pg_total g])"

definition ra_repair_tickets :: "nat \<Rightarrow> 'x reassembly_store \<Rightarrow> repair_ticket list \<times> 'x reassembly_store" where
  "ra_repair_tickets now s =
     (map (\<lambda>(k, g). \<lparr>rt_author = pg_author g, rt_group = snd k, rt_missing = missing_idxs g\<rparr>)
        (filter (\<lambda>(k, g). wants_repair now g) (ra_groups s)),
      s\<lparr>ra_groups := map (\<lambda>(k, g). (k, if wants_repair now g then g\<lparr>pg_last_repair := Some now\<rparr> else g)) (ra_groups s)\<rparr>)"

subsection \<open>The cache of frames sent\<close>

record cached_group =
  cg_group :: ustring
  cg_frames :: "bytes list"

record shard_cache =
  sc_groups :: "cached_group list"
  sc_bytes :: nat

definition frames_size :: "bytes list \<Rightarrow> nat" where
  "frames_size fs = sum_list (map length fs)"

fun sc_trim :: "cached_group list \<Rightarrow> nat \<Rightarrow> cached_group list \<times> nat" where
  "sc_trim (a # b # gs) n =
     (if n > SHARD_CACHE_BUDGET_BYTES then sc_trim (b # gs) (n - frames_size (cg_frames a)) else (a # b # gs, n))"
| "sc_trim gs n = (gs, n)"

definition sc_insert :: "ustring \<Rightarrow> bytes list \<Rightarrow> shard_cache \<Rightarrow> shard_cache" where
  "sc_insert grp frames c =
     (case sc_trim (sc_groups c @ [\<lparr>cg_group = grp, cg_frames = frames\<rparr>]) (sc_bytes c + frames_size frames) of
        (gs, n) \<Rightarrow> c\<lparr>sc_groups := gs, sc_bytes := n\<rparr>)"

definition sc_frames :: "ustring \<Rightarrow> nat list \<Rightarrow> shard_cache \<Rightarrow> bytes list" where
  "sc_frames grp idxs c =
     (case find (\<lambda>e. cg_group e = grp) (sc_groups c) of
        None \<Rightarrow> []
      | Some cached \<Rightarrow>
          List.map_filter (\<lambda>idx. if idx < length (cg_frames cached) then Some (cg_frames cached ! idx) else None) idxs)"

subsection \<open>Accounting\<close>

definition wsum :: "(group_key \<Rightarrow> bool) \<Rightarrow> (group_key \<times> 'x partial_group) list \<Rightarrow> nat" where
  "wsum P gs = sum_list (map (\<lambda>(k, g). if P k then pg_bytes g else 0) gs)"

lemma wsum_simps [simp]:
  "wsum P [] = 0" "wsum P (e # gs) = (if P (fst e) then pg_bytes (snd e) else 0) + wsum P gs"
  by (auto simp: wsum_def split: prod.split)

lemma wsum_delete:
  "distinct (map fst gs) \<Longrightarrow> map_of gs k = Some g \<Longrightarrow>
   wsum P gs = wsum P (AList.delete k gs) + (if P k then pg_bytes g else 0)"
proof (induction gs)
  case (Cons e gs)
  then show ?case by (cases "fst e = k") (auto simp: delete_id map_of_eq_None_iff split: if_splits)
qed simp

lemma wsum_update:
  "distinct (map fst gs) \<Longrightarrow>
   wsum P (AList.update k h gs) + (case map_of gs k of None \<Rightarrow> 0 | Some g \<Rightarrow> if P k then pg_bytes g else 0) =
   wsum P gs + (if P k then pg_bytes h else 0)"
proof (induction gs)
  case (Cons e gs)
  then show ?case by (cases e; cases "fst e = k") (auto simp: map_of_eq_None_iff split: option.splits)
qed simp

text \<open>The limit of a group is checked only for a shard that joins one.\<close>

definition group_ok :: "'x partial_group \<Rightarrow> bool" where
  "group_ok g \<longleftrightarrow>
     sorted_wrt (<) (map fst (pg_slots g)) \<and> pg_slots g \<noteq> [] \<and> \<not> pg_is_complete g \<and>
     pg_bytes g = sum_list (map (\<lambda>(_, b). slot_charge (byte_len b)) (pg_slots g)) \<and>
     (length (pg_slots g) = 1 \<or> pg_bytes g \<le> REASSEMBLY_GROUP_MAX_BYTES)"

definition ra_accounted :: "'x reassembly_store \<Rightarrow> bool" where
  "ra_accounted s \<longleftrightarrow>
     distinct (map fst (ra_groups s)) \<and>
     (\<forall>a. author_bytes_of a s = wsum (\<lambda>k. fst k = a) (ra_groups s)) \<and>
     (\<forall>a. map_of (ra_author_bytes s) a \<noteq> Some 0) \<and> distinct (map fst (ra_author_bytes s)) \<and>
     ra_total_bytes s = wsum (\<lambda>_. True) (ra_groups s)"

definition ra_inv :: "'x reassembly_store \<Rightarrow> bool" where
  "ra_inv s \<longleftrightarrow>
     ra_accounted s \<and> (\<forall>(k, g) \<in> set (ra_groups s). group_ok g) \<and>
     (\<forall>a. author_bytes_of a s \<le> REASSEMBLY_AUTHOR_BUDGET_BYTES) \<and>
     ra_total_bytes s \<le> REASSEMBLY_TOTAL_BUDGET_BYTES"

lemma wsum_all: "wsum P gs \<le> wsum (\<lambda>_. True) gs"
  by (induction gs) auto

lemma evict_accounted:
  assumes acc: "ra_accounted s" and g: "map_of (ra_groups s) k = Some g"
  defines "s' \<equiv> snd (ra_evict k s)"
  shows "ra_accounted s' \<and> ra_total_bytes s' + pg_bytes g = ra_total_bytes s \<and>
    (\<forall>a. author_bytes_of a s' + (if a = fst k then pg_bytes g else 0) = author_bytes_of a s)"
proof -
  have d: "distinct (map fst (ra_groups s))" "distinct (map fst (ra_author_bytes s))"
    "\<And>a. author_bytes_of a s = wsum (\<lambda>k. fst k = a) (ra_groups s)" "\<And>a. map_of (ra_author_bytes s) a \<noteq> Some 0"
    "ra_total_bytes s = wsum (\<lambda>_. True) (ra_groups s)"
    using acc unfolding ra_accounted_def by blast+
  note w = wsum_delete [OF d(1) g]
  have groups: "ra_groups s' = AList.delete k (ra_groups s)" unfolding s'_def by (rule evict_groups)
  have total: "ra_total_bytes s' = ra_total_bytes s - pg_bytes g" using g by (simp add: s'_def ra_evict_def)
  have ab: "ra_author_bytes s' =
      (case map_of (ra_author_bytes s) (fst k) of
         None \<Rightarrow> ra_author_bytes s
       | Some a \<Rightarrow> if a - pg_bytes g = 0 then AList.delete (fst k) (ra_author_bytes s)
                   else AList.update (fst k) (a - pg_bytes g) (ra_author_bytes s))"
    using g by (simp add: s'_def ra_evict_def)
  have author: "author_bytes_of a s' = author_bytes_of a s - (if a = fst k then pg_bytes g else 0)" for a
    by (auto simp: author_bytes_of_def ab delete_conv' update_conv' split: option.split)
  have "author_bytes_of a s' = wsum (\<lambda>k. fst k = a) (ra_groups s')" for a
    using w [of "\<lambda>k. fst k = a"] d(3) [of a] by (auto simp: author groups)
  moreover have "map_of (ra_author_bytes s') a \<noteq> Some 0" for a
    using d(4) [of a] unfolding ab
    by (auto simp: delete_conv' update_conv' simp del: map_of_eq_Some_iff split: option.split)
  moreover have "distinct (map fst (ra_author_bytes s'))"
    using d(2) by (auto simp: ab distinct_delete distinct_update split: option.split)
  ultimately have "ra_accounted s'"
    using d w [of "\<lambda>_. True"] unfolding ra_accounted_def by (simp add: groups total distinct_delete)
  moreover have "author_bytes_of a s' + (if a = fst k then pg_bytes g else 0) = author_bytes_of a s" for a
    using w [of "\<lambda>k. fst k = a"] d(3) [of a] by (auto simp: author)
  ultimately show ?thesis using w [of "\<lambda>_. True"] d(5) by (simp add: total)
qed

lemma evict_none: "map_of (ra_groups s) k = None \<Longrightarrow> ra_evict k s = (None, s)"
  by (simp add: ra_evict_def)

lemma in_delete_subset: "set (AList.delete k gs) \<subseteq> set gs"
  by (auto simp: AList.delete_eq)

lemma evict_inv:
  assumes inv: "ra_inv s" shows "ra_inv (snd (ra_evict k s))"
proof (cases "map_of (ra_groups s) k")
  case None
  then show ?thesis using inv by (simp add: evict_none)
next
  case (Some g)
  have acc: "ra_accounted s" using inv unfolding ra_inv_def by blast
  note e = evict_accounted [OF acc Some]
  have "author_bytes_of a (snd (ra_evict k s)) \<le> author_bytes_of a s" for a using e by (metis le_add1)
  moreover have "ra_total_bytes (snd (ra_evict k s)) \<le> ra_total_bytes s" using e by linarith
  ultimately show ?thesis
    using inv e in_delete_subset [of k "ra_groups s"] unfolding ra_inv_def evict_groups
    by (meson order_trans subsetD)
qed

text \<open>Making room takes away groups of the author, never the one that is filled.\<close>

lemma admit_spec:
  assumes "ra_inv s" "ra_admit key charge s = (ok, s')"
  shows "ra_inv s' \<and>
    (\<exists>V. (\<forall>k \<in> V. fst k = fst key \<and> k \<noteq> key) \<and> ra_groups s' = filter (\<lambda>(k, _). k \<notin> V) (ra_groups s)) \<and>
    (ok \<longrightarrow> author_bytes_of (fst key) s' + charge \<le> REASSEMBLY_AUTHOR_BUDGET_BYTES \<and>
       ra_total_bytes s' + charge \<le> REASSEMBLY_TOTAL_BUDGET_BYTES)"
  using assms
proof (induction key charge s rule: ra_admit.induct)
  case (1 key charge s)
  show ?case
  proof (cases "author_bytes_of (fst key) s + charge > REASSEMBLY_AUTHOR_BUDGET_BYTES")
    case False
    then have "s' = s" "ok \<longleftrightarrow> ra_total_bytes s + charge \<le> REASSEMBLY_TOTAL_BUDGET_BYTES"
      using 1(3) by (auto simp: ra_admit.simps)
    then show ?thesis using False 1(2) by (intro conjI exI [of _ "{}"]) auto
  next
    case over: True
    show ?thesis
    proof (cases "stalest_group_of (fst key) key s")
      case None
      then have "s' = s" "\<not> ok" using 1(3) over by (simp_all add: ra_admit.simps)
      then show ?thesis using 1(2) by (intro conjI exI [of _ "{}"]) auto
    next
      case (Some v)
      have v: "fst v = fst key" "v \<noteq> key" using stalest_some [OF Some] by blast+
      have run: "ra_admit key charge (snd (ra_evict v s)) = (ok, s')"
        using 1(3) over Some by (simp add: ra_admit.simps [of key charge s])
      note IH = 1(1) [OF over Some evict_inv [OF 1(2)] run]
      then obtain V where V: "\<forall>k \<in> V. fst k = fst key \<and> k \<noteq> key"
        "ra_groups s' = filter (\<lambda>(k, _). k \<notin> V) (ra_groups (snd (ra_evict v s)))" by blast
      have "ra_groups s' = filter (\<lambda>(k, _). k \<notin> insert v V) (ra_groups s)"
        unfolding V(2) evict_groups by (auto simp: AList.delete_eq intro: filter_cong)
      then show ?thesis using IH V(1) v by (intro conjI exI [of _ "insert v V"]) auto
    qed
  qed
qed

lemma map_of_filter_keys: "map_of (filter (\<lambda>(k, _). P k) gs) k = (if P k then map_of gs k else None)"
  by (induction gs) auto

subsection \<open>What ingesting does\<close>

lemma slot_charge_pos [simp]: "0 < slot_charge n"
  by (simp add: slot_charge_def REASSEMBLY_SLOT_MIN_CHARGE_BYTES_def)

lemma fill_slot_simps [simp]:
  "pg_total (fill_slot m sh now g) = pg_total g" "pg_kind (fill_slot m sh now g) = pg_kind g"
  "pg_author (fill_slot m sh now g) = pg_author g"
  "pg_slots (fill_slot m sh now g) = bt_insert (sh_idx sh) (gm_body m) (pg_slots g)"
  "pg_header (fill_slot m sh now g) = (if sh_idx sh = 0 then Some m else pg_header g)"
  "pg_bytes (fill_slot m sh now g) = pg_bytes g + slot_charge (byte_len (gm_body m))"
  by (simp_all add: fill_slot_def)

lemma put_groups [simp]: "ra_groups (ra_put key g charge s) = AList.update key g (ra_groups s)"
  by (simp add: ra_put_def)

definition charge_of :: "'x gossip_message \<Rightarrow> nat" where
  "charge_of m = slot_charge (byte_len (gm_body m))"

definition key_of :: "'x gossip_message \<Rightarrow> group_key" where
  "key_of m = (gm_pubkey m, case gm_shard m of Some sh \<Rightarrow> sh_group sh | None \<Rightarrow> [])"

lemma key_of_simps [simp]:
  "fst (key_of m) = gm_pubkey m" "gm_shard m = Some sh \<Longrightarrow> snd (key_of m) = sh_group sh"
  by (simp_all add: key_of_def)

lemma ingest_shard:
  "gm_shard m = Some sh \<Longrightarrow> ra_ingest m now s =
     (case ra_refusal m sh (key_of m) (charge_of m) s of
        Some s' \<Rightarrow> (Dropped, s')
      | None \<Rightarrow>
          (case ra_admit (key_of m) (charge_of m) s of
             (False, s1) \<Rightarrow> (Dropped, s1)
           | (True, s1) \<Rightarrow> ra_fill m sh (key_of m) (charge_of m) now s1))"
proof -
  assume sh: "gm_shard m = Some sh"
  then have "key_of m = (gm_pubkey m, sh_group sh)" by (simp add: key_of_def)
  then show ?thesis unfolding ra_ingest_def charge_of_def Let_def by (simp only: sh option.case)
qed

lemma refusal_cases:
  "ra_refusal m sh key charge s = Some s' \<Longrightarrow> s' = s \<or> s' = snd (ra_evict key s)"
  by (auto simp: ra_refusal_def split: option.splits if_splits)

definition slot_free :: "'x gossip_message \<Rightarrow> shard \<Rightarrow> nat \<Rightarrow> 'x partial_group \<Rightarrow> bool" where
  "slot_free m sh charge g \<longleftrightarrow>
     pg_total g = sh_total sh \<and> pg_kind g = gm_kind m \<and> map_of (pg_slots g) (sh_idx sh) = None \<and>
     pg_bytes g + charge \<le> REASSEMBLY_GROUP_MAX_BYTES"

lemma refusal_none:
  "ra_refusal m sh key charge s = None \<longleftrightarrow> (\<forall>g. map_of (ra_groups s) key = Some g \<longrightarrow> slot_free m sh charge g)"
  by (auto simp: ra_refusal_def slot_free_def split: option.splits)

text \<open>Ingesting leaves the store, drops the group that is over its limit, is refused by the budgets,
  or fills a slot.\<close>

lemma ingest_cases:
  assumes "ra_ingest m now s = (r, s')"
  obtains (untouched) "r = Dropped" "s' = s"
  | (overfull) "r = Dropped" "s' = snd (ra_evict (key_of m) s)"
  | (refused) "r = Dropped" "ra_admit (key_of m) (charge_of m) s = (False, s')"
  | (filled) sh s1 where "gm_shard m = Some sh" "ra_admit (key_of m) (charge_of m) s = (True, s1)"
      "\<And>g. map_of (ra_groups s) (key_of m) = Some g \<Longrightarrow> slot_free m sh (charge_of m) g"
      "ra_fill m sh (key_of m) (charge_of m) now s1 = (r, s')"
proof (cases "gm_shard m")
  case None
  then show thesis using assms untouched by (simp add: ra_ingest_def)
next
  case (Some sh)
  note i = assms [unfolded ingest_shard [OF Some]]
  show thesis
  proof (cases "ra_refusal m sh (key_of m) (charge_of m) s")
    case (Some s0)
    then show thesis using i refusal_cases [OF Some] untouched overfull by auto
  next
    case None
    obtain ok s1 where ad: "ra_admit (key_of m) (charge_of m) s = (ok, s1)" by fastforce
    then show thesis
      using i None refused filled [OF Some] refusal_none [of m sh "key_of m" "charge_of m" s] by (cases ok) auto
  qed
qed


subsection \<open>Budgets\<close>

definition ra_bounded :: "'x reassembly_store \<Rightarrow> bool" where
  "ra_bounded s \<longleftrightarrow>
     ra_accounted s \<and> (\<forall>a. author_bytes_of a s \<le> REASSEMBLY_AUTHOR_BUDGET_BYTES) \<and>
     ra_total_bytes s \<le> REASSEMBLY_TOTAL_BUDGET_BYTES"

lemma ra_inv_split: "ra_inv s \<longleftrightarrow> ra_bounded s \<and> (\<forall>(k, g) \<in> set (ra_groups s). group_ok g)"
  by (auto simp: ra_inv_def ra_bounded_def)

lemma ra_put_author:
  "author_bytes_of a (ra_put key g charge s) = author_bytes_of a s + (if a = fst key then charge else 0)"
  by (auto simp: author_bytes_of_def ra_put_def update_conv')

lemma ra_put_accounted:
  assumes acc: "ra_accounted s" and pos: "0 < charge"
    and g: "pg_bytes g = (case map_of (ra_groups s) key of None \<Rightarrow> 0 | Some g \<Rightarrow> pg_bytes g) + charge"
  shows "ra_accounted (ra_put key g charge s)"
proof -
  have d: "distinct (map fst (ra_groups s))" "distinct (map fst (ra_author_bytes s))"
    "\<And>a. author_bytes_of a s = wsum (\<lambda>k. fst k = a) (ra_groups s)" "\<And>a. map_of (ra_author_bytes s) a \<noteq> Some 0"
    "ra_total_bytes s = wsum (\<lambda>_. True) (ra_groups s)"
    using acc unfolding ra_accounted_def by blast+
  have w: "wsum P (AList.update key g (ra_groups s)) = wsum P (ra_groups s) + (if P key then charge else 0)" for P
    using wsum_update [OF d(1), of P key g] g by (auto simp del: map_of_eq_Some_iff split: option.splits if_splits)
  have "author_bytes_of a (ra_put key g charge s) = wsum (\<lambda>k. fst k = a) (AList.update key g (ra_groups s))" for a
    by (simp add: w ra_put_author d(3))
  moreover have "map_of (ra_author_bytes (ra_put key g charge s)) a \<noteq> Some 0" for a
    using d(4) [of a] pos by (auto simp: ra_put_def update_conv' simp del: map_of_eq_Some_iff)
  ultimately show ?thesis
    using d(1,2,5) w unfolding ra_accounted_def by (simp add: distinct_update) (simp add: ra_put_def distinct_update)
qed

lemma ra_put_bounded:
  assumes "ra_bounded s" "0 < charge"
    and "pg_bytes g = (case map_of (ra_groups s) key of None \<Rightarrow> 0 | Some g \<Rightarrow> pg_bytes g) + charge"
    and room: "author_bytes_of (fst key) s + charge \<le> REASSEMBLY_AUTHOR_BUDGET_BYTES"
      "ra_total_bytes s + charge \<le> REASSEMBLY_TOTAL_BUDGET_BYTES"
  shows "ra_bounded (ra_put key g charge s)"
  using assms ra_put_accounted [of s charge g key] unfolding ra_bounded_def
  by (simp add: ra_put_author) (simp add: ra_put_def)

lemma evict_bounded: "ra_bounded s \<Longrightarrow> ra_bounded (snd (ra_evict k s))"
proof (cases "map_of (ra_groups s) k")
  case (Some g)
  assume b: "ra_bounded s"
  then have acc: "ra_accounted s" unfolding ra_bounded_def by blast
  note e = evict_accounted [OF acc Some]
  have "author_bytes_of a (snd (ra_evict k s)) \<le> author_bytes_of a s" for a using e by (metis le_add1)
  moreover have "ra_total_bytes (snd (ra_evict k s)) \<le> ra_total_bytes s" using e by linarith
  ultimately show ?thesis using b e unfolding ra_bounded_def by (meson order_trans)
qed (simp add: evict_none)

text \<open>The charges of a group's slots.\<close>

definition slots_charge :: "(nat \<times> ustring) list \<Rightarrow> nat" where
  "slots_charge xs = sum_list (map (\<lambda>(_, b). slot_charge (byte_len b)) xs)"

lemma slots_charge_insert:
  "map_of xs i = None \<Longrightarrow> slots_charge (bt_insert i b xs) = slots_charge xs + slot_charge (byte_len b)"
  by (induction xs) (auto simp: slots_charge_def)

lemma length_bt_insert:
  "map_of xs i = None \<Longrightarrow> length (bt_insert i b xs) = Suc (length xs)"
  by (induction xs) auto

lemma fill_ok:
  assumes "\<And>g0. g = Some g0 \<Longrightarrow> group_ok g0 \<and> slot_free m sh (charge_of m) g0"
    and h_def: "h = fill_slot m sh now (group_entry m sh now g)"
  shows "pg_bytes h = (case g of None \<Rightarrow> 0 | Some g \<Rightarrow> pg_bytes g) + charge_of m"
    "pg_is_complete h \<or> group_ok h"
proof -
  have ne: "bt_insert i b xs \<noteq> []" for i and b :: ustring and xs
    by (cases xs) (auto split: if_splits)
  show "pg_bytes h = (case g of None \<Rightarrow> 0 | Some g \<Rightarrow> pg_bytes g) + charge_of m"
    by (simp add: h_def group_entry_def charge_of_def split: option.split)
  show "pg_is_complete h \<or> group_ok h"
  proof (cases g)
    case None
    then show ?thesis
      by (auto simp: h_def group_entry_def group_ok_def charge_of_def)
  next
    case (Some g0)
    then have "group_ok g0" "slot_free m sh (charge_of m) g0" using assms(1) by blast+
    then show ?thesis
      unfolding group_ok_def slot_free_def
      by (auto simp: h_def Some group_entry_def ne charge_of_def bt_insert_sorted
          slots_charge_insert [unfolded slots_charge_def])
  qed
qed


lemma in_update_subset: "set (AList.update k h gs) \<subseteq> insert (k, h) (set gs)"
  by (induction gs) auto

lemma ra_fill_inv:
  assumes inv: "ra_inv s" and run: "ra_fill m sh key (charge_of m) now s = (r, s')"
    and free: "\<And>g. map_of (ra_groups s) key = Some g \<Longrightarrow> slot_free m sh (charge_of m) g"
    and room: "author_bytes_of (fst key) s + charge_of m \<le> REASSEMBLY_AUTHOR_BUDGET_BYTES"
      "ra_total_bytes s + charge_of m \<le> REASSEMBLY_TOTAL_BUDGET_BYTES"
  shows "ra_inv s'"
proof -
  define h where "h = fill_slot m sh now (group_entry m sh now (map_of (ra_groups s) key))"
  define s2 where "s2 = ra_put key h (charge_of m) s"
  have b: "ra_bounded s" and ok: "\<And>k g. (k, g) \<in> set (ra_groups s) \<Longrightarrow> group_ok g"
    using inv unfolding ra_inv_split by blast+
  have old: "group_ok g \<and> slot_free m sh (charge_of m) g" if "map_of (ra_groups s) key = Some g" for g
    using that free ok map_of_SomeD by metis
  note h = fill_ok [OF old h_def]
  have b2: "ra_bounded s2" unfolding s2_def
    by (rule ra_put_bounded [OF b _ h(1) room]) (simp_all add: charge_of_def)
  have others: "set (ra_groups s2) \<subseteq> set (ra_groups s) \<union> {(key, h)}"
    unfolding s2_def using in_update_subset by simp
  show ?thesis
  proof (cases "pg_is_complete h")
    case True
    then have "s' = snd (ra_evict key s2)"
      using run by (simp add: ra_fill_def Let_def h_def [symmetric] s2_def [symmetric])
    moreover have "(k, g) \<in> set (ra_groups (snd (ra_evict key s2))) \<Longrightarrow> group_ok g" for k g
      using others ok by (subst (asm) evict_groups) (simp add: AList.delete_eq, blast)
    ultimately show ?thesis using evict_bounded [OF b2] unfolding ra_inv_split by blast
  next
    case False
    then have "s' = s2"
      using run by (simp add: ra_fill_def Let_def h_def [symmetric] s2_def [symmetric])
    moreover have "(k, g) \<in> set (ra_groups s2) \<Longrightarrow> group_ok g" for k g
      using others ok h(2) False by blast
    ultimately show ?thesis using b2 unfolding ra_inv_split by blast
  qed
qed

lemma admit_group:
  assumes "ra_inv s" "ra_admit key charge s = (ok, s')"
  shows "map_of (ra_groups s') key = map_of (ra_groups s) key"
proof -
  obtain V where V: "\<forall>k \<in> V. fst k = fst key \<and> k \<noteq> key" "ra_groups s' = filter (\<lambda>(k, _). k \<notin> V) (ra_groups s)"
    using admit_spec [OF assms] by blast
  then have "key \<notin> V" by blast
  then show ?thesis by (simp add: V(2) map_of_filter_keys)
qed

lemma ingest_inv:
  assumes inv: "ra_inv s" and run: "ra_ingest m now s = (r, s')"
  shows "ra_inv s'"
  using run
proof (cases rule: ingest_cases)
  case untouched
  then show ?thesis using inv by simp
next
  case overfull
  then show ?thesis using inv evict_inv by simp
next
  case refused
  then show ?thesis using inv admit_spec by blast
next
  case (filled sh s1)
  note ad = admit_spec [OF inv filled(2)] admit_group [OF inv filled(2)]
  then show ?thesis using filled(3) by (intro ra_fill_inv [OF _ filled(4)]) simp_all
qed

lemma sweep_inv: "ra_inv s \<Longrightarrow> ra_inv (snd (ra_sweep_stale now s))"
proof -
  have "ra_inv s \<Longrightarrow> ra_inv (fold (\<lambda>key s. snd (ra_evict key s)) ks s)" for ks and s :: "'a reassembly_store"
    by (induction ks arbitrary: s) (simp_all add: evict_inv)
  then show "ra_inv s \<Longrightarrow> ra_inv (snd (ra_sweep_stale now s))" by (simp add: ra_sweep_stale_def Let_def)
qed

lemma repair_inv:
  assumes "ra_inv s" shows "ra_inv (snd (ra_repair_tickets now s))"
proof -
  let ?f = "\<lambda>(k, g). (k, if wants_repair now g then g\<lparr>pg_last_repair := Some now\<rparr> else g)"
  have "wsum P (map ?f gs) = wsum P gs" for P and gs :: "(group_key \<times> 'a partial_group) list"
    by (induction gs) auto
  moreover have "fst \<circ> ?f = (fst :: group_key \<times> 'a partial_group \<Rightarrow> group_key)" by auto
  moreover have "group_ok (if wants_repair now g then g\<lparr>pg_last_repair := Some now\<rparr> else g) = group_ok g"
    for g :: "'a partial_group"
    by (simp add: group_ok_def pg_is_complete_def)
  ultimately show ?thesis using assms
    by (auto simp: ra_inv_def ra_accounted_def ra_repair_tickets_def author_bytes_of_def)
qed

datatype 'x ra_event = Shard_in "'x gossip_message" nat | Sweep nat | Forget ustring ustring | Repair nat

fun ra_step :: "'x ra_event \<Rightarrow> 'x reassembly_store \<Rightarrow> 'x reassembly_store" where
  "ra_step (Shard_in m now) s = snd (ra_ingest m now s)"
| "ra_step (Sweep now) s = snd (ra_sweep_stale now s)"
| "ra_step (Forget pubkey grp) s = ra_forget pubkey grp s"
| "ra_step (Repair now) s = snd (ra_repair_tickets now s)"

lemma ra_new_inv: "ra_inv ra_new"
  by (simp add: ra_inv_def ra_new_def ra_accounted_def author_bytes_of_def)

lemma step_inv: "ra_inv s \<Longrightarrow> ra_inv (ra_step e s)"
  by (cases e) (auto simp: ra_forget_def evict_inv sweep_inv repair_inv intro: ingest_inv [OF _ surjective_pairing])

lemma run_inv: "ra_inv s \<Longrightarrow> ra_inv (fold ra_step evs s)"
  by (induction evs arbitrary: s) (simp_all add: step_inv)

text \<open>C28: whatever shards arrive, are swept, forgotten or asked for, the byte counters are the sums
  of what the store holds, per author and in all, within the author's and the total budget; no group
  kept is empty or complete, its charge is that of its slots, and only a group of one shard can be over
  the limit of a group.\<close>

theorem reassembly_budgets:
  "let s = fold ra_step evs (ra_new :: 'x reassembly_store) in
   distinct (map fst (ra_groups s)) \<and>
   ra_total_bytes s = sum_list (map (\<lambda>(_, g). pg_bytes g) (ra_groups s)) \<and>
   ra_total_bytes s \<le> REASSEMBLY_TOTAL_BUDGET_BYTES \<and>
   (\<forall>a. author_bytes_of a s = sum_list (map (\<lambda>(_, g). pg_bytes g) (filter (\<lambda>(k, _). fst k = a) (ra_groups s))) \<and>
        author_bytes_of a s \<le> REASSEMBLY_AUTHOR_BUDGET_BYTES) \<and>
   list_all (\<lambda>(_, g). pg_slots g \<noteq> [] \<and> \<not> pg_is_complete g \<and>
       pg_bytes g = sum_list (map (\<lambda>(_, b). slot_charge (byte_len b)) (pg_slots g)) \<and>
       (length (pg_slots g) = 1 \<or> pg_bytes g \<le> REASSEMBLY_GROUP_MAX_BYTES)) (ra_groups s)"
proof -
  define s where "s = fold ra_step evs (ra_new :: 'x reassembly_store)"
  have inv: "ra_inv s" unfolding s_def by (rule run_inv [OF ra_new_inv])
  have all: "wsum (\<lambda>_. True) gs = sum_list (map (\<lambda>(_, g). pg_bytes g) gs)"
    and one: "wsum (\<lambda>k. fst k = a) gs = sum_list (map (\<lambda>(_, g). pg_bytes g) (filter (\<lambda>(k, _). fst k = a) gs))"
    for gs :: "(group_key \<times> 'x partial_group) list" and a
    by (induction gs) auto
  show ?thesis unfolding Let_def s_def [symmetric]
    using inv unfolding ra_inv_def ra_accounted_def group_ok_def list_all_iff all one by fast
qed

end
