(* ===== verification/ReassemblyBodies.thy ===== *)
theory ReassemblyBodies
  imports Reassembly "HOL-Library.Multiset"
begin

text \<open>
  What comes out of the reassembly store of \<open>reassembly.rs\<close>: one author never touches another's groups,
  a completed body is the bodies of the shards that arrived, in order, every group within the budgets
  completes, repair asks for what is missing, and the cache of sent frames keeps its budget.
\<close>

subsection \<open>Authors apart\<close>

lemma admit_others:
  assumes "ra_inv s" "ra_admit key charge s = (ok, s')" and a: "a \<noteq> fst key"
  shows "filter (\<lambda>(k, _). fst k = a) (ra_groups s') = filter (\<lambda>(k, _). fst k = a) (ra_groups s)"
proof -
  obtain V where V: "\<forall>k \<in> V. fst k = fst key \<and> k \<noteq> key" "ra_groups s' = filter (\<lambda>(k, _). k \<notin> V) (ra_groups s)"
    using admit_spec [OF assms(1,2)] by blast
  then have "fst k = a \<Longrightarrow> k \<notin> V" for k using a by blast
  then show ?thesis unfolding V(2) by (auto intro: filter_cong)
qed

lemma delete_others:
  "a \<noteq> fst key \<Longrightarrow> filter (\<lambda>(k, _). fst k = a) (AList.delete key gs) = filter (\<lambda>(k, _). fst k = a) gs"
  by (auto simp: AList.delete_eq intro: filter_cong)

lemma update_others:
  "a \<noteq> fst key \<Longrightarrow> filter (\<lambda>(k, _). fst k = a) (AList.update key g gs) = filter (\<lambda>(k, _). fst k = a) gs"
  by (induction gs) auto

lemma ra_fill_groups:
  assumes "ra_fill m sh key charge now s = (r, s')" and a: "a \<noteq> fst key"
  shows "filter (\<lambda>(k, _). fst k = a) (ra_groups s') = filter (\<lambda>(k, _). fst k = a) (ra_groups s)"
  using assms(1) by (auto simp: ra_fill_def Let_def evict_groups delete_others [OF a] update_others [OF a] split: if_splits)

lemma ingest_others:
  assumes inv: "ra_inv s" and run: "ra_ingest m now s = (r, s')" and a: "a \<noteq> gm_pubkey m"
  shows "filter (\<lambda>(k, _). fst k = a) (ra_groups s') = filter (\<lambda>(k, _). fst k = a) (ra_groups s)"
  using run
proof (cases rule: ingest_cases)
  case (filled sh s1)
  then show ?thesis
    using admit_others [OF inv filled(2)] ra_fill_groups [OF filled(4)] a by simp
next
  case refused
  then show ?thesis using admit_others [OF inv refused(2)] a by simp
qed (simp_all add: evict_groups delete_others a)

lemma author_bytes_sum:
  "ra_inv s \<Longrightarrow> author_bytes_of a s = sum_list (map (\<lambda>(_, g). pg_bytes g) (filter (\<lambda>(k, _). fst k = a) (ra_groups s)))"
proof -
  have "wsum (\<lambda>k. fst k = a) gs = sum_list (map (\<lambda>(_, g). pg_bytes g) (filter (\<lambda>(k, _). fst k = a) gs))"
    for gs :: "(group_key \<times> 'a partial_group) list"
    by (induction gs) auto
  then show "ra_inv s \<Longrightarrow> ?thesis" by (simp add: ra_inv_def ra_accounted_def)
qed

text \<open>a shard of one author, whatever it holds and however full the store is, leaves the groups
  of every other author and what they are charged as they were: the room made for it is the author's own.\<close>

theorem reassembly_isolated:
  assumes "a \<noteq> gm_pubkey m" and "s = fold ra_step evs ra_new" and "ra_ingest m now s = (r, s')"
  shows "filter (\<lambda>(k, _). fst k = a) (ra_groups s') = filter (\<lambda>(k, _). fst k = a) (ra_groups s) \<and>
    author_bytes_of a s' = author_bytes_of a s"
proof -
  have inv: "ra_inv s" unfolding assms(2) by (rule run_inv [OF ra_new_inv])
  show ?thesis
    using ingest_others [OF inv assms(3,1)] ingest_inv [OF inv assms(3)] inv by (simp add: author_bytes_sum)
qed

subsection \<open>Where a body comes from\<close>

definition slot_msg :: "'x gossip_message set \<Rightarrow> group_key \<Rightarrow> 'x partial_group \<Rightarrow> nat \<Rightarrow> ustring \<Rightarrow>
    'x gossip_message \<Rightarrow> bool" where
  "slot_msg H k g i b m \<longleftrightarrow>
     m \<in> H \<and> gm_pubkey m = fst k \<and> gm_shard m = Some \<lparr>sh_group = snd k, sh_idx = i, sh_total = pg_total g\<rparr> \<and>
     gm_kind m = pg_kind g \<and> gm_body m = b \<and> (i = 0 \<longrightarrow> pg_header g = Some m)"

definition slots_from :: "'x gossip_message set \<Rightarrow> group_key \<Rightarrow> 'x partial_group \<Rightarrow> bool" where
  "slots_from H k g \<longleftrightarrow> (\<forall>(i, b) \<in> set (pg_slots g). \<exists>m. slot_msg H k g i b m)"

definition ra_from :: "'x gossip_message set \<Rightarrow> 'x reassembly_store \<Rightarrow> bool" where
  "ra_from H s \<longleftrightarrow> (\<forall>(k, g) \<in> set (ra_groups s). slots_from H k g)"

lemma slots_from_mono: "slots_from H k g \<Longrightarrow> H \<subseteq> H' \<Longrightarrow> slots_from H' k g"
  unfolding slots_from_def slot_msg_def by fast

lemma ra_from_sub: "ra_from H s \<Longrightarrow> H \<subseteq> H' \<Longrightarrow> set (ra_groups s') \<subseteq> set (ra_groups s) \<Longrightarrow> ra_from H' s'"
proof -
  assume a: "ra_from H s" "H \<subseteq> H'" "set (ra_groups s') \<subseteq> set (ra_groups s)"
  have "slots_from H' k g" if "(k, g) \<in> set (ra_groups s')" for k g
    using a that slots_from_mono [OF _ a(2)] unfolding ra_from_def by blast
  then show ?thesis unfolding ra_from_def by blast
qed

lemma set_bt_insert: "map_of xs i = None \<Longrightarrow> set (bt_insert i b xs) = insert (i, b) (set xs)"
  by (induction xs) (auto split: if_splits)

lemma bt_insert_not_Nil: "bt_insert i b xs \<noteq> []"
  by (cases xs) (auto split: if_splits)

lemma fill_from:
  assumes old: "\<And>g0. g = Some g0 \<Longrightarrow> slots_from H (key_of m) g0 \<and> slot_free m sh (charge_of m) g0"
    and m: "m \<in> H" "gm_shard m = Some sh"
  shows "slots_from H (key_of m) (fill_slot m sh now (group_entry m sh now g))"
proof -
  define e where "e = group_entry m sh now g"
  have e: "slots_from H (key_of m) e" "map_of (pg_slots e) (sh_idx sh) = None" "pg_total e = sh_total sh"
    "pg_kind e = gm_kind m"
    using old by (auto simp: e_def group_entry_def slots_from_def slot_free_def split: option.split)
  have "i \<noteq> sh_idx sh" if "(i, b) \<in> set (pg_slots e)" for i b
    using that e(2) by (auto simp: map_of_eq_None_iff image_iff)
  then have keep: "slot_msg H (key_of m) (fill_slot m sh now e) i b m'"
    if "slot_msg H (key_of m) e i b m'" "(i, b) \<in> set (pg_slots e)" for i b m'
    using that(1) \<open>\<And>i b. (i, b) \<in> set (pg_slots e) \<Longrightarrow> i \<noteq> sh_idx sh\<close> [OF that(2)]
    by (auto simp: slot_msg_def)
  have new: "slot_msg H (key_of m) (fill_slot m sh now e) (sh_idx sh) (gm_body m) m"
    using m e(3,4) by (simp add: slot_msg_def)
  show ?thesis
    using e(1) keep new unfolding e_def [symmetric] slots_from_def fill_slot_simps set_bt_insert [OF e(2)] by fast
qed

lemma ingest_from:
  assumes inv: "ra_inv s" and f: "ra_from H s" and run: "ra_ingest m now s = (r, s')"
  shows "ra_from (insert m H) s'"
  using run
proof (cases rule: ingest_cases)
  case untouched
  then show ?thesis using ra_from_sub [OF f] by blast
next
  case overfull
  then show ?thesis using ra_from_sub [OF f] in_delete_subset by (metis evict_groups subset_insertI)
next
  case refused
  then show ?thesis using ra_from_sub [OF f] admit_spec [OF inv refused(2)] by (auto simp: subset_iff)
next
  case (filled sh s1)
  have sub: "set (ra_groups s1) \<subseteq> set (ra_groups s)" using admit_spec [OF inv filled(2)] by auto
  have f1: "ra_from (insert m H) s1" by (rule ra_from_sub [OF f _ sub]) blast
  define h where "h = fill_slot m sh now (group_entry m sh now (map_of (ra_groups s1) (key_of m)))"
  have "slots_from (insert m H) (key_of m) h" unfolding h_def
  proof (rule fill_from [OF _ _ filled(1)])
    fix g assume "map_of (ra_groups s1) (key_of m) = Some g"
    then show "slots_from (insert m H) (key_of m) g \<and> slot_free m sh (charge_of m) g"
      using f1 filled(3) admit_group [OF inv filled(2)] map_of_SomeD unfolding ra_from_def by fastforce
  qed simp
  then have "ra_from (insert m H) (ra_put (key_of m) h charge s1)" for charge
    using f1 in_update_subset [of "key_of m" h "ra_groups s1"] unfolding ra_from_def put_groups by blast
  moreover have "set (ra_groups s') \<subseteq> set (ra_groups (ra_put (key_of m) h (charge_of m) s1))"
    using filled(4) in_delete_subset
    by (auto simp: ra_fill_def Let_def h_def [symmetric] evict_groups AList.delete_eq split: if_splits)
  ultimately show ?thesis using ra_from_sub by blast
qed


fun arrivals :: "'x ra_event list \<Rightarrow> 'x gossip_message list" where
  "arrivals [] = []"
| "arrivals (Shard_in m now # evs) = m # arrivals evs"
| "arrivals (_ # evs) = arrivals evs"

lemma fold_evict_sub: "set (ra_groups (fold (\<lambda>key s. snd (ra_evict key s)) ks s)) \<subseteq> set (ra_groups s)"
proof (induction ks arbitrary: s)
  case (Cons k ks)
  have "set (ra_groups (snd (ra_evict k s))) \<subseteq> set (ra_groups s)" by (simp add: evict_groups in_delete_subset)
  then show ?case using Cons [of "snd (ra_evict k s)"] by simp
qed simp

lemma repair_from: "ra_from H s \<Longrightarrow> ra_from H (snd (ra_repair_tickets now s))"
proof -
  assume f: "ra_from H s"
  have "slots_from H k (g\<lparr>pg_last_repair := t\<rparr>) = slots_from H k g" for k g t
    by (simp add: slots_from_def slot_msg_def)
  then have "slots_from H k (if wants_repair now g then g\<lparr>pg_last_repair := Some now\<rparr> else g)"
    if "(k, g) \<in> set (ra_groups s)" for k g
    using f that unfolding ra_from_def by auto
  then show ?thesis unfolding ra_from_def by (auto simp: ra_repair_tickets_def)
qed

lemma step_from:
  assumes "ra_inv s" "ra_from H s" shows "ra_from (H \<union> set (arrivals [e])) (ra_step e s)"
proof (cases e)
  case (Shard_in m now)
  then show ?thesis using ingest_from [OF assms surjective_pairing] by simp
next
  case (Sweep now)
  then show ?thesis
    by (simp, intro ra_from_sub [OF assms(2) order_refl]) (simp add: ra_sweep_stale_def Let_def fold_evict_sub)
next
  case (Forget p g)
  then show ?thesis
    by (simp, intro ra_from_sub [OF assms(2) order_refl]) (simp add: ra_forget_def evict_groups in_delete_subset)
next
  case (Repair now)
  then show ?thesis using repair_from [OF assms(2)] by simp
qed

lemma arrivals_cons: "set (arrivals (e # evs)) = set (arrivals [e]) \<union> set (arrivals evs)"
  by (cases e) auto

lemma run_from: "ra_inv s \<Longrightarrow> ra_from H s \<Longrightarrow> ra_from (H \<union> set (arrivals evs)) (fold ra_step evs s)"
proof (induction evs arbitrary: H s)
  case (Cons e evs)
  show ?case
    using Cons(1) [OF step_inv [OF Cons(2)] step_from [OF Cons(2,3)]]
    unfolding arrivals_cons [of e evs] by (simp add: Un_assoc)
qed simp

lemma full_slots:
  assumes "sorted_wrt (<) (map fst xs)" and "fst ` set xs \<subseteq> {..<length xs}"
  shows "map fst xs = [0..<length xs]"
proof -
  have "distinct (map fst xs)" using assms(1) strict_sorted_iff by blast
  then have "card (fst ` set xs) = length xs" by (metis distinct_card length_map list.set_map)
  then have "fst ` set xs = {0..<length xs}" using assms(2)
    by (metis atLeast0LessThan card_lessThan card_subset_eq finite_lessThan)
  then show ?thesis using assms(1)
    by (metis list.set_map set_upt strict_sorted_equal sorted_wrt_upt)
qed

lemma synthesize_sound:
  assumes g: "slots_from H (p, grp) g" "sorted_wrt (<) (map fst (pg_slots g))" "pg_is_complete g"
      "pg_slots g \<noteq> []" and h: "synthesize_logical g grp = Some l"
    and bound: "\<And>m sh. m \<in> H \<Longrightarrow> gm_shard m = Some sh \<Longrightarrow> sh_idx sh < sh_total sh"
  shows "\<exists>ms. length ms = pg_total g \<and> set ms \<subseteq> H \<and>
    (\<forall>i \<in> {..<length ms}. gm_shard (ms ! i) = Some \<lparr>sh_group = grp, sh_idx = i, sh_total = pg_total g\<rparr> \<and>
       gm_pubkey (ms ! i) = p \<and> gm_kind (ms ! i) = pg_kind g) \<and>
    l = synthesize_from (hd ms) (concat (map gm_body ms)) grp"
proof -
  let ?n = "pg_total g"
  define Q where "Q = slot_msg H (p, grp) g"
  have Q: "m \<in> H \<and> gm_shard m = Some \<lparr>sh_group = grp, sh_idx = i, sh_total = ?n\<rparr> \<and> gm_pubkey m = p \<and>
      gm_kind m = pg_kind g \<and> gm_body m = b \<and> (i = 0 \<longrightarrow> pg_header g = Some m)" if "Q i b m" for i b m
    using that by (simp add: Q_def slot_msg_def)
  have n: "length (pg_slots g) = ?n" using g(3) by (simp add: pg_is_complete_def)
  have ex: "\<exists>m. Q i b m" if "(i, b) \<in> set (pg_slots g)" for i b
    using that g(1) unfolding slots_from_def Q_def by blast
  have "i < ?n" if "(i, b) \<in> set (pg_slots g)" for i b
    using ex [OF that] Q bound by fastforce
  then have "fst ` set (pg_slots g) \<subseteq> {..<?n}" by auto
  then have keys: "map fst (pg_slots g) = [0..<?n]" using full_slots [OF g(2)] n by simp
  define ms where "ms = map (\<lambda>(i, b). SOME m. Q i b m) (pg_slots g)"
  have at: "Q i (map snd (pg_slots g) ! i) (ms ! i)" if "i < ?n" for i
  proof -
    have "fst (pg_slots g ! i) = i" using keys that n by (metis add_0 diff_zero length_map nth_map nth_upt)
    then have "pg_slots g ! i = (i, map snd (pg_slots g) ! i)" using that n by (simp add: prod_eq_iff)
    then have "(i, map snd (pg_slots g) ! i) \<in> set (pg_slots g)" using that n by (metis nth_mem)
    then have "Q i (map snd (pg_slots g) ! i) (SOME m. Q i (map snd (pg_slots g) ! i) m)"
      using ex someI_ex [of "Q i (map snd (pg_slots g) ! i)"] by blast
    moreover have "ms ! i = (SOME m. Q i (map snd (pg_slots g) ! i) m)"
      using that n \<open>fst (pg_slots g ! i) = i\<close> by (simp add: ms_def case_prod_beta)
    ultimately show ?thesis by simp
  qed
  have len: "length ms = ?n" by (simp add: ms_def n)
  have "map gm_body ms = map snd (pg_slots g)"
    by (rule nth_equalityI) (use Q [OF at] n len in \<open>simp_all\<close>)
  moreover have "0 < ?n" using g(4) n by (metis length_greater_0_conv)
  then have "pg_header g = Some (hd ms)" using Q [OF at [of 0]] len hd_conv_nth [of ms] by fastforce
  ultimately have "l = synthesize_from (hd ms) (concat (map gm_body ms)) grp"
    using h by (simp add: synthesize_logical_def body_new_def split: if_splits)
  then show ?thesis using Q [OF at] len by (intro exI [of _ ms]) (auto simp: set_conv_nth)
qed


definition idx_in_range :: "'x gossip_message \<Rightarrow> bool" where
  "idx_in_range m = (case gm_shard m of None \<Rightarrow> True | Some sh \<Rightarrow> sh_idx sh < sh_total sh)"

text \<open>C6: a completed body is made of shards that arrived: one for every index, all of them from the
  author's key, of the group, the kind and the total of the last one, their bodies joined in the order
  of their indices; the rest of the message is the first shard's. The group has left the store.
  The parser lets no shard through whose index is out of range.\<close>

theorem reassembly_sound:
  assumes "list_all idx_in_range (m # arrivals evs)" and "gm_shard m = Some sh"
    and "ra_ingest m now (fold ra_step evs ra_new) = (Complete l, s')"
  shows "\<exists>ms. length ms = sh_total sh \<and> set ms \<subseteq> set (m # arrivals evs) \<and>
    (\<forall>i \<in> {..<length ms}.
       gm_shard (ms ! i) = Some \<lparr>sh_group = sh_group sh, sh_idx = i, sh_total = sh_total sh\<rparr> \<and>
       gm_pubkey (ms ! i) = gm_pubkey m \<and> gm_kind (ms ! i) = gm_kind m) \<and>
    l = synthesize_from (hd ms) (concat (map gm_body ms)) (sh_group sh) \<and>
    map_of (ra_groups s') (gm_pubkey m, sh_group sh) = None"
  using assms(3)
proof (cases rule: ingest_cases)
  case (filled sh' s1)
  define s where "s = fold ra_step evs (ra_new :: 'a reassembly_store)"
  define H where "H = set (m # arrivals evs)"
  define h where "h = fill_slot m sh now (group_entry m sh now (map_of (ra_groups s1) (key_of m)))"
  have key: "key_of m = (gm_pubkey m, sh_group sh)" using assms(2) by (simp add: key_of_def)
  have sh': "sh' = sh" using filled(1) assms(2) by simp
  have inv: "ra_inv s" unfolding s_def by (rule run_inv [OF ra_new_inv])
  have "ra_from {} (ra_new :: 'a reassembly_store)" by (simp add: ra_from_def ra_new_def)
  from run_from [OF ra_new_inv this, of evs] have "ra_from (set (arrivals evs)) s" by (simp add: s_def)
  then have "ra_from H s" by (rule ra_from_sub) (simp_all add: H_def subset_insertI)
  note ad = admit_spec [OF inv filled(2) [folded s_def]] admit_group [OF inv filled(2) [folded s_def]]
  have free: "slot_free m sh (charge_of m) g \<and> group_ok g \<and> slots_from H (key_of m) g"
    if "map_of (ra_groups s1) (key_of m) = Some g" for g
  proof -
    have "map_of (ra_groups s) (key_of m) = Some g" using that ad(2) by metis
    moreover from this have "(key_of m, g) \<in> set (ra_groups s)" by (rule map_of_SomeD)
    ultimately show ?thesis
      using filled(3) [folded s_def] inv \<open>ra_from H s\<close> unfolding sh' ra_inv_def ra_from_def by blast
  qed
  have tot: "pg_total h = sh_total sh" "pg_kind h = gm_kind m"
    using free by (auto simp: h_def group_entry_def slot_free_def simp del: map_of_eq_Some_iff split: option.split)
  have from_H: "slots_from H (key_of m) h" unfolding h_def
    by (rule fill_from [OF _ _ assms(2)]) (use free in blast, simp add: H_def)
  moreover have "sorted_wrt (<) (map fst (pg_slots h))" "pg_slots h \<noteq> []"
    using free by (auto simp: h_def group_entry_def group_ok_def bt_insert_sorted bt_insert_not_Nil
        simp del: map_of_eq_Some_iff split: option.split)
  moreover have "pg_is_complete h" "synthesize_logical h (sh_group sh) = Some l"
    "s' = snd (ra_evict (key_of m) (ra_put (key_of m) h (charge_of m) s1))"
    using filled(4) by (auto simp: ra_fill_def Let_def sh' h_def key split: if_splits option.splits)
  moreover have "sh_idx sh < sh_total sh" if "x \<in> H" "gm_shard x = Some sh" for x sh
    using assms(1) that by (auto simp: H_def idx_in_range_def list_all_iff split: option.splits)
  ultimately obtain ms where "length ms = pg_total h" "set ms \<subseteq> H"
    "\<forall>i \<in> {..<length ms}. gm_shard (ms ! i) = Some \<lparr>sh_group = sh_group sh, sh_idx = i, sh_total = pg_total h\<rparr> \<and>
       gm_pubkey (ms ! i) = gm_pubkey m \<and> gm_kind (ms ! i) = pg_kind h"
    "l = synthesize_from (hd ms) (concat (map gm_body ms)) (sh_group sh)"
    using synthesize_sound [of H "gm_pubkey m" "sh_group sh" h l] unfolding key by metis
  then show ?thesis
    by (intro exI [of _ ms]) (simp add: tot H_def \<open>s' = _\<close> evict_groups delete_conv' key)
qed simp_all

subsection \<open>A group within the budgets completes\<close>

fun ra_ingest_all :: "('x gossip_message \<times> nat) list \<Rightarrow> 'x reassembly_store \<Rightarrow>
    'x shard_ingest list \<times> 'x reassembly_store" where
  "ra_ingest_all [] s = ([], s)"
| "ra_ingest_all ((m, now) # ms) s =
     (case ra_ingest m now s of (r, s1) \<Rightarrow> case ra_ingest_all ms s1 of (rs, s2) \<Rightarrow> (r # rs, s2))"

lemma ra_ingest_all_snoc:
  "ra_ingest_all (ms @ [(m, now)]) s =
     (case ra_ingest_all ms s of (rs, s1) \<Rightarrow> case ra_ingest m now s1 of (r, s2) \<Rightarrow> (rs @ [r], s2))"
  by (induction ms arbitrary: s) (auto split: prod.split)

lemma ingest_room:
  assumes "gm_shard m = Some sh"
    and "\<And>g. map_of (ra_groups s) (key_of m) = Some g \<Longrightarrow> slot_free m sh (charge_of m) g"
    and "author_bytes_of (gm_pubkey m) s + charge_of m \<le> REASSEMBLY_AUTHOR_BUDGET_BYTES"
    and "ra_total_bytes s + charge_of m \<le> REASSEMBLY_TOTAL_BUDGET_BYTES"
  shows "ra_ingest m now s = ra_fill m sh (key_of m) (charge_of m) now s"
proof -
  have "ra_refusal m sh (key_of m) (charge_of m) s = None" using assms(2) by (simp add: refusal_none)
  moreover have "ra_admit (key_of m) (charge_of m) s = (True, s)" using assms(3,4) by (simp add: ra_admit.simps)
  ultimately show ?thesis by (simp add: ingest_shard [OF assms(1)])
qed

definition slot_of :: "'x gossip_message \<Rightarrow> nat \<times> ustring" where
  "slot_of m = (case gm_shard m of Some sh \<Rightarrow> sh_idx sh | None \<Rightarrow> 0, gm_body m)"

text \<open>The group after the shards \<open>xs\<close>, in whatever order they came.\<close>

definition group_of :: "'x gossip_message list \<Rightarrow> 'x partial_group \<Rightarrow> bool" where
  "group_of xs g \<longleftrightarrow>
     set (pg_slots g) = slot_of ` set xs \<and> length (pg_slots g) = length xs \<and> sorted_wrt (<) (map fst (pg_slots g)) \<and>
     pg_bytes g = sum_list (map charge_of xs) \<and>
     (\<forall>m \<in> set xs. fst (slot_of m) = 0 \<longrightarrow> pg_header g = Some m)"

lemma fill_group_of:
  assumes "group_of xs g" and sh: "gm_shard m = Some sh" and new: "\<forall>x \<in> set xs. fst (slot_of x) \<noteq> sh_idx sh"
  shows "group_of (xs @ [m]) (fill_slot m sh now g) \<and> map_of (pg_slots g) (sh_idx sh) = None"
proof -
  have free: "map_of (pg_slots g) (sh_idx sh) = None"
    using assms(1) new by (auto simp: group_of_def map_of_eq_None_iff)
  have "slot_of m = (sh_idx sh, gm_body m)" using sh by (simp add: slot_of_def)
  then show ?thesis
    using assms free
    by (auto simp: group_of_def set_bt_insert length_bt_insert bt_insert_sorted charge_of_def)
qed

lemma group_of_inj:
  assumes "set xs = slot_of ` set ms" "sorted_wrt (<) (map fst xs)" "length xs = length ms"
    and "\<forall>i \<in> {..<length ms}. fst (slot_of (ms ! i)) = i"
  shows "xs = map slot_of ms"
proof -
  have "map fst (map slot_of ms) = [0..<length ms]"
    by (rule nth_equalityI) (use assms(4) in simp_all)
  then have "sorted_wrt (<) (map fst (map slot_of ms))" by simp
  moreover have same: "set (map slot_of ms) = set xs" using assms(1) by simp
  then have "set (map fst xs) = set (map fst (map slot_of ms))" by (metis list.set_map)
  ultimately have keys: "map fst xs = map fst (map slot_of ms)" using assms(2) strict_sorted_equal by blast
  have "inj_on fst (set xs \<union> set (map slot_of ms))"
    using assms(2) same strict_sorted_iff distinct_map by (metis sup.idem)
  then show ?thesis using keys inj_on_map_eq_map by blast
qed

text \<open>What is sent: \<open>ms\<close> are the shards of a group, in order; \<open>arr\<close> is what arrives of them.\<close>

definition shards_of :: "ustring \<Rightarrow> ustring \<Rightarrow> message_kind \<Rightarrow> 'x gossip_message list \<Rightarrow> bool" where
  "shards_of p grp kind ms \<longleftrightarrow>
     (\<forall>i \<in> {..<length ms}. gm_shard (ms ! i) = Some \<lparr>sh_group = grp, sh_idx = i, sh_total = length ms\<rparr> \<and>
        gm_pubkey (ms ! i) = p \<and> gm_kind (ms ! i) = kind \<and> body_new (gm_body (ms ! i)) \<noteq> None)"

lemma shards_of_in:
  assumes "shards_of p grp kind ms" "m \<in> set ms"
  obtains i where "i < length ms" "m = ms ! i" "gm_shard m = Some \<lparr>sh_group = grp, sh_idx = i, sh_total = length ms\<rparr>"
    "gm_pubkey m = p" "gm_kind m = kind" "key_of m = (p, grp)" "fst (slot_of m) = i"
  using assms by (auto simp: shards_of_def in_set_conv_nth key_of_def slot_of_def)

definition room_for :: "ustring \<Rightarrow> nat \<Rightarrow> 'x reassembly_store \<Rightarrow> bool" where
  "room_for p n s \<longleftrightarrow>
     author_bytes_of p s + n \<le> REASSEMBLY_AUTHOR_BUDGET_BYTES \<and> ra_total_bytes s + n \<le> REASSEMBLY_TOTAL_BUDGET_BYTES"

lemma author_append:
  assumes "ra_inv s" "ra_inv s0" "ra_groups s = ra_groups s0 @ [(key, g)]"
  shows "author_bytes_of a s = author_bytes_of a s0 + (if a = fst key then pg_bytes g else 0)"
    "ra_total_bytes s = ra_total_bytes s0 + pg_bytes g"
proof -
  have "wsum P (gs @ [(key, g)]) = wsum P gs + (if P key then pg_bytes g else 0)"
    for P and gs :: "(group_key \<times> 'a partial_group) list"
    by (induction gs) auto
  then show "author_bytes_of a s = author_bytes_of a s0 + (if a = fst key then pg_bytes g else 0)"
    "ra_total_bytes s = ra_total_bytes s0 + pg_bytes g"
    using assms by (simp_all add: ra_inv_def ra_accounted_def)
qed

lemma same_groups:
  assumes "ra_inv s" "ra_inv s0" "ra_groups s = ra_groups s0"
  shows "author_bytes_of a s = author_bytes_of a s0" "ra_total_bytes s = ra_total_bytes s0"
  using assms by (simp_all add: ra_inv_def ra_accounted_def)

lemma update_append: "key \<notin> fst ` set gs \<Longrightarrow> AList.update key h (gs @ [(key, g)]) = gs @ [(key, h)]"
  by (induction gs) auto

lemma update_new: "key \<notin> fst ` set gs \<Longrightarrow> AList.update key h gs = gs @ [(key, h)]"
  by (induction gs) auto

lemma delete_append: "key \<notin> fst ` set gs \<Longrightarrow> AList.delete key (gs @ [(key, g)]) = gs"
  by (induction gs) auto

text \<open>After a part \<open>xs\<close> of the shards.\<close>

definition part_way :: "'x reassembly_store \<Rightarrow> group_key \<Rightarrow> message_kind \<Rightarrow> nat \<Rightarrow> 'x gossip_message list \<Rightarrow>
    'x reassembly_store \<Rightarrow> bool" where
  "part_way s0 key kind n xs s \<longleftrightarrow>
     ra_inv s \<and>
     (if xs = [] then ra_groups s = ra_groups s0
      else \<exists>g. ra_groups s = ra_groups s0 @ [(key, g)] \<and> group_of xs g \<and> pg_total g = n \<and> pg_kind g = kind)"


lemma part_way_room:
  assumes "part_way s0 key kind n xs s" "ra_inv s0" "room_for (fst key) (sum_list (map charge_of xs) + c) s0"
  shows "author_bytes_of (fst key) s + c \<le> REASSEMBLY_AUTHOR_BUDGET_BYTES \<and>
    ra_total_bytes s + c \<le> REASSEMBLY_TOTAL_BUDGET_BYTES"
proof (cases "xs = []")
  case True
  then show ?thesis
    using assms same_groups [of s s0] by (simp add: part_way_def room_for_def)
next
  case False
  then obtain g where g: "ra_inv s" "ra_groups s = ra_groups s0 @ [(key, g)]" "group_of xs g"
    using assms(1) by (auto simp: part_way_def)
  then have "pg_bytes g = sum_list (map charge_of xs)" by (simp add: group_of_def)
  then show ?thesis
    using author_append [OF g(1) assms(2) g(2)] assms(3) by (simp add: room_for_def add.assoc)
qed

lemma part_way_entry:
  assumes pw: "part_way s0 (key_of m) (gm_kind m) (sh_total sh) xs s" and new_key: "key_of m \<notin> fst ` set (ra_groups s0)"
  defines "e \<equiv> \<lambda>now. group_entry m sh now (map_of (ra_groups s) (key_of m))"
  shows "group_of xs (e now)" "pg_total (e now) = sh_total sh" "pg_kind (e now) = gm_kind m"
    "xs = [] \<Longrightarrow> map_of (ra_groups s) (key_of m) = None"
    "xs \<noteq> [] \<Longrightarrow> map_of (ra_groups s) (key_of m) = Some (e now)"
    "AList.update (key_of m) h (ra_groups s) = ra_groups s0 @ [(key_of m, h)]"
proof -
  have none: "map_of (ra_groups s0) (key_of m) = None" using new_key by (simp add: map_of_eq_None_iff)
  have *: "group_of xs (e now) \<and> pg_total (e now) = sh_total sh \<and> pg_kind (e now) = gm_kind m \<and>
      (xs = [] \<longrightarrow> map_of (ra_groups s) (key_of m) = None) \<and>
      (xs \<noteq> [] \<longrightarrow> map_of (ra_groups s) (key_of m) = Some (e now)) \<and>
      AList.update (key_of m) h (ra_groups s) = ra_groups s0 @ [(key_of m, h)]"
  proof (cases "xs = []")
    case True
    then show ?thesis
      using pw none update_new [OF new_key]
      by (simp add: part_way_def e_def group_entry_def group_of_def)
  next
    case False
    then obtain g where g: "ra_groups s = ra_groups s0 @ [(key_of m, g)]" "group_of xs g" "pg_total g = sh_total sh"
      "pg_kind g = gm_kind m"
      using pw by (auto simp: part_way_def)
    have "map_of (ra_groups s) (key_of m) = Some g" unfolding g(1) map_of_append
      by (subst map_add_Some_iff) (simp add: none)
    then show ?thesis using g False update_append [OF new_key] by (simp add: e_def group_entry_def)
  qed
  show "group_of xs (e now)" "pg_total (e now) = sh_total sh" "pg_kind (e now) = gm_kind m"
    "xs = [] \<Longrightarrow> map_of (ra_groups s) (key_of m) = None"
    "xs \<noteq> [] \<Longrightarrow> map_of (ra_groups s) (key_of m) = Some (e now)"
    "AList.update (key_of m) h (ra_groups s) = ra_groups s0 @ [(key_of m, h)]"
    using * by blast+
qed

lemma part_step:
  assumes pw: "part_way s0 (key_of m) (gm_kind m) (sh_total sh) xs s" and inv0: "ra_inv s0"
    and new_key: "key_of m \<notin> fst ` set (ra_groups s0)" and sh: "gm_shard m = Some sh"
    and new: "\<forall>x \<in> set xs. fst (slot_of x) \<noteq> sh_idx sh"
    and room: "room_for (gm_pubkey m) (sum_list (map charge_of (xs @ [m]))) s0"
    and limit: "sum_list (map charge_of (xs @ [m])) \<le> REASSEMBLY_GROUP_MAX_BYTES"
  obtains h where "group_of (xs @ [m]) h" "pg_total h = sh_total sh" "pg_kind h = gm_kind m"
    "ra_ingest m now s =
       (if length (xs @ [m]) \<noteq> sh_total sh then (Buffered, ra_put (key_of m) h (charge_of m) s)
        else (case synthesize_logical h (sh_group sh) of Some l \<Rightarrow> Complete l | None \<Rightarrow> Dropped,
              snd (ra_evict (key_of m) (ra_put (key_of m) h (charge_of m) s))))"
    "ra_groups (ra_put (key_of m) h (charge_of m) s) = ra_groups s0 @ [(key_of m, h)]"
proof -
  let ?e = "group_entry m sh now (map_of (ra_groups s) (key_of m))"
  note e = part_way_entry [OF pw new_key]
  define h where "h = fill_slot m sh now ?e"
  have h: "group_of (xs @ [m]) h" "map_of (pg_slots ?e) (sh_idx sh) = None"
    using fill_group_of [OF e(1) sh new] unfolding h_def by blast+
  have "slot_free m sh (charge_of m) g" if "map_of (ra_groups s) (key_of m) = Some g" for g
  proof -
    have "g = ?e" using that by (simp add: group_entry_def)
    then show ?thesis using e(1-3) [of now] h(2) limit by (simp add: slot_free_def group_of_def)
  qed
  then have "ra_ingest m now s = ra_fill m sh (key_of m) (charge_of m) now s"
    using part_way_room [OF pw inv0, of "charge_of m"] room by (intro ingest_room [OF sh]) simp_all
  moreover have "length (pg_slots h) = length (xs @ [m])" using h(1) by (simp add: group_of_def)
  moreover have "pg_total h = sh_total sh" "pg_kind h = gm_kind m" using e(2,3) by (simp_all add: h_def)
  ultimately show thesis
    using that [of h] h(1) e(6) sh
    by (simp add: ra_fill_def Let_def h_def [symmetric] pg_is_complete_def)
qed


definition shard_like :: "group_key \<Rightarrow> message_kind \<Rightarrow> nat \<Rightarrow> 'x gossip_message \<Rightarrow> bool" where
  "shard_like key kind n m \<longleftrightarrow>
     (\<exists>sh. gm_shard m = Some sh \<and> sh_total sh = n \<and> fst (slot_of m) = sh_idx sh \<and> sh_group sh = snd key) \<and>
     gm_pubkey m = fst key \<and> key_of m = key \<and> gm_kind m = kind"

lemma part_run:
  assumes inv0: "ra_inv s0" and new_key: "key \<notin> fst ` set (ra_groups s0)"
    and "\<forall>m \<in> fst ` set arr. shard_like key kind n m"
    and "distinct (map (fst \<circ> slot_of \<circ> fst) arr)"
    and "room_for (fst key) (sum_list (map (charge_of \<circ> fst) arr)) s0"
    and "sum_list (map (charge_of \<circ> fst) arr) \<le> REASSEMBLY_GROUP_MAX_BYTES"
    and "length arr < n"
  shows "\<exists>s. ra_ingest_all arr s0 = (replicate (length arr) Buffered, s) \<and> part_way s0 key kind n (map fst arr) s"
  using assms(3-)
proof (induction arr rule: rev_induct)
  case Nil
  then show ?case using inv0 by (simp add: part_way_def)
next
  case (snoc a arr)
  obtain m now where a: "a = (m, now)" by fastforce
  obtain s where s: "ra_ingest_all arr s0 = (replicate (length arr) Buffered, s)"
    "part_way s0 key kind n (map fst arr) s"
    using snoc by (auto simp: room_for_def)
  obtain sh where sh: "gm_shard m = Some sh" "sh_total sh = n" "fst (slot_of m) = sh_idx sh"
    and m: "gm_pubkey m = fst key" "key_of m = key" "gm_kind m = kind"
    using snoc(2) by (auto simp: a shard_like_def)
  have new: "\<forall>x \<in> set (map fst arr). fst (slot_of x) \<noteq> sh_idx sh"
    using snoc(3) sh(3) by (force simp: a)
  obtain h where h: "group_of (map fst arr @ [m]) h" "pg_total h = n" "pg_kind h = kind"
    "ra_ingest m now s = (Buffered, ra_put key h (charge_of m) s)"
    "ra_groups (ra_put key h (charge_of m) s) = ra_groups s0 @ [(key, h)]"
    using snoc(4,5,6)
    by (auto intro: part_step [OF _ inv0 _ sh(1) new, unfolded m sh(2), OF s(2) new_key, of now]
        simp: a room_for_def comp_def)
  have "ra_inv (ra_put key h (charge_of m) s)" using ingest_inv [OF _ h(4)] s(2) by (simp add: part_way_def)
  then have "part_way s0 key kind n (map fst arr @ [m]) (ra_put key h (charge_of m) s)"
    using h(1-3,5) by (simp add: part_way_def)
  then show ?case by (simp add: a ra_ingest_all_snoc s(1) h(4) replicate_append_same)
qed

lemma shards_distinct: "shards_of p grp kind ms \<Longrightarrow> map (fst \<circ> slot_of) ms = [0..<length ms]"
  by (rule nth_equalityI) (simp_all add: shards_of_def slot_of_def)

lemma body_new_concat:
  "\<forall>b \<in> set bs. body_new b \<noteq> None \<Longrightarrow> body_new (concat bs) = Some (concat bs)"
  by (induction bs) (auto simp: body_new_def split: if_splits)

lemma synthesize_full:
  assumes ms: "shards_of p grp kind ms" "ms \<noteq> []" and g: "group_of xs g" "mset xs = mset ms"
  shows "synthesize_logical g grp = Some (synthesize_from (hd ms) (concat (map gm_body ms)) grp)"
proof -
  have idx: "\<forall>i \<in> {..<length ms}. fst (slot_of (ms ! i)) = i"
    using ms(1) by (simp add: shards_of_def slot_of_def)
  have same: "set xs = set ms" "length xs = length ms" using g(2) mset_eq_setD mset_eq_length by blast+
  have "pg_slots g = map slot_of ms"
    using g(1) same by (intro group_of_inj [OF _ _ _ idx]) (simp_all add: group_of_def)
  then have "map snd (pg_slots g) = map gm_body ms" by (simp add: slot_of_def comp_def)
  moreover have "body_new (concat (map gm_body ms)) = Some (concat (map gm_body ms))"
    using ms(1) by (intro body_new_concat) (auto simp: shards_of_def in_set_conv_nth)
  moreover have "hd ms \<in> set xs" "fst (slot_of (hd ms)) = 0"
    using ms(2) same idx by (simp_all add: hd_conv_nth)
  then have "pg_header g = Some (hd ms)" using g(1) by (simp add: group_of_def)
  ultimately show ?thesis by (simp add: synthesize_logical_def)
qed


text \<open>C17: a body that is sent in shards is put together: when every shard arrives once, in any order,
  and the charges fit into what the author and the store have left, every shard but the last is
  buffered and the last one yields the body whole; the store is then as it was before the first.\<close>

theorem reassembly_completes:
  assumes s: "s = fold ra_step evs ra_new"
    and ms: "shards_of p grp kind ms" "ms \<noteq> []" and arr: "mset (map fst arr) = mset ms"
    and new_key: "map_of (ra_groups s) (p, grp) = None"
    and room: "room_for p (sum_list (map charge_of ms)) s"
    and limit: "sum_list (map charge_of ms) \<le> REASSEMBLY_GROUP_MAX_BYTES"
  shows "\<exists>s'. ra_ingest_all arr s =
      (replicate (length ms - 1) Buffered @ [Complete (synthesize_from (hd ms) (concat (map gm_body ms)) grp)], s') \<and>
    ra_groups s' = ra_groups s \<and> (\<forall>a. author_bytes_of a s' = author_bytes_of a s) \<and>
    ra_total_bytes s' = ra_total_bytes s"
proof -
  let ?n = "length ms"
  have inv: "ra_inv s" unfolding s by (rule run_inv [OF ra_new_inv])
  have key: "(p, grp) \<notin> fst ` set (ra_groups s)" using new_key by (simp add: map_of_eq_None_iff)
  have len: "length arr = ?n" and set: "fst ` set arr = set ms"
    using mset_eq_length [OF arr] mset_eq_setD [OF arr] by simp_all
  have like: "\<forall>m \<in> fst ` set arr. shard_like (p, grp) kind ?n m"
  proof
    fix m assume "m \<in> fst ` set arr"
    then show "shard_like (p, grp) kind ?n m"
      unfolding set by (rule shards_of_in [OF ms(1)]) (simp add: shard_like_def)
  qed
  have sum: "sum_list (map (charge_of \<circ> fst) arr) = sum_list (map charge_of ms)"
    using arr by (metis map_map mset_map sum_mset_sum_list)
  have "mset (map (fst \<circ> slot_of \<circ> fst) arr) = mset [0..<?n]"
    using arr unfolding shards_distinct [OF ms(1), symmetric] by (metis map_map mset_map)
  then have dist: "distinct (map (fst \<circ> slot_of \<circ> fst) arr)" by (metis distinct_upt mset_eq_imp_distinct_iff)
  obtain arr' a where split: "arr = arr' @ [a]" using len ms(2) by (metis length_0_conv rev_exhaust)
  obtain m now where a: "a = (m, now)" by fastforce
  obtain s1 where s1: "ra_ingest_all arr' s = (replicate (length arr') Buffered, s1)"
    "part_way s (p, grp) kind ?n (map fst arr') s1"
    using part_run [OF inv key, of arr' kind ?n] like dist room limit len
    by (auto simp: split sum [symmetric] room_for_def)
  obtain sh where sh: "gm_shard m = Some sh" "sh_total sh = ?n" "fst (slot_of m) = sh_idx sh" "sh_group sh = grp"
    and m: "gm_pubkey m = p" "key_of m = (p, grp)" "gm_kind m = kind"
    using like by (auto simp: split a shard_like_def)
  have new: "\<forall>x \<in> set (map fst arr'). fst (slot_of x) \<noteq> sh_idx sh"
    using dist sh(3) by (force simp: split a)
  obtain h where h: "group_of (map fst arr' @ [m]) h"
    "ra_ingest m now s1 =
       (if length (map fst arr' @ [m]) \<noteq> ?n then (Buffered, ra_put (p, grp) h (charge_of m) s1)
        else (case synthesize_logical h grp of Some l \<Rightarrow> Complete l | None \<Rightarrow> Dropped,
              snd (ra_evict (p, grp) (ra_put (p, grp) h (charge_of m) s1))))"
    "ra_groups (ra_put (p, grp) h (charge_of m) s1) = ra_groups s @ [((p, grp), h)]"
    using room limit unfolding sum [symmetric] split a
    by (auto intro: part_step [OF _ inv _ sh(1) new, unfolded m sh(2,4), OF s1(2) key, of now] simp: comp_def)
  define s2 where "s2 = snd (ra_evict (p, grp) (ra_put (p, grp) h (charge_of m) s1))"
  have "mset (map fst arr' @ [m]) = mset ms" using arr by (simp add: split a)
  note full = synthesize_full [OF ms h(1) this]
  have last: "ra_ingest m now s1 = (Complete (synthesize_from (hd ms) (concat (map gm_body ms)) grp), s2)"
    using h(2) full len by (simp add: s2_def split)
  have "ra_groups s2 = ra_groups s" by (simp only: s2_def evict_groups h(3) delete_append [OF key])
  moreover have "ra_inv s2" using ingest_inv [OF _ last] s1(2) by (simp add: part_way_def)
  moreover have "ra_ingest_all arr s =
      (replicate (length ms - 1) Buffered @ [Complete (synthesize_from (hd ms) (concat (map gm_body ms)) grp)], s2)"
    using len by (simp add: split a ra_ingest_all_snoc s1(1) last)
  ultimately show ?thesis using same_groups [of s2 s] inv by blast
qed

definition demo_part :: "nat \<Rightarrow> ustring \<Rightarrow> unit gossip_message" where
  "demo_part i body =
     \<lparr>gm_version = [], gm_id = [], gm_kind = State, gm_mesh = [], gm_author = [97], gm_timestamp = 0, gm_body = body,
      gm_pubkey = [1], gm_sig = [], gm_seq = None, gm_prev = None, gm_parents = [],
      gm_shard = Some \<lparr>sh_group = [103], sh_idx = i, sh_total = 2\<rparr>, gm_ext = ()\<rparr>"

lemmas demo_limits = REASSEMBLY_AUTHOR_BUDGET_BYTES_def REASSEMBLY_TOTAL_BUDGET_BYTES_def REASSEMBLY_GROUP_MAX_BYTES_def
  MAX_LOGICAL_BODY_BYTES_def slot_charge_def REASSEMBLY_SLOT_OVERHEAD_BYTES_def REASSEMBLY_SLOT_MIN_CHARGE_BYTES_def

lemma reassembly_isolated_witness:
  "let s = ra_step (Shard_in ((demo_part 0 [104])\<lparr>gm_pubkey := [2]\<rparr>) 5) ra_new in
   author_bytes_of [2] (snd (ra_ingest (demo_part 0 [104]) 5 s)) = author_bytes_of [2] s"
  using reassembly_isolated [of "[2]" "demo_part 0 [104]" _ "[Shard_in ((demo_part 0 [104])\<lparr>gm_pubkey := [2]\<rparr>) 5]" 5,
      OF _ refl surjective_pairing]
  by (simp add: demo_part_def Let_def)

lemma demo_len: "byte_len [104] = 1" "byte_len [105] = 1" "body_new [104] = Some [104]" "body_new [105] = Some [105]"
    "body_new [104, 105] = Some [104, 105]"
  by (code_simp+)

lemma reassembly_sound_witness:
  "\<exists>ms :: unit gossip_message list. length ms = 2 \<and> concat (map gm_body ms) = [104, 105]"
proof -
  let ?a = "demo_part 0 [104]" and ?b = "demo_part 1 [105]"
  let ?l = "synthesize_from ?a [104, 105] [103]"
  have run: "\<exists>s'. ra_ingest ?b 7 (fold ra_step [Shard_in ?a 5] ra_new) = (Complete ?l, s')"
    by (simp add: ra_ingest_def ra_new_def demo_part_def ra_refusal_def ra_admit.simps author_bytes_of_def
        demo_limits demo_len ra_fill_def Let_def group_entry_def fill_slot_def pg_is_complete_def ra_put_def
        synthesize_logical_def synthesize_from_def)
  then obtain s' where "ra_ingest ?b 7 (fold ra_step [Shard_in ?a 5] ra_new) = (Complete ?l, s')" by blast
  from reassembly_sound [OF _ _ this, of "\<lparr>sh_group = [103], sh_idx = 1, sh_total = 2\<rparr>"]
  obtain ms where ms: "length ms = 2" "?l = synthesize_from (hd ms) (concat (map gm_body ms)) [103]"
    by (auto simp: demo_part_def idx_in_range_def)
  have "gm_body ?l = gm_body (synthesize_from (hd ms) (concat (map gm_body ms)) [103])" by (simp only: ms(2) [symmetric])
  then have "concat (map gm_body ms) = [104, 105]" by (simp add: synthesize_from_def)
  then show ?thesis using ms(1) by blast
qed

lemma reassembly_completes_witness:
  "\<exists>s'. ra_ingest_all [(demo_part 1 [105], 5), (demo_part 0 [104], 6)] ra_new =
      ([Buffered, Complete (synthesize_from (demo_part 0 [104]) [104, 105] [103])], s') \<and> ra_total_bytes s' = 0"
proof -
  have "shards_of [1] [103] State [demo_part 0 [104], demo_part 1 [105]]"
    by (simp add: shards_of_def demo_part_def demo_len lessThan_Suc)
  from reassembly_completes [OF refl, of _ _ _ _ "[(demo_part 1 [105], 5), (demo_part 0 [104], 6)]" "[]", OF this]
  show ?thesis
    by (auto simp: ra_new_def room_for_def charge_of_def author_bytes_of_def demo_limits demo_part_def demo_len)
qed


subsection \<open>Repair\<close>

lemma missing_some:
  assumes "sorted_wrt (<) (map fst (pg_slots g))" "\<And>i b. (i, b) \<in> set (pg_slots g) \<Longrightarrow> i < pg_total g"
    and "\<not> pg_is_complete g"
  shows "missing_idxs g \<noteq> []"
proof
  assume "missing_idxs g = []"
  then have "filter (\<lambda>idx. map_of (pg_slots g) idx = None) [0..<pg_total g] = []"
    by (simp add: missing_idxs_def REASSEMBLY_REPAIR_MAX_IDXS_def)
  then have "{0..<pg_total g} \<subseteq> fst ` set (pg_slots g)" by (auto simp: filter_empty_conv map_of_eq_None_iff)
  moreover have "fst ` set (pg_slots g) \<subseteq> {0..<pg_total g}" using assms(2) by auto
  ultimately have "card (fst ` set (pg_slots g)) = pg_total g" by (metis card_atLeastLessThan diff_zero subset_antisym)
  moreover have "distinct (map fst (pg_slots g))" using assms(1) strict_sorted_iff by blast
  ultimately show False using assms(3) by (metis distinct_card length_map list.set_map pg_is_complete_def)
qed

lemma map_of_vals: "map_of (map (\<lambda>(k, v). (k, f v)) xs) k = map_option f (map_of xs k)"
  by (induction xs) auto

text \<open>a repair ticket is about a group that is still incomplete, too large to be logged and quiet
  for long enough; it asks for at least one shard and at most \<open>REASSEMBLY_REPAIR_MAX_IDXS\<close>, each of
  them in range and not there yet, and issuing it changes no group's slots, bytes or age.\<close>

theorem repair_asks_missing:
  assumes "list_all idx_in_range (arrivals evs)" and s: "s = fold ra_step evs ra_new"
    and run: "ra_repair_tickets now s = (ts, s')" and t: "t \<in> set ts"
  shows "\<exists>p g. map_of (ra_groups s) (p, rt_group t) = Some g \<and> rt_author t = pg_author g \<and>
    \<not> pg_is_complete g \<and> pg_total g > LOGGED_SHARD_GROUP_MAX_TOTAL \<and>
    secs_since now (pg_last_seen g) \<ge> REASSEMBLY_REPAIR_IDLE_SECS \<and>
    rt_missing t \<noteq> [] \<and> length (rt_missing t) \<le> REASSEMBLY_REPAIR_MAX_IDXS \<and>
    list_all (\<lambda>i. i < pg_total g \<and> map_of (pg_slots g) i = None) (rt_missing t) \<and>
    map_of (ra_groups s') (p, rt_group t) = Some (g\<lparr>pg_last_repair := Some now\<rparr>)"
proof -
  have inv: "ra_inv s" unfolding s by (rule run_inv [OF ra_new_inv])
  have "ra_from {} (ra_new :: 'a reassembly_store)" by (simp add: ra_from_def ra_new_def)
  from run_from [OF ra_new_inv this, of evs] have from_H: "ra_from (set (arrivals evs)) s" by (simp add: s)
  obtain k g where kg: "(k, g) \<in> set (ra_groups s)" "wants_repair now g"
    "t = \<lparr>rt_author = pg_author g, rt_group = snd k, rt_missing = missing_idxs g\<rparr>"
    using run t by (auto simp: ra_repair_tickets_def)
  have d: "distinct (map fst (ra_groups s))" using inv by (simp add: ra_inv_def ra_accounted_def)
  then have at: "map_of (ra_groups s) (fst k, rt_group t) = Some g" using kg by simp
  have "group_ok g" using inv kg(1) unfolding ra_inv_def by blast
  moreover have "i < pg_total g" if slot: "(i, b) \<in> set (pg_slots g)" for i b
  proof -
    have "slots_from (set (arrivals evs)) k g" using from_H kg(1) unfolding ra_from_def by auto
    then obtain m where m: "slot_msg (set (arrivals evs)) k g i b m" using slot unfolding slots_from_def by auto
    then have "idx_in_range m" using assms(1) by (auto simp: list_all_iff slot_msg_def)
    then show ?thesis using m by (simp add: idx_in_range_def slot_msg_def)
  qed
  ultimately have "missing_idxs g \<noteq> []" using missing_some unfolding group_ok_def by blast
  moreover have "list_all (\<lambda>i. i < pg_total g \<and> map_of (pg_slots g) i = None) (missing_idxs g)"
    by (auto simp: missing_idxs_def list_all_iff dest: in_set_takeD)
  moreover have "ra_groups s' = map (\<lambda>(k, g). (k, if wants_repair now g then g\<lparr>pg_last_repair := Some now\<rparr> else g)) (ra_groups s)"
    using run by (auto simp: ra_repair_tickets_def)
  then have "map_of (ra_groups s') (fst k, rt_group t) = Some (g\<lparr>pg_last_repair := Some now\<rparr>)"
    using at kg(2) by (simp add: map_of_vals del: map_of_eq_Some_iff)
  moreover have "\<not> pg_is_complete g" "pg_total g > LOGGED_SHARD_GROUP_MAX_TOTAL"
    "secs_since now (pg_last_seen g) \<ge> REASSEMBLY_REPAIR_IDLE_SECS"
    using kg(2) by (auto simp: wants_repair_def)
  moreover have "length (missing_idxs g) \<le> REASSEMBLY_REPAIR_MAX_IDXS" by (simp add: missing_idxs_def)
  ultimately show ?thesis
    using at kg(3) by (intro exI [of _ "fst k"] exI [of _ g]) simp
qed

lemma repair_asks_missing_witness:
  "\<exists>t (g :: unit partial_group). t \<in> set (fst (ra_repair_tickets 70000000000
       (ra_step (Shard_in ((demo_part 0 [104])\<lparr>gm_shard := Some \<lparr>sh_group = [103], sh_idx = 0, sh_total = 1000\<rparr>\<rparr>) 5) ra_new))) \<and>
     rt_missing t \<noteq> [] \<and> list_all (\<lambda>i. i < pg_total g \<and> map_of (pg_slots g) i = None) (rt_missing t)"
proof -
  let ?m = "(demo_part 0 [104])\<lparr>gm_shard := Some \<lparr>sh_group = [103], sh_idx = 0, sh_total = 1000\<rparr>\<rparr>"
  let ?sh = "\<lparr>sh_group = [103], sh_idx = 0, sh_total = 1000\<rparr>"
  let ?s = "fold ra_step [Shard_in ?m 5] ra_new"
  let ?g = "fill_slot ?m ?sh 5 (group_entry ?m ?sh 5 None)"
  let ?t = "\<lparr>rt_author = pg_author ?g, rt_group = [103], rt_missing = missing_idxs ?g\<rparr>"
  have "\<not> pg_is_complete ?g" by (simp add: pg_is_complete_def group_entry_def fill_slot_def)
  then have "ra_groups ?s = [(([1], [103]), ?g)]"
    by (simp add: ra_ingest_def ra_new_def ra_refusal_def ra_admit.simps author_bytes_of_def
        demo_limits ra_fill_def Let_def ra_put_def demo_part_def demo_len)
  moreover have "wants_repair 70000000000 ?g"
    by (simp add: wants_repair_def group_entry_def fill_slot_def pg_is_complete_def secs_since_def
        LOGGED_SHARD_GROUP_MAX_TOTAL_def REASSEMBLY_REPAIR_IDLE_SECS_def)
  ultimately have t: "?t \<in> set (fst (ra_repair_tickets 70000000000 ?s))"
    by (simp add: ra_repair_tickets_def)
  have "list_all idx_in_range (arrivals [Shard_in ?m 5])" by (simp add: idx_in_range_def)
  from repair_asks_missing [OF this refl surjective_pairing t]
  obtain g :: "unit partial_group" where "rt_missing ?t \<noteq> []" "list_all (\<lambda>i. i < pg_total g \<and> map_of (pg_slots g) i = None) (rt_missing ?t)"
    by blast
  then show ?thesis using t by (intro exI [of _ ?t] exI [of _ g]) simp
qed

subsection \<open>The cache stays within its budget\<close>

definition cache_ok :: "shard_cache \<Rightarrow> bool" where
  "cache_ok c \<longleftrightarrow>
     sc_bytes c = sum_list (map (\<lambda>e. frames_size (cg_frames e)) (sc_groups c)) \<and>
     (sc_bytes c \<le> SHARD_CACHE_BUDGET_BYTES \<or> length (sc_groups c) = 1)"

lemma sc_trim_spec:
  assumes "sc_trim gs n = (gs', n')" "n = sum_list (map (\<lambda>e. frames_size (cg_frames e)) gs)" "gs \<noteq> []"
  shows "n' = sum_list (map (\<lambda>e. frames_size (cg_frames e)) gs') \<and> (n' \<le> SHARD_CACHE_BUDGET_BYTES \<or> length gs' = 1) \<and>
    last gs' = last gs \<and> gs' \<noteq> []"
  using assms by (induction gs n rule: sc_trim.induct) (auto split: if_splits)

text \<open>What is inserted is what the cache answers with, whatever it had to let go, and the cache stays
  within its budget unless a single group is larger.\<close>

theorem cache_keeps_last:
  assumes "cache_ok c"
  shows "cache_ok (sc_insert grp fs c) \<and> last (sc_groups (sc_insert grp fs c)) = \<lparr>cg_group = grp, cg_frames = fs\<rparr>"
  using sc_trim_spec [OF surjective_pairing, of "sc_bytes c + frames_size fs" "sc_groups c @ [\<lparr>cg_group = grp, cg_frames = fs\<rparr>]"]
    assms
  by (auto simp: sc_insert_def cache_ok_def split: prod.split)

end
