(* ===== verification/AntiEntropy.thy ===== *)
theory AntiEntropy
  imports LogRetention
begin

text \<open>
  Recovering what a node missed: \<open>gossip/antientropy.rs\<close> of \<open>fofoca/src\<close>, the gate \<open>admit_digest\<close> of
  \<open>daemon/state.rs\<close> and the limits of \<open>fofoca-util/src/tuning.rs\<close>. Base58 and JSON are parameters; an
  \<open>Instant\<close> is a number of nanoseconds; what a document holds is asked of it through parameters.
\<close>

definition ANTIENTROPY_DIGEST_WINDOW_IDS :: nat where "ANTIENTROPY_DIGEST_WINDOW_IDS = 70"
definition ANTIENTROPY_MAX_RESEND :: nat where "ANTIENTROPY_MAX_RESEND = 64"
definition ANTIENTROPY_SERVE_COOLDOWN_SECS :: nat where "ANTIENTROPY_SERVE_COOLDOWN_SECS = 5"
definition ANTIENTROPY_SERVES_PER_WINDOW :: nat where "ANTIENTROPY_SERVES_PER_WINDOW = 8"
definition FAST_ROUND_MIN_INTERVAL_MS :: nat where "FAST_ROUND_MIN_INTERVAL_MS = 200"
definition FAST_ROUND_ACTIVE_MS :: nat where "FAST_ROUND_ACTIVE_MS = 1000"
definition FAST_ROUND_RETRY_MS :: nat where "FAST_ROUND_RETRY_MS = 400"
definition FAST_ROUND_AHEAD_MAX :: nat where "FAST_ROUND_AHEAD_MAX = 16"
definition FAST_ROUND_AHEAD_TTL_SECS :: nat where "FAST_ROUND_AHEAD_TTL_SECS = 60"

definition secs :: "nat \<Rightarrow> nat" where "secs n = n * 1000000000"
definition millis :: "nat \<Rightarrow> nat" where "millis n = n * 1000000"

subsection \<open>Digest windows on the wire\<close>

record wire_window =
  ww_lo :: int
  ww_hi :: int
  ww_ids :: ustring

definition ww_encode :: "(bytes \<Rightarrow> ustring) \<Rightarrow> digest_window \<Rightarrow> wire_window" where
  "ww_encode b58 w = \<lparr>ww_lo = dw_lo w, ww_hi = dw_hi w, ww_ids = b58 (concat (dw_ids w))\<rparr>"

text \<open>\<open>chunks_exact(16)\<close>.\<close>

fun chunks16 :: "bytes \<Rightarrow> bytes list" where
  "chunks16 bs = (if length bs < 16 then [] else take 16 bs # chunks16 (drop 16 bs))"

declare chunks16.simps [simp del]

definition ww_decode_ids :: "(ustring \<Rightarrow> bytes option) \<Rightarrow> wire_window \<Rightarrow> bytes set option" where
  "ww_decode_ids unb58 w =
     (case unb58 (ww_ids w) of
        None \<Rightarrow> None
      | Some raw \<Rightarrow> if length raw mod 16 \<noteq> 0 then None else Some (set (chunks16 raw)))"

lemma chunks16_concat: "list_all (\<lambda>b. length b = 16) bs \<Longrightarrow> chunks16 (concat bs) = bs"
proof (induction bs)
  case Nil
  then show ?case by (simp add: chunks16.simps)
next
  case (Cons b bs)
  then show ?case by (subst chunks16.simps) simp
qed

lemma length_concat16: "list_all (\<lambda>b. length b = 16) bs \<Longrightarrow> length (concat bs) mod 16 = 0"
  by (induction bs) auto

lemma ww_decode_encode:
  "unb58 (b58 (concat (dw_ids w))) = Some (concat (dw_ids w)) \<Longrightarrow> list_all (\<lambda>b. length b = 16) (dw_ids w) \<Longrightarrow>
   ww_decode_ids unb58 (ww_encode b58 w) = Some (set (dw_ids w))"
  by (simp add: ww_decode_ids_def ww_encode_def length_concat16 chunks16_concat)

subsection \<open>The digest of the log\<close>

record 'x digest_state =
  ds_log :: "'x message_log"
  ds_cursor :: nat
  ds_joined_at :: int
  ds_serves :: "ustring cooldown"

definition digest_windows :: "('x gossip_message \<Rightarrow> bytes) \<Rightarrow> (bytes \<Rightarrow> ustring) \<Rightarrow> 'x digest_state \<Rightarrow>
    (wire_window list \<times> 'x digest_state) option" where
  "digest_windows dk b58 st =
     (let recent = ANTIENTROPY_DIGEST_WINDOW_IDS in
      case recent_window dk recent (ds_log st) of
        None \<Rightarrow> None
      | Some newest \<Rightarrow>
          let older_n = older_len recent (ds_log st) in
          if older_n = 0
          then Some ([ww_encode b58 (newest\<lparr>dw_lo := min (dw_lo newest) (ds_joined_at st)\<rparr>)], st\<lparr>ds_cursor := 0\<rparr>)
          else
            let start = ds_cursor st mod older_n in
            (case older_window dk recent start recent (ds_log st) of
               None \<Rightarrow> Some ([ww_encode b58 newest], st)
             | Some older \<Rightarrow>
                 Some ([ww_encode b58 newest, ww_encode b58 older],
                   st\<lparr>ds_cursor := (start + length (dw_ids older)) mod older_n\<rparr>)))"

definition admit_digest :: "ustring \<Rightarrow> nat \<Rightarrow> 'x digest_state \<Rightarrow> bool \<times> 'x digest_state" where
  "admit_digest pubkey now st =
     (if cd_on_cooldown pubkey now (ds_serves st) then (False, st)
      else (True, st\<lparr>ds_serves := cd_note pubkey now (ds_serves st)\<rparr>))"

text \<open>The loop over one window's gap. \<open>ser m\<close>: the frame serializes, so the resend is attempted.\<close>

fun resend_batch :: "('x gossip_message \<Rightarrow> bytes) \<Rightarrow> ('x gossip_message \<Rightarrow> bool) \<Rightarrow> 'x gossip_message list \<Rightarrow>
    bytes set \<Rightarrow> nat \<Rightarrow> 'x gossip_message list \<times> bytes set \<times> nat" where
  "resend_batch dk ser [] known budget = ([], known, budget)"
| "resend_batch dk ser (m # ms) known budget =
     (if \<not> ser m then resend_batch dk ser ms known budget
      else case resend_batch dk ser ms (insert (dk m) known) (budget - 1) of
          (sent, known', budget') \<Rightarrow> (m # sent, known', budget'))"

fun resend_windows :: "('x gossip_message \<Rightarrow> bytes) \<Rightarrow> ('x gossip_message \<Rightarrow> bool) \<Rightarrow> 'x message_log \<Rightarrow> ustring \<Rightarrow>
    wire_window list \<Rightarrow> bytes set \<Rightarrow> nat \<Rightarrow> 'x gossip_message list" where
  "resend_windows dk ser l requester [] known budget = []"
| "resend_windows dk ser l requester (w # ws) known budget =
     (if budget = 0 then []
      else case resend_batch dk ser (missing_in_window dk (ww_lo w) (ww_hi w) known budget requester l) known budget of
          (sent, known', budget') \<Rightarrow> sent @ resend_windows dk ser l requester ws known' budget')"

definition advertised :: "(ustring \<Rightarrow> bytes option) \<Rightarrow> wire_window list \<Rightarrow> bytes set" where
  "advertised unb58 ws = \<Union> (set (List.map_filter (ww_decode_ids unb58) ws))"

text \<open>The frames \<open>handle_digest\<close> hands to \<open>transport::deliver\<close>, in order. \<open>parse\<close> is the JSON of the body.\<close>

definition handle_digest :: "('x gossip_message \<Rightarrow> bytes) \<Rightarrow> (ustring \<Rightarrow> bytes option) \<Rightarrow> (ustring \<Rightarrow> wire_window list option) \<Rightarrow>
    ('x gossip_message \<Rightarrow> bool) \<Rightarrow> nat \<Rightarrow> 'x gossip_message \<Rightarrow> nat \<Rightarrow> 'x digest_state \<Rightarrow>
    'x gossip_message list \<times> 'x digest_state" where
  "handle_digest dk unb58 parse ser max_resend message now st =
     (case parse (gm_body message) of
        None \<Rightarrow> ([], st)
      | Some windows \<Rightarrow>
          (case admit_digest (gm_pubkey message) now st of
             (False, st) \<Rightarrow> ([], st)
           | (True, st) \<Rightarrow>
               (resend_windows dk ser (ds_log st) (gm_author message) windows (advertised unb58 windows) max_resend, st)))"


subsection \<open>What an answer holds\<close>

definition gap :: "('x gossip_message \<Rightarrow> bytes) \<Rightarrow> 'x message_log \<Rightarrow> ustring \<Rightarrow> wire_window list \<Rightarrow> bytes set \<Rightarrow>
    'x gossip_message set" where
  "gap dk l requester ws known =
     {m \<in> set (ml_messages l). (\<exists>w \<in> set ws. ww_lo w \<le> gm_ts m \<and> gm_ts m \<le> ww_hi w) \<and> dk m \<notin> known \<and>
        resendable_to m requester}"

lemma set_missing:
  "set (missing_in_window dk lo hi known n requester l) \<subseteq> gap dk l requester [\<lparr>ww_lo = lo, ww_hi = hi, ww_ids = x\<rparr>] known"
  by (auto simp: missing_in_window_def gap_def dest: in_set_takeD)

lemma missing_all:
  assumes "distinct (ml_messages l)" "card (gap dk l requester [w] known) \<le> n"
  shows "set (missing_in_window dk (ww_lo w) (ww_hi w) known n requester l) = gap dk l requester [w] known \<and>
    length (missing_in_window dk (ww_lo w) (ww_hi w) known n requester l) = card (gap dk l requester [w] known) \<and>
    distinct (missing_in_window dk (ww_lo w) (ww_hi w) known n requester l)"
proof -
  let ?ms = "filter (\<lambda>m. gm_ts m \<ge> ww_lo w \<and> gm_ts m \<le> ww_hi w \<and> dk m \<notin> known \<and> resendable_to m requester) (rev (ml_messages l))"
  have set: "set ?ms = gap dk l requester [w] known" by (auto simp: gap_def)
  have d: "distinct ?ms" using assms(1) by simp
  have len: "length ?ms = card (gap dk l requester [w] known)" unfolding set [symmetric] distinct_card [OF d] ..
  then have "missing_in_window dk (ww_lo w) (ww_hi w) known n requester l = ?ms"
    using assms(2) by (simp add: missing_in_window_def)
  then show ?thesis using set d len by simp
qed

lemma resend_batch_all:
  "list_all ser ms \<Longrightarrow> resend_batch dk ser ms known budget = (ms, dk ` set ms \<union> known, budget - length ms)"
  by (induction ms arbitrary: known budget) auto

lemma resend_batch_sound:
  "resend_batch dk ser ms known budget = (sent, known', budget') \<Longrightarrow> length ms \<le> budget \<Longrightarrow>
   set sent \<subseteq> set ms \<and> length sent + budget' = budget \<and> known' = dk ` set sent \<union> known \<and> list_all ser sent"
proof (induction ms arbitrary: known budget sent)
  case (Cons m ms)
  show ?case
  proof (cases "ser m")
    case True
    obtain s0 where s0: "resend_batch dk ser ms (insert (dk m) known) (budget - 1) = (s0, known', budget')" "sent = m # s0"
      using Cons(2) True by (auto split: prod.splits)
    have "length ms \<le> budget - 1" using Cons(3) by simp
    from Cons(1) [OF s0(1) this] Cons(3) s0(2) True show ?thesis by auto
  next
    case False
    then show ?thesis using Cons(1) [of known budget sent] Cons(2,3) by auto
  qed
qed simp

lemma length_missing: "length (missing_in_window dk lo hi known n requester l) \<le> n"
  by (simp add: missing_in_window_def)

lemma gap_cons:
  "gap dk l requester (w # ws) known = gap dk l requester [w] known \<union> gap dk l requester ws known"
  by (auto simp: gap_def)

lemma gap_mono: "known \<subseteq> known' \<Longrightarrow> gap dk l requester ws known' \<subseteq> gap dk l requester ws known"
  by (auto simp: gap_def)

lemma resend_windows_sound:
  "set (resend_windows dk ser l requester ws known budget) \<subseteq> gap dk l requester ws known \<and>
   length (resend_windows dk ser l requester ws known budget) \<le> budget \<and>
   list_all ser (resend_windows dk ser l requester ws known budget)"
proof (induction ws arbitrary: known budget)
  case (Cons w ws)
  show ?case
  proof (cases "budget = 0")
    case False
    let ?ms = "missing_in_window dk (ww_lo w) (ww_hi w) known budget requester l"
    obtain sent known' budget' where b: "resend_batch dk ser ?ms known budget = (sent, known', budget')"
      by (metis prod_cases3)
    note r = resend_batch_sound [OF b length_missing]
    have "set ?ms \<subseteq> gap dk l requester [w] known" using set_missing [of dk "ww_lo w" "ww_hi w"] by (auto simp: gap_def)
    moreover have "gap dk l requester ws known' \<subseteq> gap dk l requester ws known" using r by (intro gap_mono) blast
    ultimately show ?thesis
      using r Cons [of known' budget'] b False unfolding gap_cons [of dk l requester w ws] by auto
  qed simp
qed simp

lemma resend_windows_complete:
  assumes "distinct (ml_messages l)" "inj_on dk (set (ml_messages l))" "list_all ser (ml_messages l)"
    and "card (gap dk l requester ws known) \<le> budget"
  shows "set (resend_windows dk ser l requester ws known budget) = gap dk l requester ws known \<and>
    distinct (resend_windows dk ser l requester ws known budget)"
  using assms(4)
proof (induction ws arbitrary: known budget)
  case Nil
  then show ?case by (simp add: gap_def)
next
  case (Cons w ws)
  let ?G = "gap dk l requester [w] known"
  let ?ms = "missing_in_window dk (ww_lo w) (ww_hi w) known budget requester l"
  have fin: "finite (gap dk l requester vs k)" for vs k by (simp add: gap_def)
  have "card ?G \<le> budget"
    using Cons(2) card_mono [OF fin, of ?G "w # ws" known] unfolding gap_cons [of dk l requester w ws] by simp
  note m = missing_all [OF assms(1) this]
  show ?case
  proof (cases "budget = 0")
    case True
    then show ?thesis using Cons(2) fin by simp
  next
    case False
    let ?known = "dk ` ?G \<union> known"
    have sub: "?G \<subseteq> set (ml_messages l)" by (auto simp: gap_def)
    have "list_all ser ?ms" using m assms(3) sub by (auto simp: list_all_iff)
    then have b: "resend_batch dk ser ?ms known budget = (?ms, ?known, budget - card ?G)"
      using resend_batch_all m by metis
    have rest: "gap dk l requester ws ?known = gap dk l requester ws known - ?G"
    proof -
      have "gap dk l requester ws ?known = {m \<in> gap dk l requester ws known. dk m \<notin> dk ` ?G}"
        unfolding gap_def by blast
      moreover have "dk m \<in> dk ` ?G \<longleftrightarrow> m \<in> ?G" if "m \<in> gap dk l requester ws known" for m
      proof (rule inj_on_image_mem_iff [OF assms(2) _ sub])
        show "m \<in> set (ml_messages l)" using that by (simp add: gap_def)
      qed
      ultimately show ?thesis by blast
    qed
    have "gap dk l requester (w # ws) known = ?G \<union> gap dk l requester ws ?known"
      using gap_cons [of dk l requester w ws known] rest by blast
    moreover have "?G \<inter> gap dk l requester ws ?known = {}" using rest by blast
    ultimately have card: "card (gap dk l requester ws ?known) \<le> budget - card ?G"
      using Cons(2) card_Un_disjoint [OF fin fin, of "[w]" known ws ?known] by simp
    note IH = Cons(1) [OF card]
    have "resend_windows dk ser l requester (w # ws) known budget =
        ?ms @ resend_windows dk ser l requester ws ?known (budget - card ?G)" using b False by simp
    then show ?thesis using IH m rest gap_cons [of dk l requester w ws known] by (auto simp del: resend_windows.simps)
  qed
qed

text \<open>C23: an answer to a digest holds only frames of the log that lie in an advertised window, are not
  among the advertised ids and are for everyone or for the one who asks, each once and never more
  than the budget; when the budget suffices it holds all of them. A second digest of the same key
  within the cooldown gets nothing.\<close>

theorem digest_answer_exact:
  assumes "handle_digest dk unb58 parse ser max_resend message now st = (sent, st')"
    and "distinct (ml_messages (ds_log st))" "inj_on dk (set (ml_messages (ds_log st)))"
  shows "length sent \<le> max_resend \<and>
    set sent \<subseteq> (case parse (gm_body message) of None \<Rightarrow> {}
                | Some ws \<Rightarrow> gap dk (ds_log st) (gm_author message) ws (advertised unb58 ws)) \<and>
    (\<forall>ws. parse (gm_body message) = Some ws \<and> \<not> cd_on_cooldown (gm_pubkey message) now (ds_serves st) \<and>
       list_all ser (ml_messages (ds_log st)) \<and>
       card (gap dk (ds_log st) (gm_author message) ws (advertised unb58 ws)) \<le> max_resend \<longrightarrow>
       set sent = gap dk (ds_log st) (gm_author message) ws (advertised unb58 ws) \<and> distinct sent) \<and>
    (cd_on_cooldown (gm_pubkey message) now (ds_serves st) \<longrightarrow> sent = [])"
proof (cases "parse (gm_body message)")
  case None
  then show ?thesis using assms(1) by (simp add: handle_digest_def)
next
  case (Some ws)
  show ?thesis
  proof (cases "cd_on_cooldown (gm_pubkey message) now (ds_serves st)")
    case True
    then have "sent = []" using assms(1) Some by (simp add: handle_digest_def admit_digest_def)
    then show ?thesis using Some True by simp
  next
    case False
    then have sent: "sent = resend_windows dk ser (ds_log st) (gm_author message) ws (advertised unb58 ws) max_resend"
      using assms(1) Some by (simp add: handle_digest_def admit_digest_def)
    show ?thesis
      using resend_windows_sound [of dk ser "ds_log st" "gm_author message" ws "advertised unb58 ws" max_resend]
        resend_windows_complete [OF assms(2,3), of ser "gm_author message" ws "advertised unb58 ws" max_resend] False Some
      unfolding sent [symmetric] by auto
  qed
qed


text \<open>The digests of a stream that are served, by key and time.\<close>

fun served_digests :: "('x gossip_message \<Rightarrow> bytes) \<Rightarrow> (ustring \<Rightarrow> bytes option) \<Rightarrow> (ustring \<Rightarrow> wire_window list option) \<Rightarrow>
    ('x gossip_message \<Rightarrow> bool) \<Rightarrow> nat \<Rightarrow> ('x gossip_message \<times> nat) list \<Rightarrow> 'x digest_state \<Rightarrow> (ustring \<times> nat) list" where
  "served_digests dk unb58 parse ser max_resend [] st = []"
| "served_digests dk unb58 parse ser max_resend ((m, now) # ms) st =
     (case handle_digest dk unb58 parse ser max_resend m now st of (sent, st') \<Rightarrow>
        (if parse (gm_body m) \<noteq> None \<and> fst (admit_digest (gm_pubkey m) now st) then [(gm_pubkey m, now)] else []) @
        served_digests dk unb58 parse ser max_resend ms st')"

lemma served_throttled:
  "served_digests dk unb58 parse ser max_resend ms st =
     throttled cd_on_cooldown cd_note (map (\<lambda>(m, now). (gm_pubkey m, now)) (filter (\<lambda>(m, _). parse (gm_body m) \<noteq> None) ms)) (ds_serves st)"
  by (induction ms arbitrary: st) (auto simp: handle_digest_def admit_digest_def split: option.split)

text \<open>each key is served at most one digest per cooldown window, whatever it sends and whatever others send
  between: a frame that would cost up to the resend budget of broadcasts draws them at the honest cadence only.\<close>

theorem digests_throttled:
  assumes "sorted (map snd ms)"
  shows "sorted_wrt (\<lambda>a b. fst a \<noteq> fst b \<or> snd a + cd_window (ds_serves st) \<le> snd b)
    (served_digests dk unb58 parse ser max_resend ms st)"
proof -
  have "sorted (map snd (map (\<lambda>(m, now). (gm_pubkey m, now)) (filter (\<lambda>(m, _). parse (gm_body m) \<noteq> None) ms)))"
    using sorted_filter [OF assms] by (simp add: comp_def case_prod_beta)
  from cd.grants_spaced [OF refl this] show ?thesis unfolding served_throttled .
qed

subsection \<open>A digest and its answer\<close>

definition ids16 :: "('x gossip_message \<Rightarrow> bytes) \<Rightarrow> 'x message_log \<Rightarrow> bool" where
  "ids16 dk l = list_all (\<lambda>m. length (dk m) = 16) (ml_messages l)"

lemma window_at_some:
  "window_at dk start n l = Some w \<longleftrightarrow>
     take n (drop start (ml_messages l)) \<noteq> [] \<and>
     w = \<lparr>dw_lo = Min (gm_ts ` set (take n (drop start (ml_messages l)))),
          dw_hi = Max (gm_ts ` set (take n (drop start (ml_messages l)))),
          dw_ids = map dk (take n (drop start (ml_messages l)))\<rparr>"
  by (auto simp: window_at_def Let_def)

lemma ids16_part: "ids16 dk l \<Longrightarrow> list_all (\<lambda>b. length b = 16) (map dk (take n (drop k (ml_messages l))))"
  by (auto simp: ids16_def list_all_iff dest: in_set_takeD in_set_dropD)

lemma advertised_simps [simp]:
  "advertised unb58 [] = {}"
  "advertised unb58 (w # ws) = (case ww_decode_ids unb58 w of None \<Rightarrow> {} | Some s \<Rightarrow> s) \<union> advertised unb58 ws"
  by (auto simp: advertised_def List.map_filter_def split: option.split)

lemma decode_window:
  assumes "\<forall>x. unb58 (b58 x) = Some x" "ids16 dk l" "dw_ids w = map dk (take n (drop k (ml_messages l)))"
  shows "ww_decode_ids unb58 (ww_encode b58 w) = Some (dk ` set (take n (drop k (ml_messages l))))"
  using ww_decode_encode [of unb58 b58 w] assms ids16_part [OF assms(2)] by simp

lemma ts_bound: "gm_ts m \<le> i64_max"
  using sint_lt [of "gm_timestamp m"] by (simp add: gm_ts_def i64_max_def)

text \<open>C11: one digest heals a log that fits into a window: a holder whose resend budget suffices answers with
  every frame it has and the asker lacks, from the asker's oldest frame or its joining on, that is for
  everyone or for the asker, and with nothing else.\<close>

theorem antientropy_recovers:
  assumes codec: "\<forall>x. unb58 (b58 x) = Some x" and ids: "ids16 dk (ds_log sa)"
    and small: "ml_messages (ds_log sa) \<noteq> []" "length (ml_messages (ds_log sa)) \<le> ANTIENTROPY_DIGEST_WINDOW_IDS"
    and digest: "map_option fst (digest_windows dk b58 sa) = parse (gm_body msg)"
    and holder: "distinct (ml_messages (ds_log sb))" "inj_on dk (set (ml_messages (ds_log sb)))"
      "list_all ser (ml_messages (ds_log sb))" "\<not> cd_on_cooldown (gm_pubkey msg) now (ds_serves sb)"
    and M: "M = {m \<in> set (ml_messages (ds_log sb)). dk m \<notin> dk ` set (ml_messages (ds_log sa)) \<and>
        (ds_joined_at sa \<le> gm_ts m \<or> (\<exists>a \<in> set (ml_messages (ds_log sa)). gm_ts a \<le> gm_ts m)) \<and>
        resendable_to m (gm_author msg)}"
    and budget: "card M \<le> max_resend"
  shows "set (fst (handle_digest dk unb58 parse ser max_resend msg now sb)) = M"
proof -
  let ?A = "ml_messages (ds_log sa)"
  let ?lo = "min (Min (gm_ts ` set ?A)) (ds_joined_at sa)"
  define w where "w = ww_encode b58 \<lparr>dw_lo = ?lo, dw_hi = i64_max, dw_ids = map dk ?A\<rparr>"
  have "older_len ANTIENTROPY_DIGEST_WINDOW_IDS (ds_log sa) = 0" using small by (simp add: older_len_def)
  then have "digest_windows dk b58 sa = Some ([w], sa\<lparr>ds_cursor := 0\<rparr>)"
    using small by (simp add: digest_windows_def Let_def recent_window_def window_at_def w_def)
  then have parse: "parse (gm_body msg) = Some [w]" using digest by simp
  have "ww_decode_ids unb58 w = Some (dk ` set ?A)"
    using decode_window [OF codec ids, of _ "length ?A" 0] by (simp add: w_def)
  then have adv: "advertised unb58 [w] = dk ` set ?A" by simp
  have "?lo \<le> t \<longleftrightarrow> ds_joined_at sa \<le> t \<or> (\<exists>a \<in> set ?A. gm_ts a \<le> t)" for t
    using small by (auto simp: min_le_iff_disj Min_le_iff)
  then have "gap dk (ds_log sb) (gm_author msg) [w] (advertised unb58 [w]) = M"
    unfolding M adv gap_def by (auto simp: w_def ww_encode_def ts_bound)
  then show ?thesis
    using digest_answer_exact [OF surjective_pairing holder(1,2), of unb58 parse ser max_resend msg now] parse holder(3,4) budget
    by simp
qed

subsection \<open>The rolling window\<close>

fun digest_rounds :: "('x gossip_message \<Rightarrow> bytes) \<Rightarrow> (bytes \<Rightarrow> ustring) \<Rightarrow> nat \<Rightarrow> 'x digest_state \<Rightarrow> wire_window list list" where
  "digest_rounds dk b58 0 st = []"
| "digest_rounds dk b58 (Suc k) st =
     (case digest_windows dk b58 st of None \<Rightarrow> [] | Some (ws, st') \<Rightarrow> ws # digest_rounds dk b58 k st')"

lemma digest_round:
  assumes codec: "\<forall>x. unb58 (b58 x) = Some x" and ids: "ids16 dk (ds_log st)"
    and n: "n = older_len ANTIENTROPY_DIGEST_WINDOW_IDS (ds_log st)" "ds_cursor st < n"
  defines "c \<equiv> ds_cursor st" and "k \<equiv> min ANTIENTROPY_DIGEST_WINDOW_IDS (n - ds_cursor st)"
  shows "\<exists>ws. digest_windows dk b58 st = Some (ws, st\<lparr>ds_cursor := (c + k) mod n\<rparr>) \<and>
    advertised unb58 ws = dk ` set (drop n (ml_messages (ds_log st))) \<union> dk ` set (take k (drop c (ml_messages (ds_log st))))"
proof -
  let ?ms = "ml_messages (ds_log st)"
  let ?r = ANTIENTROPY_DIGEST_WINDOW_IDS
  have len: "length ?ms = n + ?r" "0 < n" "0 < ?r" using n by (auto simp: older_len_def ANTIENTROPY_DIGEST_WINDOW_IDS_def)
  have new: "take ?r (drop n ?ms) = drop n ?ms" using len by simp
  define w1 where "w1 = \<lparr>dw_lo = Min (gm_ts ` set (drop n ?ms)), dw_hi = i64_max, dw_ids = map dk (drop n ?ms)\<rparr>"
  have recent: "recent_window dk ?r (ds_log st) = Some w1"
    using len new by (auto simp: recent_window_def window_at_def Let_def w1_def)
  define w2 where "w2 = \<lparr>dw_lo = Min (gm_ts ` set (take k (drop c ?ms))), dw_hi = Max (gm_ts ` set (take k (drop c ?ms))),
      dw_ids = map dk (take k (drop c ?ms))\<rparr>"
  have k: "0 < k" "c < length ?ms" "k \<le> length ?ms - c" using len n by (auto simp: k_def c_def)
  have older: "older_window dk ?r c ?r (ds_log st) = Some w2"
    using n k len by (auto simp: older_window_def Let_def window_at_def w2_def k_def c_def)
  have "digest_windows dk b58 st = Some ([ww_encode b58 w1, ww_encode b58 w2], st\<lparr>ds_cursor := (c + k) mod n\<rparr>)"
    using recent older n k by (simp add: digest_windows_def Let_def w2_def c_def)
  moreover have "advertised unb58 [ww_encode b58 w1, ww_encode b58 w2] =
      dk ` set (drop n ?ms) \<union> dk ` set (take k (drop c ?ms))"
    using decode_window [OF codec ids, of w1 ?r n] decode_window [OF codec ids, of w2 k c] new
    by (simp add: w1_def w2_def)
  ultimately show ?thesis by blast
qed

lemma sweep_from:
  assumes "\<forall>x. unb58 (b58 x) = Some x" "ids16 dk (ds_log st)" "n = older_len ANTIENTROPY_DIGEST_WINDOW_IDS (ds_log st)"
    and "ds_cursor st < n" "n - ds_cursor st \<le> r * ANTIENTROPY_DIGEST_WINDOW_IDS"
  shows "dk ` set (drop (ds_cursor st) (ml_messages (ds_log st))) \<subseteq> \<Union> (advertised unb58 ` set (digest_rounds dk b58 r st))"
  using assms(2-)
proof (induction r arbitrary: st)
  case 0
  then show ?case by simp
next
  case (Suc r)
  let ?ms = "ml_messages (ds_log st)"
  let ?c = "ds_cursor st"
  let ?k = "min ANTIENTROPY_DIGEST_WINDOW_IDS (n - ?c)"
  let ?st = "st\<lparr>ds_cursor := (?c + ?k) mod n\<rparr>"
  obtain ws where ws: "digest_windows dk b58 st = Some (ws, ?st)"
    "advertised unb58 ws = dk ` set (drop n ?ms) \<union> dk ` set (take ?k (drop ?c ?ms))"
    using digest_round [OF assms(1) Suc(2,3,4)] by blast
  have split: "set (drop ?c ?ms) = set (take ?k (drop ?c ?ms)) \<union> set (drop (?c + ?k) ?ms)"
    by (metis append_take_drop_id drop_drop add.commute set_append)
  show ?case
  proof (cases "?c + ?k < n")
    case True
    then have k: "?k = ANTIENTROPY_DIGEST_WINDOW_IDS" "(?c + ?k) mod n = ?c + ?k" by auto
    have "dk ` set (drop (?c + ?k) ?ms) \<subseteq> \<Union> (advertised unb58 ` set (digest_rounds dk b58 r ?st))"
      using Suc(1) [of ?st] Suc(2-5) True k by simp
    then show ?thesis using ws split by auto
  next
    case False
    then have "?c + ?k = n" using Suc(4) by simp
    then show ?thesis using ws split by auto
  qed
qed

text \<open>whatever the size of the log, a full turn of the rolling window advertises every message held:
  starting at the cursor's origin, as many rounds as windows fit into the older part.\<close>

theorem digest_sweep_covers:
  assumes "\<forall>x. unb58 (b58 x) = Some x" "ids16 dk (ds_log st)" "ml_messages (ds_log st) \<noteq> []" "ds_cursor st = 0"
    and "older_len ANTIENTROPY_DIGEST_WINDOW_IDS (ds_log st) \<le> r * ANTIENTROPY_DIGEST_WINDOW_IDS" "0 < r"
  shows "dk ` set (ml_messages (ds_log st)) \<subseteq> \<Union> (advertised unb58 ` set (digest_rounds dk b58 r st))"
proof (cases "older_len ANTIENTROPY_DIGEST_WINDOW_IDS (ds_log st) = 0")
  case True
  let ?ms = "ml_messages (ds_log st)"
  let ?r = ANTIENTROPY_DIGEST_WINDOW_IDS
  have len: "length ?ms \<le> ?r" using True by (simp add: older_len_def)
  obtain w where w: "recent_window dk ?r (ds_log st) = Some w" "dw_ids w = map dk (take ?r (drop 0 ?ms))"
    using assms(3) len by (auto simp: recent_window_def window_at_def Let_def)
  obtain r' where "r = Suc r'" using assms(6) by (cases r) auto
  moreover have "ww_decode_ids unb58 (ww_encode b58 (w\<lparr>dw_lo := x\<rparr>)) = Some (dk ` set ?ms)" for x
    using decode_window [OF assms(1,2), of "w\<lparr>dw_lo := x\<rparr>" ?r 0] w(2) len by simp
  ultimately show ?thesis using w(1) True by (simp add: digest_windows_def Let_def)
next
  case False
  then show ?thesis using sweep_from [OF assms(1,2) refl, of r] assms(4,5) by simp
qed

subsection \<open>Demonstrations\<close>

definition demo_dk :: "unit gossip_message \<Rightarrow> bytes" where
  "demo_dk m = replicate 15 0 @ [ucast (gm_timestamp m)]"

definition demo_digest_state :: "unit gossip_message list \<Rightarrow> unit digest_state" where
  "demo_digest_state ms = \<lparr>ds_log = \<lparr>ml_capacity = 9, ml_messages = ms, ml_per_author = []\<rparr>, ds_cursor = 0, ds_joined_at = 0,
     ds_serves = cd_new 5\<rparr>"

lemma demo_ts [simp]: "gm_ts (demo_msg a i) = sint (word_of_nat i :: 64 word)" "gm_timestamp (demo_msg a i) = word_of_nat i"
  by (simp_all add: gm_ts_def demo_msg_def)

lemma demo_kind [simp]: "gm_kind (demo_msg a i) = Ping" "gm_body (demo_msg a i) = []" "gm_pubkey (demo_msg a i) = a"
  by (simp_all add: demo_msg_def demo_frame_def gm_new_def)

lemma demo_dk_inj: "inj_on demo_dk {demo_msg [1] 1, demo_msg [1] 2}"
  by (simp add: demo_dk_def inj_on_def)

theorem digest_answer_exact_witness:
  "length (fst (handle_digest demo_dk (\<lambda>_. Some []) (\<lambda>_. Some [\<lparr>ww_lo = 0, ww_hi = 9, ww_ids = []\<rparr>]) (\<lambda>_. True) 1
     (demo_msg [2] 3) 0 (demo_digest_state [demo_msg [1] 1, demo_msg [1] 2]))) \<le> 1"
proof -
  obtain sent st' where h: "handle_digest demo_dk (\<lambda>_. Some []) (\<lambda>_. Some [\<lparr>ww_lo = 0, ww_hi = 9, ww_ids = []\<rparr>]) (\<lambda>_. True) 1
     (demo_msg [2] 3) 0 (demo_digest_state [demo_msg [1] 1, demo_msg [1] 2]) = (sent, st')" by fastforce
  have "demo_msg [1] 1 \<noteq> demo_msg [1] 2" by (auto dest: arg_cong [of _ _ gm_timestamp])
  then have "distinct (ml_messages (ds_log (demo_digest_state [demo_msg [1] 1, demo_msg [1] 2])))"
    "inj_on demo_dk (set (ml_messages (ds_log (demo_digest_state [demo_msg [1] 1, demo_msg [1] 2]))))"
    using demo_dk_inj by (simp_all add: demo_digest_state_def)
  from digest_answer_exact [OF h this] show ?thesis by (simp only: h fst_conv)
qed

theorem antientropy_recovers_witness:
  "set (fst (handle_digest demo_dk (\<lambda>s. Some (map ucast s)) (\<lambda>_. map_option fst (digest_windows demo_dk (map ucast) (demo_digest_state [demo_msg [1] 1])))
     (\<lambda>_. True) 4 (demo_msg [2] 3) 0 (demo_digest_state [demo_msg [1] 1, demo_msg [1] 2]))) = {demo_msg [1] 2}"
proof (rule antientropy_recovers [where sa = "demo_digest_state [demo_msg [1] 1]"])
  have "ucast (ucast b :: 21 word) = b" for b :: byte
    by (rule bit_word_eqI) (auto simp: bit_simps)
  then show "\<forall>x. Some (map ucast (map ucast (x :: bytes) :: ustring)) = Some x" by (simp add: comp_def)
  show "ids16 demo_dk (ds_log (demo_digest_state [demo_msg [1] 1]))" by (simp add: ids16_def demo_digest_state_def demo_dk_def)
  have ne: "demo_msg [1] 1 \<noteq> demo_msg [1] 2" by (auto dest: arg_cong [of _ _ gm_timestamp])
  show "distinct (ml_messages (ds_log (demo_digest_state [demo_msg [1] 1, demo_msg [1] 2])))" using ne by (simp add: demo_digest_state_def)
  show "inj_on demo_dk (set (ml_messages (ds_log (demo_digest_state [demo_msg [1] 1, demo_msg [1] 2]))))"
    using demo_dk_inj by (simp add: demo_digest_state_def)
  show "{demo_msg [1] 2} = {m \<in> set (ml_messages (ds_log (demo_digest_state [demo_msg [1] 1, demo_msg [1] 2]))).
      demo_dk m \<notin> demo_dk ` set (ml_messages (ds_log (demo_digest_state [demo_msg [1] 1]))) \<and>
      (ds_joined_at (demo_digest_state [demo_msg [1] 1]) \<le> gm_ts m \<or>
       (\<exists>a\<in>set (ml_messages (ds_log (demo_digest_state [demo_msg [1] 1]))). gm_ts a \<le> gm_ts m)) \<and>
      resendable_to m (gm_author (demo_msg [2] 3))}"
    using ne by (auto simp: demo_digest_state_def demo_dk_def resendable_to_def)
qed (simp_all add: demo_digest_state_def ANTIENTROPY_DIGEST_WINDOW_IDS_def cd_on_cooldown_def cd_new_def)

theorem digests_throttled_witness:
  "sorted_wrt (\<lambda>a b. fst a \<noteq> fst b \<or> snd a + 5 \<le> snd b)
    (served_digests demo_dk (\<lambda>_. None) (\<lambda>_. Some []) (\<lambda>_. True) 1 [(demo_msg [1] 1, 0), (demo_msg [1] 2, 3), (demo_msg [1] 3, 6)]
      (demo_digest_state []))"
  using digests_throttled [of "[(demo_msg [1] 1, 0), (demo_msg [1] 2, 3), (demo_msg [1] 3, 6)]" "demo_digest_state []"
      demo_dk "\<lambda>_. None" "\<lambda>_. Some []" "\<lambda>_. True" 1]
  by (simp add: demo_digest_state_def cd_new_def del: served_digests.simps)

end
