(* ===== verification/Ingest.thy ===== *)
theory Ingest
  imports NodeLinks EventIndex ReassemblyBodies AntiEntropy
begin

text \<open>
  The inbound plane: \<open>ingest\<close> of \<open>gossip/recv.rs\<close> with its gates, the routing by kind, \<open>handle_shard\<close> and the
  retention step, and \<open>reassemble\<close> of \<open>daemon/state.rs\<close>. Cryptography, JSON, the application and the key of the
  mesh are parameters; what the handlers of the single kinds do is modelled in their own theories and appears
  here as an action.
\<close>

subsection \<open>The gate\<close>

record 'x wire_params =
  wp_uuid :: "ustring \<Rightarrow> bool"
  wp_mesh_id :: "ustring \<Rightarrow> bool"
  wp_json :: "'x json"
  wp_key :: "bytes \<Rightarrow> bool"
  wp_verify :: "bytes \<Rightarrow> bytes \<Rightarrow> bytes \<Rightarrow> bool"
  wp_sha :: "bytes \<Rightarrow> bytes"
  wp_uuid_bytes :: "ustring \<Rightarrow> bytes"
  wp_our_pubkey :: ustring
  wp_mesh :: ustring

definition wp_dedup :: "'x wire_params \<Rightarrow> 'x gossip_message \<Rightarrow> bytes" where
  "wp_dedup wp = gm_dedup_key (wp_sha wp) (wp_uuid_bytes wp)"

datatype 'x gate =
    ParseFailed | SelfEcho | BadSignature | ForeignMesh | Duplicate | Admitted "'x gossip_message" bytes

record ('x, 'm) gate_state =
  gs_links :: "'m node_links"
  gs_seen :: "bytes bounded_fifo_set"

text \<open>A frame whose canonical bytes cannot be framed panics in the code; no parsed frame is that long.\<close>

definition ingest_gate :: "'x wire_params \<Rightarrow> ('m \<Rightarrow> bool) \<Rightarrow> nat \<Rightarrow> bytes \<Rightarrow> ('x, 'm) gate_state \<Rightarrow>
    ('x gate \<times> 'm link_action list \<times> ('x, 'm) gate_state) option" where
  "ingest_gate wp deliver now content st =
     (case gm_parse (wp_uuid wp) (wp_mesh_id wp) (wp_json wp) content of
        Inl e \<Rightarrow> Some (ParseFailed, [EmitError], st)
      | Inr m \<Rightarrow>
          if gm_pubkey m = wp_our_pubkey wp then Some (SelfEcho, [], st)
          else case canonical_bytes (wp_json wp) m of
              None \<Rightarrow> None
            | Some canonical \<Rightarrow>
                if \<not> verify_signature_with (wp_key wp) (wp_verify wp) canonical m then Some (BadSignature, [], st)
                else if gm_mesh m \<noteq> wp_mesh wp then Some (ForeignMesh, [], st)
                else case on_inbound deliver now (gs_links st) of (out, links) \<Rightarrow>
                  let st1 = st\<lparr>gs_links := links\<rparr>
                  in case mark_seen (wp_dedup wp) m (gs_seen st1) of (dup, seen) \<Rightarrow>
                    Some (if dup then Duplicate else Admitted m canonical, out, st1\<lparr>gs_seen := seen\<rparr>))"

text \<open>The frames a gate may admit, and what is left of them when each key counts once.\<close>

definition authentic :: "'x wire_params \<Rightarrow> bytes \<Rightarrow> 'x gossip_message option" where
  "authentic wp content =
     (case gm_parse (wp_uuid wp) (wp_mesh_id wp) (wp_json wp) content of
        Inl e \<Rightarrow> None
      | Inr m \<Rightarrow>
          (case canonical_bytes (wp_json wp) m of
             None \<Rightarrow> None
           | Some canonical \<Rightarrow>
               if gm_pubkey m \<noteq> wp_our_pubkey wp \<and> verify_signature_with (wp_key wp) (wp_verify wp) canonical m \<and>
                  gm_mesh m = wp_mesh wp
               then Some m else None))"

fun firsts :: "('a \<Rightarrow> 'k) \<Rightarrow> 'k set \<Rightarrow> 'a list \<Rightarrow> 'a list" where
  "firsts f seen [] = []"
| "firsts f seen (x # xs) = (if f x \<in> seen then firsts f seen xs else x # firsts f (insert (f x) seen) xs)"

text \<open>A stream of frames from either plane: the messages admitted, in order; \<open>None\<close> if one panics.\<close>

fun ingest_stream :: "'x wire_params \<Rightarrow> (bytes \<times> ('m \<Rightarrow> bool) \<times> nat) list \<Rightarrow> ('x, 'm) gate_state \<Rightarrow>
    ('x gossip_message list \<times> ('x, 'm) gate_state) option" where
  "ingest_stream wp [] st = Some ([], st)"
| "ingest_stream wp ((content, deliver, now) # rest) st =
     (case ingest_gate wp deliver now content st of
        None \<Rightarrow> None
      | Some (g, out, st1) \<Rightarrow>
          map_option (\<lambda>(ms, st2). ((case g of Admitted m canonical \<Rightarrow> m # ms | _ \<Rightarrow> ms), st2)) (ingest_stream wp rest st1))"

definition seen_within :: "nat \<Rightarrow> 'a set \<Rightarrow> 'a bounded_fifo_set \<Rightarrow> bool" where
  "seen_within c S s \<longleftrightarrow> bf_inv s \<and> bf_capacity s = c \<and> bf_set s = S"

lemma insert_within:
  assumes "seen_within c S s" "card (insert x S) \<le> c"
  shows "seen_within c (insert x S) (snd (bf_insert x s))"
proof (cases "x \<in> S")
  case True
  then show ?thesis using assms(1) by (auto simp: seen_within_def bf_insert_def)
next
  case False
  then have f: "finite S" "length (bf_order s) = card S" "bf_capacity s = c" "bf_set s = S"
    using assms(1) by (auto simp: seen_within_def bf_inv_def distinct_card)
  then have "\<not> length (bf_order s @ [x]) > bf_capacity s" using assms(2) False by simp
  then have "bf_set (snd (bf_insert x s)) = insert x S" using False f by (simp add: bf_insert_def Let_def)
  then show ?thesis using assms(1) by (simp add: seen_within_def bf_insert_inv)
qed

lemma gate_step:
  assumes "ingest_gate wp deliver now content st = Some (g, out, st1)" "seen_within c S (gs_seen st)"
  shows "(case authentic wp content of
      None \<Rightarrow> (\<forall>m cb. g \<noteq> Admitted m cb) \<and> st1 = st
    | Some m \<Rightarrow> (if wp_dedup wp m \<in> S then g = Duplicate else \<exists>cb. g = Admitted m cb) \<and>
        gs_seen st1 = snd (bf_insert (wp_dedup wp m) (gs_seen st)))"
  using assms unfolding ingest_gate_def authentic_def mark_seen_def
  by (auto simp: Let_def case_prod_beta bf_insert_new seen_within_def split: sum.splits option.splits if_splits)

lemma ingest_stream_spec:
  assumes "seen_within c S (gs_seen st)" "card (S \<union> wp_dedup wp ` set (List.map_filter (\<lambda>(content, _). authentic wp content) frames)) \<le> c"
    and "ingest_stream wp frames st = Some (ms, st')" "finite S"
  shows "ms = firsts (wp_dedup wp) S (List.map_filter (\<lambda>(content, _). authentic wp content) frames)"
  using assms
proof (induction frames arbitrary: S st ms)
  case Nil
  then show ?case by (simp add: List.map_filter_def)
next
  case (Cons frame frames)
  obtain content deliver now where f: "frame = (content, deliver, now)" by (metis prod_cases3)
  obtain g out st1 where g: "ingest_gate wp deliver now content st = Some (g, out, st1)"
    using Cons.prems(3) by (auto simp: f split: option.splits)
  obtain ms1 where ms1: "ingest_stream wp frames st1 = Some (ms1, st')" "ms = (case g of Admitted m cb \<Rightarrow> m # ms1 | _ \<Rightarrow> ms1)"
    using Cons.prems(3) g by (auto simp: f)
  let ?rest = "List.map_filter (\<lambda>(content, _). authentic wp content) frames"
  note step = gate_step [OF g Cons.prems(1)]
  show ?case
  proof (cases "authentic wp content")
    case None
    then have "st1 = st" "ms = ms1" using step ms1(2) by (auto split: gate.split)
    then show ?thesis using Cons None ms1(1) by (simp add: f List.map_filter_def)
  next
    case (Some m)
    let ?k = "wp_dedup wp m"
    have all: "S \<union> wp_dedup wp ` set (List.map_filter (\<lambda>(content, _). authentic wp content) (frame # frames)) =
        insert ?k S \<union> wp_dedup wp ` set ?rest" using Some by (simp add: f List.map_filter_def)
    have "card (insert ?k S) \<le> card (insert ?k S \<union> wp_dedup wp ` set ?rest)"
      using Cons.prems(4) by (intro card_mono) auto
    then have "card (insert ?k S) \<le> c" using Cons.prems(2) unfolding all by simp
    then have "seen_within c (insert ?k S) (gs_seen st1)"
      using insert_within [OF Cons.prems(1)] step Some by simp
    from Cons.IH [OF this _ ms1(1)] have ih: "ms1 = firsts (wp_dedup wp) (insert ?k S) ?rest"
      using Cons.prems(2,4) unfolding all by simp
    show ?thesis
    proof (cases "?k \<in> S")
      case True
      then show ?thesis using step Some ih ms1(2) by (simp add: f List.map_filter_def insert_absorb)
    next
      case False
      then show ?thesis using step Some ih ms1(2) by (auto simp: f List.map_filter_def)
    qed
  qed
qed


subsection \<open>Split bodies\<close>

record 'x shard_state =
  ss_store :: "'x reassembly_store"
  ss_groups :: "ustring bounded_fifo_set"

definition ss_new :: "'x shard_state" where
  "ss_new = \<lparr>ss_store = ra_new, ss_groups = bf_new MESSAGE_LOG_SIZE\<rparr>"

definition reassemble_from_log :: "'x gossip_message \<Rightarrow> 'x message_log \<Rightarrow> 'x gossip_message option" where
  "reassemble_from_log trigger l =
     (case gm_shard trigger of
        None \<Rightarrow> None
      | Some sh \<Rightarrow>
          if \<not> shard_fits_log trigger then None
          else let slots = collect_shards (sh_group sh) (gm_pubkey trigger) (sh_total sh) l
               in if list_ex (\<lambda>s. s = None) slots then None
                  else (case body_new (concat (map (\<lambda>s. gm_body (the s)) slots)) of
                          None \<Rightarrow> None
                        | Some body \<Rightarrow> Some (synthesize_from (the (slots ! 0)) body (sh_group sh))))"

definition reassemble :: "'x gossip_message \<Rightarrow> nat \<Rightarrow> 'x message_log \<Rightarrow> 'x shard_state \<Rightarrow>
    'x gossip_message option \<times> 'x shard_state" where
  "reassemble trigger now l st =
     (case gm_shard trigger of
        None \<Rightarrow> (None, st)
      | Some sh \<Rightarrow>
          if bf_contains (sh_group sh) (ss_groups st) then (None, st)
          else case ra_ingest trigger now (ss_store st) of
              (Complete logical, store) \<Rightarrow>
                (Some logical, \<lparr>ss_store = store, ss_groups = snd (bf_insert (sh_group sh) (ss_groups st))\<rparr>)
            | (_, store) \<Rightarrow>
                (case reassemble_from_log trigger l of
                   None \<Rightarrow> (None, st\<lparr>ss_store := store\<rparr>)
                 | Some logical \<Rightarrow>
                     (Some logical, \<lparr>ss_store = ra_forget (gm_pubkey trigger) (sh_group sh) store,
                        ss_groups = snd (bf_insert (sh_group sh) (ss_groups st))\<rparr>)))"

lemma reassemble_done:
  assumes "reassemble m now l st = (Some logical, st')" "gm_shard m = Some sh" "bf_inv (ss_groups st)"
  shows "sh_group sh \<in> bf_set (ss_groups st')"
  using assms by (auto simp: reassemble_def bf_insert_in split: if_splits prod.splits shard_ingest.splits option.splits)

text \<open>C39: a split body is surfaced once per group id, not once per author and group id. When anyone has
  completed a group under an id, every later shard of that id is dropped, whoever signed it: a peer that
  reads the id off the first shard of a body can finish a group of its own under it and suppress that body,
  although the store keeps authors apart.\<close>

theorem foreign_group_suppresses:
  assumes "reassemble m now l st = (Some logical, st')" "gm_shard m = Some sh" "bf_inv (ss_groups st)"
    and "gm_shard victim = Some sh'" "sh_group sh' = sh_group sh"
  shows "reassemble victim later l' st' = (None, st')"
  using reassemble_done [OF assms(1-3)] assms(4,5) by (simp add: reassemble_def bf_contains_def)

subsection \<open>Sealed bodies\<close>

record 'x app_params =
  ap_classify :: "'x gossip_message \<Rightarrow> app_class"
  ap_on_frame :: "'x gossip_message \<Rightarrow> bool \<Rightarrow> bool"
  ap_author :: ustring
  ap_unseal :: "ustring \<Rightarrow> ustring option"
  ap_broadcast_open :: "(ustring \<Rightarrow> ustring option) option"
  ap_subscribed :: bool

definition is_directed_content :: "message_kind \<Rightarrow> bool" where
  "is_directed_content k = (case k of App tag to corr \<Rightarrow> to \<noteq> None | _ \<Rightarrow> False)"

definition addressed_to_us :: "'x gossip_message \<Rightarrow> ustring \<Rightarrow> bool" where
  "addressed_to_us m us = (case gm_kind m of App tag (Some to) corr \<Rightarrow> to = us | _ \<Rightarrow> True)"

text \<open>What passes: the body to restore before retention, the class, and the message to surface.\<close>

datatype 'x gated = Drop | Pass "ustring option" "app_class option" "'x gossip_message"

definition gate_app_payload :: "'x app_params \<Rightarrow> 'x gossip_message \<Rightarrow> app_class option" where
  "gate_app_payload ap m = (let cls = ap_classify ap m in if ac_valid cls then Some cls else None)"

definition decrypt_broadcast :: "'x app_params \<Rightarrow> 'x gossip_message \<Rightarrow> (ustring \<times> 'x gossip_message) option" where
  "decrypt_broadcast ap m =
     (case ap_broadcast_open ap of
        None \<Rightarrow> None
      | Some opens \<Rightarrow>
          (case opens (gm_body m) of
             None \<Rightarrow> None
           | Some plain \<Rightarrow> (case body_new plain of None \<Rightarrow> None | Some body \<Rightarrow> Some (gm_body m, m\<lparr>gm_body := body\<rparr>))))"

definition decrypt_directed :: "'x app_params \<Rightarrow> 'x gossip_message \<Rightarrow> 'x gossip_message option" where
  "decrypt_directed ap m =
     (if \<not> is_directed_content (gm_kind m) \<or> \<not> addressed_to_us m (ap_author ap) then Some m
      else case ap_unseal ap (gm_body m) of
          None \<Rightarrow> None
        | Some plain \<Rightarrow> (case body_new plain of None \<Rightarrow> None | Some body \<Rightarrow> Some (m\<lparr>gm_body := body\<rparr>)))"

definition gate_directed_to_us :: "'x app_params \<Rightarrow> 'x gossip_message \<Rightarrow> 'x gated" where
  "gate_directed_to_us ap m =
     (if \<not> ac_sealed (ap_classify ap m)
      then (case gate_app_payload ap m of None \<Rightarrow> Drop | Some cls \<Rightarrow> Pass None (Some cls) m)
      else case decrypt_directed ap m of
          None \<Rightarrow> Drop
        | Some m1 \<Rightarrow> (case gate_app_payload ap m1 of None \<Rightarrow> Drop | Some cls \<Rightarrow> Pass (Some (gm_body m)) (Some cls) m1))"

definition gate_and_decrypt :: "'x app_params \<Rightarrow> 'x gossip_message \<Rightarrow> 'x gated" where
  "gate_and_decrypt ap m =
     (if is_directed_content (gm_kind m)
      then if \<not> addressed_to_us m (ap_author ap) then Pass None None m else gate_directed_to_us ap m
      else if (case gm_kind m of App tag None corr \<Rightarrow> True | _ \<Rightarrow> False) \<and> ap_broadcast_open ap \<noteq> None
      then (case decrypt_broadcast ap m of
              None \<Rightarrow> Drop
            | Some (sealed, m1) \<Rightarrow> (case gate_app_payload ap m1 of None \<Rightarrow> Drop | Some cls \<Rightarrow> Pass (Some sealed) (Some cls) m1))
      else case kind_app_tag (gm_kind m) of
          Some _ \<Rightarrow> (case gate_app_payload ap m of None \<Rightarrow> Drop | Some cls \<Rightarrow> Pass None (Some cls) m)
        | None \<Rightarrow> Pass None None m)"

subsection \<open>Routing and retention\<close>

datatype 'x inbound_action = Push "'x gossip_message" | AppFrame "'x gossip_message" bool | Infra "'x gossip_message" | ForkEvent "'x gossip_message"

definition maybe_push_inbound :: "'x app_params \<Rightarrow> 'x gossip_message \<Rightarrow> bool \<Rightarrow> app_class option \<Rightarrow> 'x inbound_action list" where
  "maybe_push_inbound ap m surfaceable cls =
     (if \<not> ap_subscribed ap \<or> \<not> surfaceable \<or> \<not> addressed_to_us m (ap_author ap) \<or>
         (case gm_kind m of Digest \<Rightarrow> True | StateDigest \<Rightarrow> True | MetaDigest \<Rightarrow> True | State \<Rightarrow> True | Meta \<Rightarrow> True
            | Ping \<Rightarrow> True | Pong to \<Rightarrow> True | _ \<Rightarrow> False) then []
      else if (case kind_app_tag (gm_kind m) of
                 Some _ \<Rightarrow> (case cls of None \<Rightarrow> False | Some c \<Rightarrow> ac_loggable c \<and> \<not> ac_beat c) | None \<Rightarrow> True)
      then [Push m] else [])"

text \<open>Which kinds go on to retention after their handler ran.\<close>

definition dispatch_continues :: "message_kind \<Rightarrow> bool" where
  "dispatch_continues k = (case k of Presence s \<Rightarrow> True | _ \<Rightarrow> False)"

record 'x plane_state =
  ps_retained :: "'x retention"
  ps_shards :: "'x shard_state"

definition retain_step :: "('x gossip_message \<Rightarrow> ustring) \<Rightarrow> 'x gossip_message \<Rightarrow> app_class option \<Rightarrow> 'x plane_state \<Rightarrow>
    ('x inbound_action list \<times> 'x plane_state) option" where
  "retain_step hx m cls st =
     map_option (\<lambda>(r, rt). (if rr_fork r then [ForkEvent m] else [], st\<lparr>ps_retained := rt\<rparr>)) (retain_and_index hx m cls (ps_retained st))"

definition handle_shard :: "('x gossip_message \<Rightarrow> ustring) \<Rightarrow> 'x app_params \<Rightarrow> nat \<Rightarrow> bool \<Rightarrow> 'x gossip_message \<Rightarrow> 'x plane_state \<Rightarrow>
    ('x inbound_action list \<times> 'x plane_state) option" where
  "handle_shard hx ap now surfaceable m st =
     (if \<not> addressed_to_us m (ap_author ap) then Some ([], st)
      else
        let shard_class = (case kind_app_tag (gm_kind m) of None \<Rightarrow> None | Some _ \<Rightarrow> Some (ap_classify ap m)) in
        case (if shard_fits_log m then retain_step hx m shard_class st else Some ([], st)) of
          None \<Rightarrow> None
        | Some (out, st1) \<Rightarrow>
            (case reassemble m now (rt_log (ps_retained st1)) (ps_shards st1) of
               (None, sh) \<Rightarrow> Some (out, st1\<lparr>ps_shards := sh\<rparr>)
             | (Some logical, sh) \<Rightarrow>
                 (case gate_and_decrypt ap logical of
                    Drop \<Rightarrow> Some (out, st1\<lparr>ps_shards := sh\<rparr>)
                  | Pass sealed cls plain \<Rightarrow>
                      Some (out @ maybe_push_inbound ap plain surfaceable cls @ [AppFrame plain surfaceable], st1\<lparr>ps_shards := sh\<rparr>))))"

definition ingest_body :: "('x gossip_message \<Rightarrow> ustring) \<Rightarrow> 'x app_params \<Rightarrow> nat \<Rightarrow> bool \<Rightarrow> 'x gossip_message \<Rightarrow> 'x plane_state \<Rightarrow>
    ('x inbound_action list \<times> 'x plane_state) option" where
  "ingest_body hx ap now surfaceable m st =
     (if gm_shard m \<noteq> None then handle_shard hx ap now surfaceable m st
      else case gate_and_decrypt ap m of
          Drop \<Rightarrow> Some ([], st)
        | Pass sealed cls plain \<Rightarrow>
            let pushed = maybe_push_inbound ap plain surfaceable cls;
                (acted, goes_on) = (case gm_kind plain of
                    App tag to corr \<Rightarrow> ([AppFrame plain surfaceable], ap_on_frame ap plain surfaceable)
                  | _ \<Rightarrow> ([Infra plain], dispatch_continues (gm_kind plain)));
                wire = (case sealed of None \<Rightarrow> plain | Some body \<Rightarrow> plain\<lparr>gm_body := body\<rparr>)
            in if \<not> goes_on then Some (pushed @ acted, st)
               else map_option (\<lambda>(out, st1). (pushed @ acted @ out, st1)) (retain_step hx wire cls st))"

subsection \<open>What a member keeps and shows\<close>

lemma ml_add_messages: "ml_messages (ml_add m l) = ml_messages l @ [m]"
  by (simp add: ml_add_def)

lemma set_append_single: "set (xs @ [x]) = insert x (set xs)"
  by simp

lemma push_subset:
  assumes "ml_push m l = Some (gone, l')" shows "set (ml_messages l') \<subseteq> insert m (set (ml_messages l))"
proof -
  have "set (take i xs @ drop (i + 1) xs) \<subseteq> set xs" for i and xs :: "'a gossip_message list"
    by (auto dest: in_set_takeD in_set_dropD)
  then have "set (ml_messages (snd (ml_take_out i k))) \<subseteq> set (ml_messages k)" for i and k :: "'a message_log"
    by (simp add: ml_take_out_def Let_def)
  then have out: "set (ml_messages (snd (ml_take_out i (ml_add m l)))) \<subseteq> insert m (set (ml_messages l))" for i
    by (metis ml_add_messages set_append_single)
  show ?thesis
  proof (cases "length (ml_messages (ml_add m l)) \<le> ml_capacity (ml_add m l)")
    case True
    then show ?thesis using assms by (auto simp: ml_push_def Let_def ml_add_messages)
  next
    case False
    then obtain i where "l' = snd (ml_take_out i (ml_add m l))"
      using assms by (auto simp: ml_push_def Let_def case_prod_beta split: option.splits)
    then show ?thesis using out by simp
  qed
qed

lemma retain_subset:
  assumes "retain_and_index hx m cls st = Some (r, st')"
  shows "set (ml_messages (rt_log st')) \<subseteq> insert m (set (ml_messages (rt_log st)))"
proof -
  have push: "set (ml_messages (rt_log s')) \<subseteq> insert m (set (ml_messages (rt_log s)))"
    if "push_to_log hx m s = Some s'" for s s' :: "'a retention"
    using that by (auto simp: push_to_log_def Let_def split: option.splits prod.splits dest!: push_subset)
  show ?thesis using assms push unfolding retain_and_index_def Let_def
    by (fastforce split: if_splits prod.splits option.splits)
qed

lemma retain_step_subset:
  "retain_step hx m cls st = Some (out, st') \<Longrightarrow>
   set (ml_messages (rt_log (ps_retained st'))) \<subseteq> insert m (set (ml_messages (rt_log (ps_retained st)))) \<and> ps_shards st' = ps_shards st"
  by (auto simp: retain_step_def dest!: retain_subset)

lemma gate_restores:
  assumes "gate_and_decrypt ap m = Pass sealed cls plain"
  shows "(case sealed of None \<Rightarrow> plain | Some body \<Rightarrow> plain\<lparr>gm_body := body\<rparr>) = m \<and> gm_kind plain = gm_kind m"
  using assms
  by (auto simp: gate_and_decrypt_def gate_directed_to_us_def decrypt_directed_def decrypt_broadcast_def
      split: if_splits option.splits prod.splits)

lemma handle_shard_subset:
  assumes "handle_shard hx ap now surfaceable m st = Some (out, st')"
  shows "set (ml_messages (rt_log (ps_retained st'))) \<subseteq> insert m (set (ml_messages (rt_log (ps_retained st))))"
proof (cases "addressed_to_us m (ap_author ap)")
  case True
  define cls where "cls = (case kind_app_tag (gm_kind m) of None \<Rightarrow> None | Some _ \<Rightarrow> Some (ap_classify ap m))"
  obtain out1 st1 where r: "(if shard_fits_log m then retain_step hx m cls st else Some ([], st)) = Some (out1, st1)"
    using assms True by (auto simp: handle_shard_def Let_def cls_def [symmetric] split: option.splits)
  have "ps_retained st' = ps_retained st1"
    using assms True r by (auto simp: handle_shard_def Let_def cls_def [symmetric] split: prod.splits option.splits gated.splits)
  then show ?thesis using r retain_step_subset [of hx m cls st out1 st1] by (auto split: if_splits)
qed (use assms in \<open>auto simp: handle_shard_def\<close>)



subsection \<open>Link states and the resend budget\<close>

lemma link_state_not_kept:
  assumes "gm_kind x = LinkState" "gm_shard x = None"
  shows "\<exists>acts. ingest_body hx ap now surfaceable x st = Some (acts, st)"
proof -
  have "gate_and_decrypt ap x = Pass None None x"
    using assms by (simp add: gate_and_decrypt_def is_directed_content_def)
  then show ?thesis using assms by (simp add: ingest_body_def Let_def dispatch_continues_def)
qed

text \<open>C40: a node retains its own link-state vectors while no receiver retains them, so no peer ever advertises
  one, and once as many of them as an answer holds are newer than a message, every answer consists of them:
  that message is never resent by this node.\<close>

theorem link_states_crowd_out:
  assumes "ml_messages (ds_log st) = older @ ls" "max_resend \<le> length ls"
    and "list_all (\<lambda>x. gm_kind x = LinkState \<and> gm_shard x = None \<and> ser x) ls"
    and "parse (gm_body digest) = Some (w # ws)" "\<not> cd_on_cooldown (gm_pubkey digest) now (ds_serves st)"
    and "list_all (\<lambda>x. ww_lo w \<le> gm_ts x \<and> gm_ts x \<le> ww_hi w \<and> dk x \<notin> advertised unb58 (w # ws)) ls"
  shows "fst (handle_digest dk unb58 parse ser max_resend digest now st) = take max_resend (rev ls) \<and>
    (\<forall>x\<in>set ls. is_loggable (gm_kind x) \<and> (\<exists>acts. ingest_body hx ap later surfaceable x pst = Some (acts, pst)))"
proof -
  define known where "known = advertised unb58 (w # ws)"
  have "list_all (\<lambda>x. ww_lo w \<le> gm_ts x \<and> gm_ts x \<le> ww_hi w \<and> dk x \<notin> known \<and> resendable_to x (gm_author digest)) (rev ls)"
    using assms(3,6) by (auto simp: list_all_iff resendable_to_def known_def)
  then have "filter (\<lambda>x. gm_ts x \<ge> ww_lo w \<and> gm_ts x \<le> ww_hi w \<and> dk x \<notin> known \<and> resendable_to x (gm_author digest)) (rev ls) = rev ls"
    by (intro filter_True) (simp add: list_all_iff)
  then have miss: "missing_in_window dk (ww_lo w) (ww_hi w) known max_resend (gm_author digest) (ds_log st) = take max_resend (rev ls)"
    using assms(1,2) by (simp add: missing_in_window_def)
  have "list_all ser (take max_resend (rev ls))"
    using assms(3) by (auto simp: list_all_iff dest!: in_set_takeD)
  then have "resend_batch dk ser (take max_resend (rev ls)) known max_resend =
      (take max_resend (rev ls), known \<union> dk ` set (take max_resend (rev ls)), 0)"
    using resend_batch_all [of ser "take max_resend (rev ls)" dk known max_resend] assms(2) by (simp add: Un_commute)
  moreover have "resend_windows dk ser (ds_log st) (gm_author digest) ws k 0 = []" for k by (cases ws) simp_all
  ultimately have "resend_windows dk ser (ds_log st) (gm_author digest) (w # ws) known max_resend = take max_resend (rev ls)"
    by (simp add: miss)
  then have "fst (handle_digest dk unb58 parse ser max_resend digest now st) = take max_resend (rev ls)"
    using assms(5) unfolding handle_digest_def assms(4) option.case known_def [symmetric] by (simp add: admit_digest_def del: resend_windows.simps)
  moreover have "\<forall>x\<in>set ls. is_loggable (gm_kind x) \<and> (\<exists>acts. ingest_body hx ap later surfaceable x pst = Some (acts, pst))"
    using assms(3) by (auto simp: list_all_iff is_loggable_def intro!: link_state_not_kept)
  ultimately show ?thesis ..
qed

subsection \<open>Demonstrations\<close>

definition demo_signed :: "unit gossip_message" where
  "demo_signed = demo_frame\<lparr>gm_pubkey := id_to_hex (replicate 32 1), gm_sig := id_to_hex (replicate 64 2)\<rparr>"

definition demo_wire :: "unit wire_params" where
  "demo_wire = \<lparr>wp_uuid = (\<lambda>_. True), wp_mesh_id = (\<lambda>_. True), wp_json = demo_json\<lparr>js_parse := (\<lambda>bs. Some demo_signed)\<rparr>,
     wp_key = (\<lambda>_. True), wp_verify = (\<lambda>pk bs sg. sg = replicate 64 2), wp_sha = (\<lambda>bs. bs), wp_uuid_bytes = (\<lambda>_. []),
     wp_our_pubkey = [], wp_mesh = ustr ''mesh''\<rparr>"

lemma demo_gated:
  assumes short: "length content \<le> MAX_MESSAGE_SIZE"
  obtains cb where "gm_parse (wp_uuid demo_wire) (wp_mesh_id demo_wire) (wp_json demo_wire) content = Inr demo_signed"
    "canonical_bytes (wp_json demo_wire) demo_signed = Some cb"
    "verify_signature_with (wp_key demo_wire) (wp_verify demo_wire) cb demo_signed"
    "gm_pubkey demo_signed \<noteq> wp_our_pubkey demo_wire" "gm_mesh demo_signed = wp_mesh demo_wire"
proof -
  have hex: "is_lower_hex (id_to_hex (replicate 32 1)) 32" "is_lower_hex (id_to_hex (replicate 64 2)) 64"
    using id_hex_lower [of "replicate 32 1"] id_hex_lower [of "replicate 64 2"] by simp_all
  have ne: "id_to_hex (replicate 32 1) \<noteq> []" "id_to_hex (replicate 64 2) \<noteq> []"
    using hex by (auto simp: is_lower_hex_def byte_len_def)
  have "canonical_fields demo_json demo_signed = canonical_fields demo_json (demo_frame\<lparr>gm_pubkey := id_to_hex (replicate 32 1)\<rparr>)"
    by (simp add: canonical_fields_def demo_signed_def)
  moreover have "list_all (\<lambda>f. length f \<le> u32_max) (canonical_fields demo_json (demo_frame\<lparr>gm_pubkey := id_to_hex (replicate 32 1)\<rparr>))"
    by (rule demo_fields_short) (simp add: id_hex_bytes to_hex_length u32_max_def)
  ultimately have "list_all (\<lambda>f. length f \<le> u32_max) (canonical_fields (wp_json demo_wire) demo_signed)"
    by (simp add: demo_wire_def canonical_fields_def)
  then obtain cb where cb: "canonical_bytes (wp_json demo_wire) demo_signed = Some cb" by (simp add: canonical_bytes_def)
  have nick: "nickname_new (ustr ''me'') = Inr (ustr ''me'')" by code_simp
  have "fields_valid (wp_uuid demo_wire) (wp_mesh_id demo_wire) demo_signed"
    by (simp add: fields_valid_def demo_wire_def demo_signed_def demo_frame_def gm_new_def demo_stamp_def message_id_new_def
        kind_valid_def body_new_def nick)
  then have "gm_parse (wp_uuid demo_wire) (wp_mesh_id demo_wire) (wp_json demo_wire) content = Inr demo_signed"
    using hex short by (simp add: gm_parse_def demo_wire_def) (simp add: demo_signed_def demo_frame_def gm_new_def)
  moreover have "verify_signature_with (wp_key demo_wire) (wp_verify demo_wire) cb demo_signed"
    using ne by (simp add: verify_signature_with_def decode_pubkey_def decode_sig_def id_hex_round_trip demo_wire_def demo_signed_def)
  moreover have "gm_pubkey demo_signed \<noteq> wp_our_pubkey demo_wire" "gm_mesh demo_signed = wp_mesh demo_wire"
    using ne by (simp_all add: demo_wire_def demo_signed_def demo_frame_def gm_new_def)
  ultimately show thesis using cb that by blast
qed

definition demo_gate :: "(unit, unit) gate_state" where
  "demo_gate = \<lparr>gs_links = nl_new 7 False 0, gs_seen = bf_new SEEN_IDS_CAP\<rparr>"

lemma demo_short: "length ([1] :: bytes) \<le> MAX_MESSAGE_SIZE"
  by (simp add: MAX_MESSAGE_SIZE_def)

lemma demo_authentic: "authentic demo_wire [1] = Some demo_signed"
  by (rule demo_gated [OF demo_short]) (simp add: authentic_def)

lemma demo_passes: "ingest_gate demo_wire deliver now [1] st \<noteq> None"
  by (rule demo_gated [OF demo_short]) (simp add: ingest_gate_def case_prod_beta Let_def)

lemma demo_stream: "ingest_stream demo_wire [([1], \<lambda>_. True, 1), ([1], \<lambda>_. True, 2)] demo_gate \<noteq> None"
proof -
  obtain g out st1 where one: "ingest_gate demo_wire (\<lambda>_. True) 1 [1] demo_gate = Some (g, out, st1)"
    using demo_passes [of "\<lambda>_. True" 1 demo_gate] by fastforce
  obtain g2 out2 st2 where "ingest_gate demo_wire (\<lambda>_. True) 2 [1] st1 = Some (g2, out2, st2)"
    using demo_passes [of "\<lambda>_. True" 2 st1] by fastforce
  then show ?thesis by (simp add: one [simplified])
qed


text \<open>A group of two finished by one author blocks the other author's.\<close>

definition demo_piece :: "ustring \<Rightarrow> nat \<Rightarrow> unit gossip_message" where
  "demo_piece author i = (demo_msg author i)\<lparr>gm_shard := Some \<lparr>sh_group = ustr ''g'', sh_idx = i, sh_total = 2\<rparr>\<rparr>"

theorem foreign_group_suppresses_witness:
  "\<exists>logical st'. reassemble (demo_piece [2] 1) 5 \<lparr>ml_capacity = 9, ml_messages = [demo_piece [2] 0, demo_piece [2] 1], ml_per_author = []\<rparr> ss_new =
      (Some logical, st') \<and> reassemble (demo_piece [1] 1) 6 (ml_new 9) st' = (None, st')"
proof -
  let ?l = "\<lparr>ml_capacity = 9, ml_messages = [demo_piece [2] 0, demo_piece [2] 1], ml_per_author = []\<rparr>"
  have "reassemble_from_log (demo_piece [2] 1) ?l \<noteq> None"
    by (simp add: reassemble_from_log_def demo_piece_def shard_fits_log_def LOGGED_SHARD_GROUP_MAX_TOTAL_def collect_shards_def
        demo_msg_def demo_frame_def gm_new_def body_new_def numeral_2_eq_2)
  then have "fst (reassemble (demo_piece [2] 1) 5 ?l ss_new) \<noteq> None"
    by (auto simp: reassemble_def ss_new_def bf_contains_def bf_new_def demo_piece_def split: prod.split shard_ingest.split)
  then obtain logical st' where r: "reassemble (demo_piece [2] 1) 5 ?l ss_new = (Some logical, st')"
    by (metis not_None_eq prod.collapse)
  have "reassemble (demo_piece [1] 1) 6 (ml_new 9) st' = (None, st')"
    by (rule foreign_group_suppresses [OF r]) (simp_all add: demo_piece_def ss_new_def)
  then show ?thesis using r by blast
qed

definition demo_app :: "unit app_params" where
  "demo_app = \<lparr>ap_classify = (\<lambda>_. the demo_chat), ap_on_frame = (\<lambda>_ _. True), ap_author = ustr ''me'', ap_unseal = (\<lambda>_. None),
     ap_broadcast_open = None, ap_subscribed = True\<rparr>"

definition demo_plane :: "unit plane_state" where
  "demo_plane = \<lparr>ps_retained = rt_new 4, ps_shards = ss_new\<rparr>"



definition demo_vector :: "nat \<Rightarrow> unit gossip_message" where
  "demo_vector i = (demo_msg [1] i)\<lparr>gm_kind := LinkState\<rparr>"

theorem link_states_crowd_out_witness:
  "fst (handle_digest demo_dk (\<lambda>_. Some []) (\<lambda>_. Some [\<lparr>ww_lo = 0, ww_hi = 9, ww_ids = []\<rparr>]) (\<lambda>_. True) 2 (demo_msg [2] 3) 0
     (demo_digest_state [demo_msg [1] 1, demo_vector 2, demo_vector 3])) = [demo_vector 3, demo_vector 2]"
proof -
  have "gm_shard (demo_vector i) = None" "gm_kind (demo_vector i) = LinkState" "gm_ts (demo_vector i) = gm_ts (demo_msg [1] i)" for i
    by (simp_all add: demo_vector_def demo_msg_def demo_frame_def gm_new_def gm_ts_def)
  moreover have "advertised (\<lambda>_. Some []) [\<lparr>ww_lo = 0, ww_hi = 9, ww_ids = []\<rparr>] = {}"
    by (simp add: ww_decode_ids_def chunks16.simps)
  ultimately show ?thesis
    using link_states_crowd_out [where st = "demo_digest_state [demo_msg [1] 1, demo_vector 2, demo_vector 3]"
        and older = "[demo_msg [1] 1]" and ls = "[demo_vector 2, demo_vector 3]" and max_resend = 2 and ser = "\<lambda>_. True"
        and parse = "\<lambda>_. Some [\<lparr>ww_lo = 0, ww_hi = 9, ww_ids = []\<rparr>]" and w = "\<lparr>ww_lo = 0, ww_hi = 9, ww_ids = []\<rparr>" and ws = "[]"
        and digest = "demo_msg [2] 3" and now = 0 and dk = demo_dk and ?unb58.0 = "\<lambda>_. Some []"]
    by (simp add: demo_digest_state_def cd_on_cooldown_def cd_new_def del: advertised_simps)
qed

end
