(* ===== verification/FastRounds.thy ===== *)
theory FastRounds
  imports AntiEntropy
begin

text \<open>
  Who is answered and who is asked for state: \<open>ServeBudget\<close>, \<open>FastRounds\<close> and the decisions of
  \<open>handle_state_digest\<close>, \<open>ask_back\<close> and \<open>resume_fast_rounds\<close> (\<open>gossip/antientropy.rs\<close>). Heads keys
  (hashes of JSON) are numbers; the document, the unicast pool and the network are parameters.
\<close>

datatype plane = Unicast | Gossip

type_synonym serve_key = "ustring \<times> channel \<times> plane"

record served =
  sv_since :: nat
  sv_answers :: nat
  sv_heads :: "nat \<Rightarrow> nat option"

type_synonym serve_budget = "serve_key \<Rightarrow> served option"

definition SERVE_WINDOW :: nat where "SERVE_WINDOW = secs ANTIENTROPY_SERVE_COOLDOWN_SECS"
definition SERVE_REPEAT :: nat where "SERVE_REPEAT = millis FAST_ROUND_MIN_INTERVAL_MS"

fun serve_limit :: "plane \<Rightarrow> nat" where
  "serve_limit Unicast = ANTIENTROPY_SERVES_PER_WINDOW"
| "serve_limit Gossip = 1"

definition sb_admits :: "serve_key \<Rightarrow> nat \<Rightarrow> nat \<Rightarrow> serve_budget \<Rightarrow> bool" where
  "sb_admits key heads now b =
     (case b key of
        None \<Rightarrow> True
      | Some sv \<Rightarrow>
          if now - sv_since sv < SERVE_WINDOW
          then \<not> (case sv_heads sv heads of None \<Rightarrow> False | Some at \<Rightarrow> snd (snd key) = Gossip \<or> now - at < SERVE_REPEAT) \<and>
               sv_answers sv < serve_limit (snd (snd key))
          else True)"

definition sb_note :: "serve_key \<Rightarrow> nat \<Rightarrow> nat \<Rightarrow> serve_budget \<Rightarrow> serve_budget" where
  "sb_note key heads now b =
     (let b1 = (\<lambda>k. case b k of None \<Rightarrow> None | Some sv \<Rightarrow> if now - sv_since sv < SERVE_WINDOW then Some sv else None);
          sv = (case b1 key of None \<Rightarrow> \<lparr>sv_since = now, sv_answers = 0, sv_heads = (\<lambda>_. None)\<rparr> | Some sv \<Rightarrow> sv)
      in b1(key := Some (sv\<lparr>sv_answers := sv_answers sv + 1, sv_heads := (sv_heads sv)(heads := Some now)\<rparr>)))"

text \<open>How many of the answers given (newest first) went to a key.\<close>

definition given_to :: "serve_key \<Rightarrow> (serve_key \<times> nat \<times> nat) list \<Rightarrow> nat" where
  "given_to key given = length (filter (\<lambda>g. fst g = key) given)"

lemma serve_window_pos: "0 < SERVE_WINDOW"
  by (simp add: SERVE_WINDOW_def secs_def ANTIENTROPY_SERVE_COOLDOWN_SECS_def)

lemma serve_limit_pos: "0 < serve_limit p"
  by (cases p) (simp_all add: ANTIENTROPY_SERVES_PER_WINDOW_def)

text \<open>What is given to a key up to a time, and the entry that is open for it.\<close>

definition serve_inv :: "serve_key \<Rightarrow> nat \<Rightarrow> serve_budget \<Rightarrow> (serve_key \<times> nat \<times> nat) list \<Rightarrow> bool" where
  "serve_inv key now b given \<longleftrightarrow>
     (case b key of
        None \<Rightarrow> given_to key given \<le> serve_limit (snd (snd key)) * (now div SERVE_WINDOW)
      | Some sv \<Rightarrow> sv_since sv \<le> now \<and> sv_answers sv \<le> serve_limit (snd (snd key)) \<and>
          given_to key given \<le> serve_limit (snd (snd key)) * (sv_since sv div SERVE_WINDOW) + sv_answers sv)"

lemma div_later: "since + SERVE_WINDOW \<le> now \<Longrightarrow> Suc (since div SERVE_WINDOW) \<le> now div SERVE_WINDOW"
  using div_le_mono [of "since + SERVE_WINDOW" now SERVE_WINDOW] div_add_self2 [of SERVE_WINDOW since] serve_window_pos
  by (metis Suc_eq_plus1 less_numeral_extra(3))

lemma serve_inv_closed:
  assumes "serve_inv key now b given" "now \<le> now'" "case b key of None \<Rightarrow> True | Some sv \<Rightarrow> sv_since sv + SERVE_WINDOW \<le> now'"
  shows "given_to key given \<le> serve_limit (snd (snd key)) * (now' div SERVE_WINDOW)"
proof (cases "b key")
  case None
  then have "given_to key given \<le> serve_limit (snd (snd key)) * (now div SERVE_WINDOW)" using assms(1) by (simp add: serve_inv_def)
  also have "\<dots> \<le> serve_limit (snd (snd key)) * (now' div SERVE_WINDOW)" using assms(2) by (intro mult_le_mono2 div_le_mono)
  finally show ?thesis .
next
  case (Some sv)
  then have "given_to key given \<le> serve_limit (snd (snd key)) * (sv_since sv div SERVE_WINDOW) + serve_limit (snd (snd key))"
    using assms(1) by (simp add: serve_inv_def)
  also have "\<dots> = serve_limit (snd (snd key)) * Suc (sv_since sv div SERVE_WINDOW)" by simp
  also have "\<dots> \<le> serve_limit (snd (snd key)) * (now' div SERVE_WINDOW)"
    using assms(3) Some div_later by (intro mult_le_mono2) simp
  finally show ?thesis .
qed

lemma serve_step:
  assumes inv: "serve_inv key now b given" and t: "now \<le> now'" and ok: "sb_admits k heads now' b"
  shows "serve_inv key now' (sb_note k heads now' b) ((k, heads, now') # given)"
proof (cases "k = key")
  case other: False
  show ?thesis
  proof (cases "\<exists>sv. b key = Some sv \<and> now' - sv_since sv < SERVE_WINDOW")
    case True
    then show ?thesis using inv t other by (auto simp: serve_inv_def sb_note_def Let_def given_to_def)
  next
    case False
    then have "sb_note k heads now' b key = None"
      using other by (auto simp: sb_note_def Let_def split: option.split)
    moreover have "case b key of None \<Rightarrow> True | Some sv \<Rightarrow> sv_since sv + SERVE_WINDOW \<le> now'"
      using False inv t by (auto simp: serve_inv_def split: option.splits)
    ultimately show ?thesis using serve_inv_closed [OF inv t] other by (simp add: serve_inv_def given_to_def)
  qed
next
  case True
  show ?thesis
  proof (cases "\<exists>sv. b key = Some sv \<and> now' - sv_since sv < SERVE_WINDOW")
    case live: True
    then obtain sv where sv: "b key = Some sv" "now' - sv_since sv < SERVE_WINDOW" by blast
    then have "sv_answers sv < serve_limit (snd (snd key))" using ok True by (simp add: sb_admits_def)
    then show ?thesis using sv inv t True by (simp add: serve_inv_def sb_note_def Let_def given_to_def)
  next
    case False
    then have entry: "sb_note key heads now' b key = Some \<lparr>sv_since = now', sv_answers = 1, sv_heads = (\<lambda>_. None)(heads := Some now')\<rparr>"
      using True by (auto simp: sb_note_def Let_def split: option.split)
    have "case b key of None \<Rightarrow> True | Some sv \<Rightarrow> sv_since sv + SERVE_WINDOW \<le> now'"
      using False inv t by (auto simp: serve_inv_def split: option.splits)
    then have "given_to key given \<le> serve_limit (snd (snd key)) * (now' div SERVE_WINDOW)" by (rule serve_inv_closed [OF inv t])
    then show ?thesis using True serve_limit_pos [of "snd (snd key)"] by (simp add: serve_inv_def entry given_to_def Suc_le_eq)
  qed
qed

lemma serve_inv_later:
  assumes "serve_inv key now b given" "now \<le> now'" shows "serve_inv key now' b given"
proof (cases "b key")
  case None
  then show ?thesis using serve_inv_closed [OF assms] by (simp add: serve_inv_def)
next
  case (Some sv)
  then show ?thesis using assms by (simp add: serve_inv_def)
qed

lemma serve_inv_bound:
  assumes "serve_inv key now b given"
  shows "given_to key given \<le> serve_limit (snd (snd key)) * Suc (now div SERVE_WINDOW)"
proof (cases "b key")
  case None
  then show ?thesis using assms by (simp add: serve_inv_def)
next
  case (Some sv)
  then have "given_to key given \<le> serve_limit (snd (snd key)) * Suc (sv_since sv div SERVE_WINDOW)"
    using assms by (simp add: serve_inv_def)
  also have "\<dots> \<le> serve_limit (snd (snd key)) * Suc (now div SERVE_WINDOW)"
    using assms Some by (intro mult_le_mono2) (simp add: serve_inv_def div_le_mono)
  finally show ?thesis .
qed

subsection \<open>The running round and the peers that are ahead\<close>

record round =
  rd_peer :: ustring
  rd_at :: nat
  rd_heads :: nat
  rd_changes :: nat

record waiting =
  wt_pubkey :: ustring
  wt_author :: ustring
  wt_heads :: "ustring list"
  wt_noted :: nat

record fast_rounds =
  fr_rounds :: "channel \<Rightarrow> round option"
  fr_ahead :: "channel \<Rightarrow> waiting list option"
  fr_last_change :: "channel \<Rightarrow> nat option"

definition fr_new :: fast_rounds where
  "fr_new = \<lparr>fr_rounds = (\<lambda>_. None), fr_ahead = (\<lambda>_. None), fr_last_change = (\<lambda>_. None)\<rparr>"

definition MIN_INTERVAL :: nat where "MIN_INTERVAL = millis FAST_ROUND_MIN_INTERVAL_MS"
definition ACTIVE :: nat where "ACTIVE = millis FAST_ROUND_ACTIVE_MS"
definition RETRY :: nat where "RETRY = millis FAST_ROUND_RETRY_MS"

definition quiet_since :: "channel \<Rightarrow> round \<Rightarrow> fast_rounds \<Rightarrow> nat" where
  "quiet_since ch r fr =
     (let latest = (case fr_last_change fr ch of None \<Rightarrow> rd_at r | Some changed \<Rightarrow> max changed (rd_at r))
      in min latest (rd_at r + ACTIVE))"

definition may_ask :: "ustring \<Rightarrow> channel \<Rightarrow> nat \<Rightarrow> nat \<Rightarrow> nat \<Rightarrow> fast_rounds \<Rightarrow> bool" where
  "may_ask peer ch heads changes now fr =
     (case fr_rounds fr ch of
        None \<Rightarrow> True
      | Some r \<Rightarrow>
          if rd_peer r = peer
          then (rd_heads r \<noteq> heads \<and> changes - rd_changes r \<ge> ANTIENTROPY_MAX_RESEND) \<or> now - quiet_since ch r fr \<ge> MIN_INTERVAL
          else now - rd_at r \<ge> ACTIVE)"

definition note_asked :: "ustring \<Rightarrow> channel \<Rightarrow> nat \<Rightarrow> nat \<Rightarrow> nat \<Rightarrow> fast_rounds \<Rightarrow> fast_rounds" where
  "note_asked peer ch heads changes now fr =
     fr\<lparr>fr_rounds := (fr_rounds fr)(ch := Some \<lparr>rd_peer = peer, rd_at = now, rd_heads = heads, rd_changes = changes\<rparr>)\<rparr>"

definition note_change :: "channel \<Rightarrow> nat \<Rightarrow> fast_rounds \<Rightarrow> fast_rounds" where
  "note_change ch now fr = fr\<lparr>fr_last_change := (fr_last_change fr)(ch := Some now)\<rparr>"

definition changed_recently :: "channel \<Rightarrow> nat \<Rightarrow> fast_rounds \<Rightarrow> bool" where
  "changed_recently ch now fr = (case fr_last_change fr ch of None \<Rightarrow> False | Some changed \<Rightarrow> now - changed < MIN_INTERVAL)"

definition active :: "channel \<Rightarrow> nat \<Rightarrow> fast_rounds \<Rightarrow> bool" where
  "active ch now fr = (case fr_rounds fr ch of None \<Rightarrow> False | Some r \<Rightarrow> now - rd_at r < ACTIVE)"

definition fresh :: "waiting \<Rightarrow> nat \<Rightarrow> bool" where
  "fresh w now \<longleftrightarrow> now - wt_noted w < secs FAST_ROUND_AHEAD_TTL_SECS"

text \<open>\<open>iter_mut().find\<close> replaces the first entry with the key.\<close>

fun replace_waiting :: "waiting \<Rightarrow> waiting list \<Rightarrow> waiting list" where
  "replace_waiting w [] = []"
| "replace_waiting w (k # ks) = (if wt_pubkey k = wt_pubkey w then w # ks else k # replace_waiting w ks)"

definition note_ahead :: "channel \<Rightarrow> ustring \<Rightarrow> ustring \<Rightarrow> ustring list \<Rightarrow> nat \<Rightarrow> fast_rounds \<Rightarrow> fast_rounds" where
  "note_ahead ch pubkey author heads now fr =
     (let known = filter (\<lambda>w. fresh w now) (case fr_ahead fr ch of None \<Rightarrow> [] | Some ws \<Rightarrow> ws);
          w = \<lparr>wt_pubkey = pubkey, wt_author = author, wt_heads = heads, wt_noted = now\<rparr>
      in fr\<lparr>fr_ahead := (fr_ahead fr)(ch := Some
           (if pubkey \<in> wt_pubkey ` set known then replace_waiting w known
            else if length known < FAST_ROUND_AHEAD_MAX then known @ [w] else known))\<rparr>)"

definition fr_ahead_of :: "channel \<Rightarrow> fast_rounds \<Rightarrow> waiting list" where
  "fr_ahead_of ch fr = (case fr_ahead fr ch of None \<Rightarrow> [] | Some ws \<Rightarrow> ws)"

text \<open>\<open>position\<close>: the index of the first match.\<close>

fun position :: "('a \<Rightarrow> bool) \<Rightarrow> 'a list \<Rightarrow> nat option" where
  "position p [] = None"
| "position p (x # xs) = (if p x then Some 0 else map_option Suc (position p xs))"

definition retry_target :: "channel \<Rightarrow> nat \<Rightarrow> nat \<Rightarrow> (ustring list \<Rightarrow> bool) \<Rightarrow> (ustring \<Rightarrow> bool) \<Rightarrow> fast_rounds \<Rightarrow>
    (ustring \<times> ustring) option \<times> fast_rounds" where
  "retry_target ch now ours holds reachable fr =
     (let waiting = (case fr_rounds fr ch of None \<Rightarrow> False | Some r \<Rightarrow> now - quiet_since ch r fr < RETRY)
      in case fr_ahead fr ch of
           None \<Rightarrow> (None, fr)
         | Some ws \<Rightarrow>
             let ahead = filter (\<lambda>w. \<not> holds (wt_heads w) \<and> fresh w now) ws;
                 fr1 = fr\<lparr>fr_ahead := (fr_ahead fr)(ch := Some ahead)\<rparr>;
                 candidates = filter (\<lambda>w. reachable (wt_pubkey w)) ahead;
                 round_index = (case fr_rounds fr ch of None \<Rightarrow> None
                                | Some r \<Rightarrow> position (\<lambda>w. wt_pubkey w = rd_peer r) candidates);
                 progress = (case fr_rounds fr ch of None \<Rightarrow> True | Some r \<Rightarrow> rd_heads r \<noteq> ours);
                 at = (\<lambda>i. if i < length candidates then Some (candidates ! i) else None);
                 pick = (case round_index of
                           Some i \<Rightarrow> if progress then at i else at ((i + 1) mod length candidates)
                         | None \<Rightarrow> at 0)
             in if waiting then (None, fr1)
                else (map_option (\<lambda>w. (wt_pubkey w, wt_author w)) pick, fr1))"

lemma retry_target_reachable:
  assumes "retry_target ch now ours holds reachable fr = (Some (pk, author), fr1)" shows "reachable pk"
proof -
  obtain ws where ws: "fr_ahead fr ch = Some ws" using assms by (cases "fr_ahead fr ch") (auto simp: retry_target_def)
  define cs where "cs = filter (\<lambda>w. reachable (wt_pubkey w)) (filter (\<lambda>w. \<not> holds (wt_heads w) \<and> fresh w now) ws)"
  have "pk \<in> wt_pubkey ` set cs"
    using assms unfolding retry_target_def Let_def ws option.case cs_def [symmetric]
    by (auto split: if_splits option.splits intro!: image_eqI [OF refl] nth_mem)
  then show ?thesis by (auto simp: cs_def)
qed

text \<open>Every operation of \<open>FastRounds\<close> that changes it, as events.\<close>

datatype fr_event =
    Ahead channel ustring ustring "ustring list" nat
  | Asked ustring channel nat nat nat
  | Changed channel nat
  | Retried channel nat nat "ustring list \<Rightarrow> bool" "ustring \<Rightarrow> bool"

fun fr_apply :: "fr_event \<Rightarrow> fast_rounds \<Rightarrow> fast_rounds" where
  "fr_apply (Ahead ch pk a hs now) fr = note_ahead ch pk a hs now fr"
| "fr_apply (Asked pk ch hs n now) fr = note_asked pk ch hs n now fr"
| "fr_apply (Changed ch now) fr = note_change ch now fr"
| "fr_apply (Retried ch now ours holds reachable) fr = snd (retry_target ch now ours holds reachable fr)"

definition ahead_ok :: "fast_rounds \<Rightarrow> bool" where
  "ahead_ok fr \<longleftrightarrow> (\<forall>ch. distinct (map wt_pubkey (fr_ahead_of ch fr)) \<and> length (fr_ahead_of ch fr) \<le> FAST_ROUND_AHEAD_MAX)"

lemma replace_waiting_keys [simp]: "map wt_pubkey (replace_waiting w ws) = map wt_pubkey ws"
  by (induction ws) auto

lemma replace_waiting_length [simp]: "length (replace_waiting w ws) = length ws"
  by (induction ws) auto

lemma note_ahead_keeps: "ahead_ok fr \<Longrightarrow> ahead_ok (note_ahead ch pk a hs now fr)"
  unfolding ahead_ok_def note_ahead_def fr_ahead_of_def Let_def
  by (auto simp: distinct_map_filter le_trans [OF length_filter_le] split: option.splits)

lemma retry_keeps: "ahead_ok fr \<Longrightarrow> ahead_ok (snd (retry_target ch now ours holds reachable fr))"
  unfolding ahead_ok_def retry_target_def fr_ahead_of_def Let_def
  by (auto simp: distinct_map_filter le_trans [OF length_filter_le] split: option.splits)

lemma fr_apply_keeps: "ahead_ok fr \<Longrightarrow> ahead_ok (fr_apply e fr)"
  by (cases e) (simp_all add: note_ahead_keeps retry_keeps, simp_all add: ahead_ok_def note_asked_def note_change_def fr_ahead_of_def)

lemma fr_runs_ok: "ahead_ok fr \<Longrightarrow> ahead_ok (fold fr_apply es fr)"
  by (induction es arbitrary: fr) (simp_all add: fr_apply_keeps)

lemma fr_new_ok: "ahead_ok fr_new"
  by (simp add: ahead_ok_def fr_new_def fr_ahead_of_def)

text \<open>whatever digests arrive, a node remembers at most \<open>FAST_ROUND_AHEAD_MAX\<close> peers per channel as
  ahead of it, each once.\<close>

theorem ahead_bounded:
  "let ws = fr_ahead_of ch (fold fr_apply es fr_new) in length ws \<le> FAST_ROUND_AHEAD_MAX \<and> distinct (map wt_pubkey ws)"
  using fr_runs_ok [OF fr_new_ok, of es] by (simp add: ahead_ok_def Let_def)

subsection \<open>Retries take turns\<close>

text \<open>The retry timer with every ask going out: the peers asked, in order.\<close>

fun retries :: "channel \<Rightarrow> nat \<Rightarrow> nat \<Rightarrow> (ustring list \<Rightarrow> bool) \<Rightarrow> (ustring \<Rightarrow> bool) \<Rightarrow> nat list \<Rightarrow> fast_rounds \<Rightarrow> ustring list" where
  "retries ch ours changes holds reachable [] fr = []"
| "retries ch ours changes holds reachable (now # ts) fr =
     (case retry_target ch now ours holds reachable fr of
        (None, fr1) \<Rightarrow> retries ch ours changes holds reachable ts fr1
      | (Some (pk, _), fr1) \<Rightarrow> pk # retries ch ours changes holds reachable ts (note_asked pk ch ours changes now fr1))"

fun spaced :: "nat \<Rightarrow> nat list \<Rightarrow> bool" where
  "spaced q [] = True"
| "spaced q (t # ts) = (q + RETRY \<le> t \<and> spaced t ts)"

definition cand :: "(ustring list \<Rightarrow> bool) \<Rightarrow> (ustring \<Rightarrow> bool) \<Rightarrow> waiting list \<Rightarrow> waiting list" where
  "cand holds reachable ws = filter (\<lambda>w. reachable (wt_pubkey w)) (filter (\<lambda>w. \<not> holds (wt_heads w)) ws)"

lemma position_nth:
  "distinct (map f cs) \<Longrightarrow> j < length cs \<Longrightarrow> position (\<lambda>w. f w = f (cs ! j)) cs = Some j"
proof (induction cs arbitrary: j)
  case (Cons c cs)
  then show ?case by (cases j) (auto simp: nth_mem image_iff)
qed simp

lemma position_less: "position p xs = Some i \<Longrightarrow> i < length xs"
  by (induction xs arbitrary: i) (auto split: if_splits)

text \<open>No ask and no change since \<open>q\<close>: the state a retry finds.\<close>

definition quiet_from :: "channel \<Rightarrow> nat \<Rightarrow> fast_rounds \<Rightarrow> bool" where
  "quiet_from ch q fr \<longleftrightarrow>
     (case fr_rounds fr ch of None \<Rightarrow> True | Some r \<Rightarrow> rd_at r \<le> q) \<and>
     (case fr_last_change fr ch of None \<Rightarrow> True | Some c \<Rightarrow> c \<le> q)"

lemma not_waiting:
  assumes "quiet_from ch q fr" "fr_rounds fr ch = Some r" "q + RETRY \<le> now"
  shows "\<not> now - quiet_since ch r fr < RETRY"
proof -
  have "quiet_since ch r fr \<le> q"
    using assms(1,2) by (auto simp: quiet_since_def quiet_from_def Let_def split: option.splits)
  then show ?thesis using assms(3) by simp
qed

lemma retry_step:
  assumes ws: "fr_ahead fr ch = Some ws" "\<forall>w\<in>set ws. fresh w now" "cand holds reachable ws \<noteq> []"
    and q: "quiet_from ch q fr" "q + RETRY \<le> now"
  obtains i where "i < length (cand holds reachable ws)"
    "retry_target ch now ours holds reachable fr =
       (Some (wt_pubkey (cand holds reachable ws ! i), wt_author (cand holds reachable ws ! i)),
        fr\<lparr>fr_ahead := (fr_ahead fr)(ch := Some (filter (\<lambda>w. \<not> holds (wt_heads w)) ws))\<rparr>)"
    "\<And>r j. fr_rounds fr ch = Some r \<Longrightarrow> rd_heads r = ours \<Longrightarrow>
       position (\<lambda>w. wt_pubkey w = rd_peer r) (cand holds reachable ws) = Some j \<Longrightarrow>
       i = Suc j mod length (cand holds reachable ws)"
proof -
  have flt: "filter (\<lambda>w. \<not> holds (wt_heads w) \<and> fresh w now) ws = filter (\<lambda>w. \<not> holds (wt_heads w)) ws"
    using ws(2) by (intro filter_cong) auto
  define cs where "cs = cand holds reachable ws"
  have cs: "filter (\<lambda>w. reachable (wt_pubkey w)) (filter (\<lambda>w. \<not> holds (wt_heads w)) ws) = cs"
    by (simp add: cs_def cand_def)
  have pos: "0 < length cs" using ws(3) by (simp add: cs_def)
  define i where "i = (case fr_rounds fr ch of None \<Rightarrow> 0 | Some r \<Rightarrow>
     (case position (\<lambda>w. wt_pubkey w = rd_peer r) cs of None \<Rightarrow> 0
      | Some j \<Rightarrow> if rd_heads r \<noteq> ours then j else Suc j mod length cs))"
  have i: "i < length cs" using pos by (auto simp: i_def position_less split: option.split)
  have "retry_target ch now ours holds reachable fr =
     (Some (wt_pubkey (cs ! i), wt_author (cs ! i)), fr\<lparr>fr_ahead := (fr_ahead fr)(ch := Some (filter (\<lambda>w. \<not> holds (wt_heads w)) ws))\<rparr>)"
    using not_waiting [OF q(1) _ q(2)] i pos
    unfolding retry_target_def Let_def ws(1) option.case flt cs
    by (cases "fr_rounds fr ch") (auto simp: i_def position_less split: option.splits)
  then show thesis using that [of i] i by (simp add: i_def cs_def)
qed

lemma cand_held: "cand holds reachable (filter (\<lambda>w. \<not> holds (wt_heads w)) ws) = cand holds reachable ws"
  by (simp add: cand_def)

lemma retries_rotate:
  assumes "fr_ahead fr ch = Some ws" "\<forall>w\<in>set ws. \<forall>t\<in>set ts. fresh w t" "cs = cand holds reachable ws"
    and "distinct (map wt_pubkey cs)" "j < length cs"
    and "fr_rounds fr ch = Some r" "rd_peer r = wt_pubkey (cs ! j)" "rd_heads r = ours"
    and "quiet_from ch q fr" "spaced q ts"
  shows "retries ch ours changes holds reachable ts fr = map (\<lambda>k. wt_pubkey (cs ! ((j + Suc k) mod length cs))) [0..<length ts]"
  using assms
proof (induction ts arbitrary: fr ws j r q)
  case (Cons now ts)
  have q: "q + RETRY \<le> now" "spaced now ts" using Cons.prems(10) by simp_all
  have ne: "cand holds reachable ws \<noteq> []" using Cons.prems(3,5) by auto
  obtain i where i: "i < length cs"
      "retry_target ch now ours holds reachable fr = (Some (wt_pubkey (cs ! i), wt_author (cs ! i)),
        fr\<lparr>fr_ahead := (fr_ahead fr)(ch := Some (filter (\<lambda>w. \<not> holds (wt_heads w)) ws))\<rparr>)"
      "i = Suc j mod length cs"
    using retry_step [OF Cons.prems(1) _ ne Cons.prems(9) q(1)] Cons.prems(2,3,6,7,8)
      position_nth [OF Cons.prems(4,5)] by (metis list.set_intros(1))
  define fr' where "fr' = note_asked (wt_pubkey (cs ! i)) ch ours changes now
     (fr\<lparr>fr_ahead := (fr_ahead fr)(ch := Some (filter (\<lambda>w. \<not> holds (wt_heads w)) ws))\<rparr>)"
  have "retries ch ours changes holds reachable ts fr' = map (\<lambda>k. wt_pubkey (cs ! ((i + Suc k) mod length cs))) [0..<length ts]"
  proof (rule Cons.IH)
    show "fr_ahead fr' ch = Some (filter (\<lambda>w. \<not> holds (wt_heads w)) ws)" by (simp add: fr'_def note_asked_def)
    show "cs = cand holds reachable (filter (\<lambda>w. \<not> holds (wt_heads w)) ws)" by (simp add: cand_held Cons.prems(3))
    show "quiet_from ch now fr'" using Cons.prems(9) q(1)
      by (auto simp: fr'_def note_asked_def quiet_from_def split: option.splits)
    show "fr_rounds fr' ch = Some \<lparr>rd_peer = wt_pubkey (cs ! i), rd_at = now, rd_heads = ours, rd_changes = changes\<rparr>"
      by (simp add: fr'_def note_asked_def)
  qed (use Cons.prems(2,4) i(1) q(2) in auto)
  moreover have "(i + Suc k) mod length cs = (j + Suc (Suc k)) mod length cs" for k
    using mod_add_left_eq [of "Suc j" "length cs" "Suc k"] by (simp add: i(3))
  ultimately have rec: "retries ch ours changes holds reachable ts fr' =
      map (\<lambda>k. wt_pubkey (cs ! ((j + Suc (Suc k)) mod length cs))) [0..<length ts]" by simp
  have "retries ch ours changes holds reachable (now # ts) fr = wt_pubkey (cs ! i) # retries ch ours changes holds reachable ts fr'"
    by (simp add: i(2) fr'_def)
  then show ?case unfolding rec i(3) by (simp add: upt_conv_Cons map_Suc_upt [symmetric] del: upt_Suc)
qed simp

lemma turns_cover:
  assumes "i < n" "x < (n::nat)" shows "\<exists>k<n. (i + k) mod n = x"
proof (cases "i \<le> x")
  case True
  then show ?thesis using assms by (intro exI [of _ "x - i"]) simp
next
  case False
  then have "(i + (x + n - i)) mod n = x" using assms by simp
  then show ?thesis using assms False by (intro exI [of _ "x + n - i"]) simp
qed

lemma retry_takes_turns:
  assumes "fr_ahead fr ch = Some ws" "list_all (\<lambda>w. list_all (fresh w) ts) ws" "distinct (map wt_pubkey ws)"
    and "quiet_from ch q fr" "spaced q ts" "length (cand holds reachable ws) \<le> length ts"
    and "w \<in> set ws" "\<not> holds (wt_heads w)" "reachable (wt_pubkey w)"
  shows "wt_pubkey w \<in> set (retries ch ours changes holds reachable ts fr)"
proof -
  define cs where "cs = cand holds reachable ws"
  have w: "w \<in> set cs" using assms(7-9) by (simp add: cs_def cand_def)
  have dist: "distinct (map wt_pubkey cs)" using assms(3) by (simp add: cs_def cand_def distinct_map_filter)
  obtain now rest where ts: "ts = now # rest" using w assms(6) by (cases ts) (auto simp: cs_def)
  have fresh: "\<forall>w\<in>set ws. fresh w now" "\<forall>w\<in>set ws. \<forall>t\<in>set rest. fresh w t" using assms(2) by (auto simp: ts list_all_iff)
  have q: "q + RETRY \<le> now" "spaced now rest" using assms(5) by (simp_all add: ts)
  obtain i where i: "i < length cs"
      "retry_target ch now ours holds reachable fr = (Some (wt_pubkey (cs ! i), wt_author (cs ! i)),
        fr\<lparr>fr_ahead := (fr_ahead fr)(ch := Some (filter (\<lambda>w. \<not> holds (wt_heads w)) ws))\<rparr>)"
    using retry_step [OF assms(1) fresh(1) _ assms(4) q(1)] w by (metis cs_def empty_iff list.set(1))
  define fr' where "fr' = note_asked (wt_pubkey (cs ! i)) ch ours changes now
     (fr\<lparr>fr_ahead := (fr_ahead fr)(ch := Some (filter (\<lambda>w. \<not> holds (wt_heads w)) ws))\<rparr>)"
  have rec: "retries ch ours changes holds reachable rest fr' = map (\<lambda>k. wt_pubkey (cs ! ((i + Suc k) mod length cs))) [0..<length rest]"
  proof (rule retries_rotate)
    show "fr_ahead fr' ch = Some (filter (\<lambda>w. \<not> holds (wt_heads w)) ws)" by (simp add: fr'_def note_asked_def)
    show "cs = cand holds reachable (filter (\<lambda>w. \<not> holds (wt_heads w)) ws)" by (simp add: cand_held cs_def)
    show "quiet_from ch now fr'" using assms(4) q(1)
      by (auto simp: fr'_def note_asked_def quiet_from_def split: option.splits)
    show "fr_rounds fr' ch = Some \<lparr>rd_peer = wt_pubkey (cs ! i), rd_at = now, rd_heads = ours, rd_changes = changes\<rparr>"
      by (simp add: fr'_def note_asked_def)
  qed (use fresh(2) dist i(1) q(2) in auto)
  have "retries ch ours changes holds reachable ts fr = wt_pubkey (cs ! i) # retries ch ours changes holds reachable rest fr'"
    by (simp add: ts i(2) fr'_def)
  then have asked: "retries ch ours changes holds reachable ts fr = map (\<lambda>k. wt_pubkey (cs ! ((i + k) mod length cs))) [0..<length ts]"
    using i(1) unfolding rec by (simp add: ts upt_conv_Cons map_Suc_upt [symmetric] del: upt_Suc)
  obtain x where x: "x < length cs" "cs ! x = w" using w by (metis in_set_conv_nth)
  obtain k where "k < length cs" "(i + k) mod length cs = x" using turns_cover [OF i(1) x(1)] by blast
  then show ?thesis using assms(6) x(2) unfolding asked by (auto simp: cs_def intro!: image_eqI [of _ _ k])
qed

definition demo_waiting :: "string \<Rightarrow> waiting" where
  "demo_waiting k = \<lparr>wt_pubkey = ustr k, wt_author = ustr k, wt_heads = [ustr k], wt_noted = 0\<rparr>"

definition demo_rounds :: fast_rounds where
  "demo_rounds = \<lparr>fr_rounds = (\<lambda>_. Some \<lparr>rd_peer = ustr ''b'', rd_at = 0, rd_heads = 7, rd_changes = 0\<rparr>),
     fr_ahead = (\<lambda>_. Some [demo_waiting ''a'', demo_waiting ''b'']), fr_last_change = (\<lambda>_. None)\<rparr>"

end
