(* ===== verification/StateRounds.thy ===== *)
theory StateRounds
  imports FastRounds
begin

text \<open>
  The state and meta digests: \<open>ask_back\<close>, \<open>ask\<close>, \<open>resume_fast_rounds\<close> and \<open>handle_state_digest\<close> of
  \<open>gossip/antientropy.rs\<close>, with \<open>unicast_answer_target\<close> of \<open>transport/send.rs\<close>. One call sees one
  \<open>sd_env\<close>: the document's answers, JSON, the hash of a body, the pool and the links as they are during that
  call; its reading of the clock is one argument.
\<close>

record 'f sd_env =
  se_holds :: "channel \<Rightarrow> ustring list \<Rightarrow> bool"
  se_count :: "channel \<Rightarrow> nat"
  se_heads :: "channel \<Rightarrow> ustring list"
  se_missing :: "channel \<Rightarrow> ustring list \<Rightarrow> ustring \<Rightarrow> nat \<Rightarrow> 'f list"
  se_bytes :: "'f \<Rightarrow> bytes option"
  se_json :: "ustring list \<Rightarrow> bool \<Rightarrow> ustring option"
  se_parse :: "ustring \<Rightarrow> (ustring list \<times> bool) option"
  se_wire :: "channel \<Rightarrow> ustring \<Rightarrow> bytes option"
  se_hash :: "ustring \<Rightarrow> nat"
  se_signer :: "ustring \<Rightarrow> bytes option"
  se_proven :: "bytes \<Rightarrow> nat option"
  se_rendezvous :: "nat option"
  se_linked :: "nat list"
  se_held :: "nat \<Rightarrow> bool"
  se_reachable :: bool
  se_ask_starts :: "nat \<Rightarrow> bool"
  se_answer_starts :: "nat \<Rightarrow> bool"

record sd_state =
  sd_rounds :: fast_rounds
  sd_serves :: serve_budget

definition sd_new :: sd_state where "sd_new = \<lparr>sd_rounds = fr_new, sd_serves = (\<lambda>_. None)\<rparr>"

datatype sd_send = ToPeer nat "bytes list" | OnGossip bytes

record answered =
  an_unicast :: nat
  an_broadcast :: nat

definition no_answer :: answered where "no_answer = \<lparr>an_unicast = 0, an_broadcast = 0\<rparr>"

definition unicast_answer_target :: "'f sd_env \<Rightarrow> ustring \<Rightarrow> nat option" where
  "unicast_answer_target env signer =
     (case se_signer env signer of
        None \<Rightarrow> None
      | Some k \<Rightarrow>
          (case se_proven env k of
             None \<Rightarrow> None
           | Some eid \<Rightarrow>
               if se_rendezvous env = Some eid then None
               else if eid \<in> set (se_linked env) \<and> \<not> se_held env eid then Some eid else None))"

definition heads_digest :: "'f sd_env \<Rightarrow> channel \<Rightarrow> bool \<Rightarrow> ustring option" where
  "heads_digest env ch closing = (if \<not> se_reachable env then None
      else case se_json env (se_heads env ch) closing of None \<Rightarrow> None | Some json \<Rightarrow> body_new json)"

definition heads_key_of :: "'f sd_env \<Rightarrow> channel \<Rightarrow> nat" where
  "heads_key_of env ch = se_hash env (case se_json env (se_heads env ch) False of None \<Rightarrow> [] | Some body \<Rightarrow> body)"

definition ask :: "'f sd_env \<Rightarrow> channel \<Rightarrow> ustring \<Rightarrow> nat \<Rightarrow> fast_rounds \<Rightarrow> bool \<times> sd_send list \<times> fast_rounds" where
  "ask env ch pubkey now fr =
     (case unicast_answer_target env pubkey of
        None \<Rightarrow> (False, [], fr)
      | Some eid \<Rightarrow>
          (case heads_digest env ch False of
             None \<Rightarrow> (False, [], fr)
           | Some ours \<Rightarrow>
               (case se_wire env ch ours of
                  None \<Rightarrow> (False, [], fr)
                | Some bytes \<Rightarrow>
                    if \<not> se_ask_starts env eid then (False, [], fr)
                    else (True, [ToPeer eid [bytes]], note_asked pubkey ch (se_hash env ours) (se_count env ch) now fr))))"

definition ask_back :: "'f sd_env \<Rightarrow> channel \<Rightarrow> 'x gossip_message \<Rightarrow> nat \<Rightarrow> fast_rounds \<Rightarrow> sd_send list \<times> fast_rounds" where
  "ask_back env ch digest now fr =
     (case se_parse env (gm_body digest) of
        None \<Rightarrow> ([], fr)
      | Some (heads, closing) \<Rightarrow>
          if se_holds env ch heads then ([], fr)
          else let fr1 = note_ahead ch (gm_pubkey digest) (gm_author digest) heads now fr
               in if may_ask (gm_pubkey digest) ch (heads_key_of env ch) (se_count env ch) now fr1
                  then snd (ask env ch (gm_pubkey digest) now fr1) else ([], fr1))"

definition resume_channel :: "'f sd_env \<Rightarrow> channel \<Rightarrow> nat \<Rightarrow> fast_rounds \<Rightarrow> sd_send list \<times> fast_rounds" where
  "resume_channel env ch now fr =
     (let ahead = fr_ahead_of ch fr;
          held = map wt_heads (filter (\<lambda>w. se_holds env ch (wt_heads w)) ahead);
          reachable = map wt_pubkey (filter (\<lambda>w. unicast_answer_target env (wt_pubkey w) \<noteq> None) ahead)
      in case retry_target ch now (heads_key_of env ch) (\<lambda>hs. hs \<in> set held) (\<lambda>pk. pk \<in> set reachable) fr of
           (None, fr1) \<Rightarrow> ([], fr1)
         | (Some (pubkey, author), fr1) \<Rightarrow> snd (ask env ch pubkey now fr1))"

definition resume_fast_rounds :: "'f sd_env \<Rightarrow> nat \<Rightarrow> fast_rounds \<Rightarrow> sd_send list \<times> fast_rounds" where
  "resume_fast_rounds env now fr =
     (let (out1, fr1) = resume_channel env StateChannel now fr;
          (out2, fr2) = resume_channel env MetaChannel now fr1
      in (out1 @ out2, fr2))"

definition missing_frames :: "'f sd_env \<Rightarrow> channel \<Rightarrow> 'x gossip_message \<Rightarrow> 'f list" where
  "missing_frames env ch digest =
     (case se_parse env (gm_body digest) of
        None \<Rightarrow> []
      | Some (heads, closing) \<Rightarrow> se_missing env ch heads (gm_pubkey digest) ANTIENTROPY_MAX_RESEND)"

definition handle_state_digest :: "'f sd_env \<Rightarrow> channel \<Rightarrow> 'x gossip_message \<Rightarrow> nat \<Rightarrow> sd_state \<Rightarrow>
    answered \<times> sd_send list \<times> sd_state" where
  "handle_state_digest env ch digest now st =
     (let (asked, fr) = ask_back env ch digest now (sd_rounds st);
          st1 = st\<lparr>sd_rounds := fr\<rparr>;
          heads = se_hash env (gm_body digest);
          serve = (\<lambda>pl. (gm_pubkey digest, ch, pl));
          target = unicast_answer_target env (gm_pubkey digest);
          pl = (if target = None then Gossip else Unicast)
      in if (case se_parse env (gm_body digest) of None \<Rightarrow> False | Some (_, closing) \<Rightarrow> closing)
         then (no_answer, asked, st1)
         else if \<not> sb_admits (serve pl) heads now (sd_serves st1) then (no_answer, asked, st1)
         else let frames = List.map_filter (se_bytes env) (missing_frames env ch digest);
                  our_heads = (case heads_digest env ch True of None \<Rightarrow> None | Some ours \<Rightarrow> se_wire env ch ours);
                  started = (case target of None \<Rightarrow> False | Some eid \<Rightarrow> se_answer_starts env eid)
              in if frames = [] then (no_answer, asked, st1)
                 else if started
                 then (\<lparr>an_unicast = length frames, an_broadcast = 0\<rparr>,
                       asked @ [ToPeer (the target) (frames @ (case our_heads of None \<Rightarrow> [] | Some h \<Rightarrow> [h]))],
                       st1\<lparr>sd_serves := sb_note (serve Unicast) heads now (sd_serves st1)\<rparr>)
                 else if pl = Unicast \<and> \<not> sb_admits (serve Gossip) heads now (sd_serves st1) then (no_answer, asked, st1)
                 else (\<lparr>an_unicast = 0, an_broadcast = length frames\<rparr>, asked @ map OnGossip frames,
                       st1\<lparr>sd_serves := sb_note (serve Gossip) heads now (sd_serves st1)\<rparr>))"

text \<open>The plane an answer took, and the answers a stream of digests drew, newest first.\<close>

definition answer_plane :: "answered \<Rightarrow> plane option" where
  "answer_plane a = (if an_unicast a > 0 then Some Unicast else if an_broadcast a > 0 then Some Gossip else None)"

fun sd_run :: "('f sd_env \<times> channel \<times> 'x gossip_message \<times> nat) list \<Rightarrow> sd_state \<Rightarrow> (serve_key \<times> nat \<times> nat) list \<Rightarrow>
    sd_state \<times> (serve_key \<times> nat \<times> nat) list" where
  "sd_run [] st given = (st, given)"
| "sd_run ((env, ch, digest, now) # rest) st given =
     (let (a, out, st1) = handle_state_digest env ch digest now st
      in sd_run rest st1 (case answer_plane a of None \<Rightarrow> given
           | Some pl \<Rightarrow> ((gm_pubkey digest, ch, pl), se_hash env (gm_body digest), now) # given))"

lemma handler_serves:
  assumes "handle_state_digest env ch digest now st = (a, out, st')"
  shows "(answer_plane a = None \<and> sd_serves st' = sd_serves st) \<or>
    (\<exists>pl. answer_plane a = Some pl \<and> sb_admits (gm_pubkey digest, ch, pl) (se_hash env (gm_body digest)) now (sd_serves st) \<and>
       sd_serves st' = sb_note (gm_pubkey digest, ch, pl) (se_hash env (gm_body digest)) now (sd_serves st))"
proof (cases "ask_back env ch digest now (sd_rounds st)")
  case (Pair asked fr)
  show ?thesis
    using assms unfolding handle_state_digest_def Let_def Pair
    by (auto simp: answer_plane_def no_answer_def split: if_splits option.splits)
qed

lemma sd_run_inv:
  assumes "serve_inv key now (sd_serves st) given" "sorted (now # map (\<lambda>(_, _, _, t). t) calls)"
    "sd_run calls st given = (st', given')" "list_all (\<lambda>(_, _, _, t). t \<le> now') calls" "now \<le> now'"
  shows "serve_inv key now' (sd_serves st') given'"
  using assms
proof (induction calls arbitrary: now st given)
  case Nil
  then show ?case using serve_inv_later by auto
next
  case (Cons c calls)
  obtain env ch digest t where c: "c = (env, ch, digest, t)" by (metis prod_cases4)
  obtain a out st1 where h: "handle_state_digest env ch digest t st = (a, out, st1)" by (metis prod_cases3)
  have t: "now \<le> t" "sorted (t # map (\<lambda>(_, _, _, t). t) calls)" "t \<le> now'" using Cons.prems(2,4) c by auto
  define given1 where "given1 = (case answer_plane a of None \<Rightarrow> given
     | Some pl \<Rightarrow> ((gm_pubkey digest, ch, pl), se_hash env (gm_body digest), t) # given)"
  have "serve_inv key t (sd_serves st1) given1"
    using handler_serves [OF h] serve_inv_later [OF Cons.prems(1) t(1)] serve_step [OF Cons.prems(1) t(1)]
    by (auto simp: given1_def)
  moreover have "sd_run calls st1 given1 = (st', given')" using Cons.prems(3) c h by (simp add: given1_def)
  moreover have "list_all (\<lambda>(_, _, _, t). t \<le> now') calls" using Cons.prems(4) by simp
  ultimately show ?case using Cons.IH t(2,3) by blast
qed

text \<open>C10: whatever digests an asker sends, over any links and whichever sends fail, the answers it draws
  per channel are bounded for each cooldown window that has begun: eight point-to-point, one on gossip.\<close>

theorem state_answers_bounded:
  assumes "sorted (map (\<lambda>(_, _, _, t). t) calls)" "list_all (\<lambda>(_, _, _, t). t \<le> now) calls"
    and "sd_run calls sd_new [] = (st, given)"
  shows "given_to (pubkey, ch, pl) given \<le> serve_limit pl * Suc (now div SERVE_WINDOW)"
proof -
  have "serve_inv (pubkey, ch, pl) 0 (sd_serves sd_new) []" by (simp add: serve_inv_def given_to_def sd_new_def)
  from sd_run_inv [OF this _ assms(3,2)] have "serve_inv (pubkey, ch, pl) now (sd_serves st) given" using assms(1) by simp
  from serve_inv_bound [OF this] show ?thesis by simp
qed

definition demo_env :: "nat sd_env" where
  "demo_env = \<lparr>se_holds = (\<lambda>_ _. False), se_count = (\<lambda>_. 0), se_heads = (\<lambda>_. []), se_missing = (\<lambda>_ _ _ _. [1, 2]),
     se_bytes = (\<lambda>_. Some []), se_json = (\<lambda>_ _. Some []), se_parse = (\<lambda>_. Some ([], False)), se_wire = (\<lambda>_ _. Some []),
     se_hash = length, se_signer = (\<lambda>_. Some []), se_proven = (\<lambda>_. Some 5), se_rendezvous = None, se_linked = [5],
     se_held = (\<lambda>_. False), se_reachable = True, se_ask_starts = (\<lambda>_. True), se_answer_starts = (\<lambda>_. True)\<rparr>"

definition demo_digests :: "(nat sd_env \<times> channel \<times> unit gossip_message \<times> nat) list" where
  "demo_digests = [(demo_env, StateChannel, demo_msg (ustr ''a'') 0, 0), (demo_env, StateChannel, demo_msg (ustr ''a'') 0, 1)]"

text \<open>At two digests a nanosecond apart: the first is answered, the second is refused.\<close>

lemma demo_given: "map fst (snd (sd_run demo_digests sd_new [])) = [(gm_pubkey (demo_msg (ustr ''a'') 0), StateChannel, Unicast)]"
  by (simp add: demo_digests_def demo_env_def sd_new_def handle_state_digest_def ask_back_def ask_def unicast_answer_target_def
      heads_digest_def heads_key_of_def missing_frames_def sb_admits_def sb_note_def answer_plane_def no_answer_def
      ANTIENTROPY_SERVES_PER_WINDOW_def body_new_def Let_def SERVE_WINDOW_def SERVE_REPEAT_def secs_def millis_def
      ANTIENTROPY_SERVE_COOLDOWN_SECS_def FAST_ROUND_MIN_INTERVAL_MS_def List.map_filter_def may_ask_def note_ahead_def fr_new_def
      split: option.split)

theorem state_answers_bounded_witness:
  "given_to (gm_pubkey (demo_msg (ustr ''a'') 0), StateChannel, Unicast) (snd (sd_run demo_digests sd_new [])) \<le>
     serve_limit Unicast * Suc (1 div SERVE_WINDOW)"
proof (cases "sd_run demo_digests sd_new []")
  case (Pair st given)
  have "sorted (map (\<lambda>(_, _, _, t). t) demo_digests)" "list_all (\<lambda>(_, _, _, t). t \<le> 1) demo_digests"
    by (simp_all add: demo_digests_def)
  from state_answers_bounded [OF this Pair] show ?thesis by (simp only: Pair snd_conv)
qed

subsection \<open>The retry timer\<close>

text \<open>The frames the retry timer sends for a channel over several ticks.\<close>

fun resumes :: "'f sd_env \<Rightarrow> channel \<Rightarrow> nat list \<Rightarrow> fast_rounds \<Rightarrow> sd_send list" where
  "resumes env ch [] fr = []"
| "resumes env ch (now # ts) fr = (case resume_channel env ch now fr of (out, fr1) \<Rightarrow> out @ resumes env ch ts fr1)"

lemma retry_target_cong:
  assumes "\<And>w. w \<in> set (fr_ahead_of ch fr) \<Longrightarrow> h1 (wt_heads w) = h2 (wt_heads w)"
    and "\<And>w. w \<in> set (fr_ahead_of ch fr) \<Longrightarrow> r1 (wt_pubkey w) = r2 (wt_pubkey w)"
  shows "retry_target ch now ours h1 r1 fr = retry_target ch now ours h2 r2 fr"
proof (cases "fr_ahead fr ch")
  case None
  then show ?thesis by (simp add: retry_target_def)
next
  case (Some ws)
  have a: "filter (\<lambda>w. \<not> h1 (wt_heads w) \<and> fresh w now) ws = filter (\<lambda>w. \<not> h2 (wt_heads w) \<and> fresh w now) ws"
    using assms(1) Some by (intro filter_cong) (auto simp: fr_ahead_of_def)
  have b: "filter (\<lambda>w. r1 (wt_pubkey w)) (filter (\<lambda>w. \<not> h2 (wt_heads w) \<and> fresh w now) ws) =
      filter (\<lambda>w. r2 (wt_pubkey w)) (filter (\<lambda>w. \<not> h2 (wt_heads w) \<and> fresh w now) ws)"
    using assms(2) Some by (intro filter_cong) (auto simp: fr_ahead_of_def)
  show ?thesis unfolding retry_target_def Let_def Some option.case a b ..
qed

lemma filtered_member: "x \<in> set xs \<Longrightarrow> (f x \<in> set (map f (filter (\<lambda>w. P (f w)) xs))) = P (f x)"
  by auto

lemma resume_retry:
  assumes "heads_digest env ch False = Some ours" "se_wire env ch ours = Some bytes" "\<And>eid. se_ask_starts env eid"
  shows "resume_channel env ch now fr =
    (case retry_target ch now (se_hash env ours) (se_holds env ch) (\<lambda>pk. unicast_answer_target env pk \<noteq> None) fr of
       (None, fr1) \<Rightarrow> ([], fr1)
     | (Some (pk, _), fr1) \<Rightarrow>
         (case unicast_answer_target env pk of None \<Rightarrow> ([], fr1)
          | Some eid \<Rightarrow> ([ToPeer eid [bytes]], note_asked pk ch (se_hash env ours) (se_count env ch) now fr1)))"
proof -
  have key: "heads_key_of env ch = se_hash env ours"
    using assms(1) by (auto simp: heads_digest_def heads_key_of_def body_new_def split: if_splits option.splits)
  have rt: "retry_target ch now (heads_key_of env ch)
       (\<lambda>hs. hs \<in> set (map wt_heads (filter (\<lambda>w. se_holds env ch (wt_heads w)) (fr_ahead_of ch fr))))
       (\<lambda>pk. pk \<in> set (map wt_pubkey (filter (\<lambda>w. unicast_answer_target env (wt_pubkey w) \<noteq> None) (fr_ahead_of ch fr)))) fr =
     retry_target ch now (se_hash env ours) (se_holds env ch) (\<lambda>pk. unicast_answer_target env pk \<noteq> None) fr"
    unfolding key by (rule retry_target_cong) (rule filtered_member, assumption)+
  show ?thesis unfolding resume_channel_def Let_def rt using assms
    by (auto simp: ask_def split: prod.split option.split)
qed

lemma resumes_retries:
  assumes "heads_digest env ch False = Some ours" "se_wire env ch ours = Some bytes" "\<And>eid. se_ask_starts env eid"
    and "pk \<in> set (retries ch (se_hash env ours) (se_count env ch) (se_holds env ch) (\<lambda>pk. unicast_answer_target env pk \<noteq> None) ts fr)"
    and "unicast_answer_target env pk = Some eid"
  shows "ToPeer eid [bytes] \<in> set (resumes env ch ts fr)"
  using assms(4)
proof (induction ts arbitrary: fr)
  case (Cons now ts)
  let ?rt = "retry_target ch now (se_hash env ours) (se_holds env ch) (\<lambda>pk. unicast_answer_target env pk \<noteq> None) fr"
  obtain t fr1 where rt: "?rt = (t, fr1)" by fastforce
  show ?case
  proof (cases t)
    case None
    then show ?thesis using Cons rt by (simp add: resume_retry [OF assms(1-3)])
  next
    case (Some p)
    obtain k a where p: "p = (k, a)" by fastforce
    have "unicast_answer_target env k \<noteq> None" using rt unfolding Some p by (rule retry_target_reachable)
    then obtain e where e: "unicast_answer_target env k = Some e" by blast
    show ?thesis using Cons rt Some p e assms(5) by (auto simp: resume_retry [OF assms(1-3)])
  qed
qed simp

text \<open>C22: a peer that never answers cannot hold the pull. While asking went quiet and the links stay as they
  are, the retry timer asks every remembered peer that is still ahead and reachable, within as many ticks as
  there are such peers, whoever the stalled round was with.\<close>

theorem resume_takes_turns:
  assumes "heads_digest env ch False = Some ours" "se_wire env ch ours = Some bytes" "\<And>eid. se_ask_starts env eid"
    and "fr_ahead fr ch = Some ws" "list_all (\<lambda>w. list_all (fresh w) ts) ws" "distinct (map wt_pubkey ws)"
    and "quiet_from ch q fr" "spaced q ts"
    and "length (cand (se_holds env ch) (\<lambda>pk. unicast_answer_target env pk \<noteq> None) ws) \<le> length ts"
    and "w \<in> set ws" "\<not> se_holds env ch (wt_heads w)" "unicast_answer_target env (wt_pubkey w) = Some eid"
  shows "ToPeer eid [bytes] \<in> set (resumes env ch ts fr)"
  using resumes_retries [OF assms(1-3) retry_takes_turns [OF assms(4-11)] assms(12)] assms(12) by simp

definition demo_waiting :: "string \<Rightarrow> waiting" where
  "demo_waiting k = \<lparr>wt_pubkey = ustr k, wt_author = ustr k, wt_heads = [ustr k], wt_noted = 0\<rparr>"

definition demo_rounds :: fast_rounds where
  "demo_rounds = \<lparr>fr_rounds = (\<lambda>_. Some \<lparr>rd_peer = ustr ''b'', rd_at = 0, rd_heads = 7, rd_changes = 0\<rparr>),
     fr_ahead = (\<lambda>_. Some [demo_waiting ''a'', demo_waiting ''b'']), fr_last_change = (\<lambda>_. None)\<rparr>"

theorem resume_takes_turns_witness:
  "ToPeer 5 [[]] \<in> set (resumes demo_env StateChannel [RETRY, 2 * RETRY] demo_rounds)"
  using resume_takes_turns [where env = demo_env and fr = demo_rounds and ch = StateChannel and ours = "[]" and bytes = "[]"
      and ws = "[demo_waiting ''a'', demo_waiting ''b'']" and eid = 5
      and ts = "[RETRY, 2 * RETRY]" and q = 0 and w = "demo_waiting ''a''"]
  by (simp add: demo_rounds_def demo_waiting_def cand_def quiet_from_def fresh_def ustr_def RETRY_def millis_def secs_def
      FAST_ROUND_RETRY_MS_def FAST_ROUND_AHEAD_TTL_SECS_def demo_env_def heads_digest_def body_new_def unicast_answer_target_def)

end
