(* ===== verification/Spec2Isabelle.thy ===== *)
theory Spec2Isabelle
  imports Session SyncTest FsOrigin Lobby MeshTransport MultihopForward SessionRegistry Ingest StateRounds
begin

text \<open>
  A model of fofoca: rollback netplay, content-addressed chunks, a gossip mesh and its transports, written in
  Rust under \<open>src/crates\<close>.

  \<^bold>\<open>The program.\<close> A node joins a mesh over iroh gossip. Frames (\<open>fofoca-protocol\<close>) are signed, checked,
  deduplicated, routed and retained by the node (\<open>fofoca\<close>); what a node missed is recovered by anti-entropy.
  Links run over plain UDP, over WebRTC data channels (\<open>fofoca-iroh-webrtc-transport\<close>) or over other peers
  (\<open>fofoca-iroh-multihop-transport\<close>). On top of a mesh, a netplay session (\<open>fofoca-netplay\<close>) exchanges inputs,
  predicts what is missing and rolls back, and a chunk store (\<open>fofoca-chunks\<close>) serves verified pieces of files.

  \<^bold>\<open>Conventions.\<close> A struct is a record, an enum a datatype, a fallible function returns a sum or an option, a panic
  or a failed \<open>expect\<close> is \<open>None\<close> where it can occur. A hash map is a map, or an association list where its
  iteration matters. Integers keep their width as words where they can wrap and are numbers where a bound
  is checked by the code. An \<open>Instant\<close> is a number of nanoseconds passed to each operation. Code outside
  \<open>src\<close> is a parameter: SHA-256, BLAKE3, Ed25519, Base58, JSON, automerge, iroh, the disk. Asynchronous handlers
  are functions from a state to the state after them and the list of what they send; the runtime's choice
  between handlers is an arbitrary list of events or a step relation.

  \<^bold>\<open>Theories, from the bottom.\<close>
  \<^item> \<open>Prelude\<close>: bytes, little-endian numbers, ordered tables, sums and options. \<open>Bounded\<close>: the containers of
    \<open>fofoca-util\<close> (\<open>bounded_fifo_set.rs\<close>, \<open>bounded_queue.rs\<close>, \<open>cooldown.rs\<close>) and the contract of a throttle,
    a locale interpreted on \<open>Cooldown\<close>.
  \<^item> Netplay. \<open>InputQueue\<close> (\<open>input_queue.rs\<close>) with the contract \<open>PredictedInputs\<close> it provides; \<open>RollbackSync\<close>,
    \<open>Rollback\<close> (\<open>sync_layer.rs\<close>, \<open>rollback.rs\<close>), \<open>TimeSync\<close>, \<open>Frames\<close>; \<open>RollbackSpec\<close> proves one engine
    equal to a simulation that knew every input; \<open>RollbackNet\<close> runs two engines over an arbitrary network;
    \<open>PeerProtocol\<close> is the message protocol with its lossy link, \<open>Session\<close> the session over it, \<open>SyncTest\<close>
    the determinism check, \<open>Lobby\<close> the match-making, \<open>MeshTransport\<close> the bridge to a mesh.
  \<^item> Chunks. \<open>Chunks\<close> (addressing, coverage), \<open>ChunkStore\<close> (the store's contract and the store in memory),
    \<open>FsStore\<close> (the store on disk, with crashes at every step), \<open>FsOrigin\<close> (files served in place).
  \<^item> Transports. \<open>MultihopGraph\<close>, \<open>MultihopRoute\<close>, \<open>MultihopForward\<close> (link states, routes, relaying),
    \<open>PathSelect\<close> (which path is used), \<open>SessionRegistry\<close> (WebRTC sessions and signals).
  \<^item> Frames. \<open>Text\<close> (names, UTF-8), \<open>GossipMessage\<close> (\<open>message/mod.rs\<close>, \<open>identity.rs\<close>), \<open>Reassembly\<close> and
    \<open>ReassemblyBodies\<close> (\<open>reassembly.rs\<close>).
  \<^item> The node. \<open>MessageLog\<close> and \<open>LogRetention\<close> (\<open>daemon/message_log.rs\<close>); \<open>AntiEntropy\<close>, \<open>FastRounds\<close> and
    \<open>StateRounds\<close> (\<open>gossip/antientropy.rs\<close>); \<open>EventIndex\<close> (forks and tips in \<open>daemon/state.rs\<close>, retention in
    \<open>gossip/recv.rs\<close>); \<open>NodeLinks\<close> (gossip events, watchdog, healing); \<open>Ingest\<close> (the inbound plane).

  \<^bold>\<open>What is shown.\<close> Netplay: every state an engine confirms is the one the inputs determine, two engines over
  any network agree on them and reach the end of a match, the engine never predicts past its window. The
  link delivers inputs in order, whatever is lost, repeated or reordered. Chunks: a store is a set of verified
  chunks, in memory and on disk, through crashes. Transports: routes are shortest and usable, a relay does not
  multiply traffic, no session is registered that no peer holds. Frames: what is signed is unambiguous, frames
  survive the wire, split bodies come back whole, within budgets, whoever else floods the store. The node:
  authentic frames are admitted once and forged ones change nothing; only wire frames are retained; the log
  keeps a set that does not depend on the order of arrival, the indexes stay within it; one digest recovers
  what a peer lacks, answers are bounded per key and window; stalled pulls take turns among the peers ahead;
  the link view follows the gossip stream; the watchdog retries with a bounded backoff. Some theorems show where
  the code does not do what its documentation says.

  \<^bold>\<open>Bounds and fuel.\<close> Recursions are structural or have a measure (the admission loop of \<open>Reassembly\<close>, the search of
  \<open>MultihopGraph\<close>); no definition runs out of fuel. Liveness is stated for the number of steps that suffices. A
  clock that runs backwards is excluded where a statement speaks of rates, by a sorted list of readings.

  \<^bold>\<open>Not modelled.\<close> The scheduling of the event loop, its timers, set-up and shutdown; dialing, probing, pooling
  and IPC over iroh; the beacon and the lookups; the membership roster and the join horizon; the automerge
  documents behind \<open>fofoca-doc\<close>; mesh configuration, invitations, the directory, key derivation and sealing in
  \<open>fofoca-protocol\<close>; the browser's chunk store and WebRTC drivers; streams, bindings, logging and tools. They
  are I/O around a library, or are left for a further step; what the modelled code relies on of them is an
  argument of its definitions.
\<close>

end
